theory Spec2Isabelle
  imports Main
begin

section \<open>Lifecycle controller: the guarded first connection\<close>

text \<open>
  Every component class of the library starts with \<open>this._connectedOnce = false\<close> in its
  constructor and wraps the first-connection work of \<open>connectedCallback\<close> in
  \<open>if (!this._connectedOnce) { this._connectedOnce = true; ... }\<close>.
  The lifecycle model records which methods a lifecycle hook calls, in call order; what
  the called methods do to the DOM is modelled further below.
\<close>

datatype component = ListItem | Tab | ListTitle | ListHeader | Tabbar

datatype call =
    ClassListAddDefault
  | AutoStylePrepare
  | Compile
  | ApplyDefaultClass
  | ApplyAutoStyling
  | UpgradeProperties
  | SetupListeners bool
  | SetupOnClick
  | SetupDefaultOnClick

record lifecycle =
  connectedOnce :: bool
  calls :: "call list"

definition constructor :: lifecycle where
  "constructor = \<lparr>connectedOnce = False, calls = []\<rparr>"

text \<open>The body of the \<open>if (!this._connectedOnce)\<close> block of each class.\<close>

fun firstConnection :: "component \<Rightarrow> call list" where
  "firstConnection ListItem = [ClassListAddDefault, AutoStylePrepare, Compile]"
| "firstConnection Tab = [ApplyDefaultClass, Compile, ApplyAutoStyling]"
| "firstConnection ListTitle = [ApplyDefaultClass, ApplyAutoStyling]"
| "firstConnection ListHeader = [ApplyDefaultClass, ApplyAutoStyling]"
| "firstConnection Tabbar = [UpgradeProperties]"

text \<open>The statements of \<open>connectedCallback\<close> after the guarded block.\<close>

fun everyConnection :: "component \<Rightarrow> call list" where
  "everyConnection ListItem = [SetupListeners True]"
| "everyConnection Tab = [SetupOnClick, SetupDefaultOnClick]"
| "everyConnection ListTitle = []"
| "everyConnection ListHeader = []"
| "everyConnection Tabbar = []"

definition connectedCallback :: "component \<Rightarrow> lifecycle \<Rightarrow> lifecycle" where
  "connectedCallback c this =
     (let this1 = (if \<not> connectedOnce this
                   then this\<lparr>connectedOnce := True, calls := calls this @ firstConnection c\<rparr>
                   else this)
      in this1\<lparr>calls := calls this1 @ everyConnection c\<rparr>)"

fun disconnection :: "component \<Rightarrow> call list" where
  "disconnection ListItem = [SetupListeners False]"
| "disconnection Tab = [SetupOnClick, SetupDefaultOnClick]"
| "disconnection ListTitle = []"
| "disconnection ListHeader = []"
| "disconnection Tabbar = []"

definition disconnectedCallback :: "component \<Rightarrow> lifecycle \<Rightarrow> lifecycle" where
  "disconnectedCallback c this = this\<lparr>calls := calls this @ disconnection c\<rparr>"

text \<open>The host may fire the two hooks any number of times, in any order.\<close>

datatype hook = Connect | Disconnect

fun fire :: "component \<Rightarrow> hook \<Rightarrow> lifecycle \<Rightarrow> lifecycle" where
  "fire c Connect this = connectedCallback c this"
| "fire c Disconnect this = disconnectedCallback c this"

fun lifetime :: "component \<Rightarrow> hook list \<Rightarrow> lifecycle \<Rightarrow> lifecycle" where
  "lifetime c [] this = this"
| "lifetime c (h # hs) this = lifetime c hs (fire c h this)"

fun isFirstConnectionWork :: "call \<Rightarrow> bool" where
  "isFirstConnectionWork (SetupListeners b) = False"
| "isFirstConnectionWork SetupOnClick = False"
| "isFirstConnectionWork SetupDefaultOnClick = False"
| "isFirstConnectionWork w = True"

section \<open>Readiness coordinator: \<open>contentReady\<close>\<close>

text \<open>
  Elements are object identities and callbacks are labels whose only observable effect
  is that they ran: \<open>ran\<close> is the record of callback invocations, oldest first.
  \<open>queueMap\<close> and \<open>readyMap\<close> are the two module-level WeakMaps.
  \<open>immediates\<close> holds the elements of the pending
  \<open>setImmediate(() => setContentReady(element))\<close> tasks and \<open>listeners\<close> those of the
  pending once-only \<open>readystatechange\<close> listeners, both in registration order.
\<close>

type_synonym element = nat
type_synonym callback = nat

datatype readyState = Loading | Interactive | Complete

record world =
  queueMap :: "element \<rightharpoonup> callback list"
  readyMap :: "element \<rightharpoonup> bool"
  readyState :: readyState
  immediates :: "element list"
  listeners :: "element list"
  ran :: "(element \<times> callback) list"

definition consumeQueue :: "element \<Rightarrow> world \<Rightarrow> world" where
  "consumeQueue element w =
     (let callbacks = (case queueMap w element of None \<Rightarrow> [] | Some cs \<Rightarrow> cs);
          w1 = w\<lparr>queueMap := (queueMap w)(element := None)\<rparr>
      in w1\<lparr>ran := ran w1 @ map (Pair element) callbacks\<rparr>)"

definition setContentReady :: "element \<Rightarrow> world \<Rightarrow> world" where
  "setContentReady element w =
     consumeQueue element (w\<lparr>readyMap := (readyMap w)(element \<mapsto> True)\<rparr>)"

definition contentReady :: "element \<Rightarrow> callback \<Rightarrow> world \<Rightarrow> world" where
  "contentReady element fn w =
     (let w1 = (case queueMap w element of
                  None \<Rightarrow> w\<lparr>queueMap := (queueMap w)(element \<mapsto> [])\<rparr>
                | Some cs \<Rightarrow> w);
          w2 = (case queueMap w1 element of
                  None \<Rightarrow> w1
                | Some cs \<Rightarrow> w1\<lparr>queueMap := (queueMap w1)(element \<mapsto> cs @ [fn])\<rparr>)
      in if readyMap w2 element \<noteq> None then consumeQueue element w2
         else if readyState w2 = Interactive \<or> readyState w2 = Complete
         then w2\<lparr>immediates := immediates w2 @ [element]\<rparr>
         else w2\<lparr>listeners := listeners w2 @ [element]\<rparr>)"

text \<open>
  What can happen to the module: a call of \<open>contentReady\<close>, the scheduler running the
  oldest pending \<open>setImmediate\<close> task, and the document changing its \<open>readyState\<close>, which
  dispatches \<open>readystatechange\<close> to every pending listener and drops them
  (\<open>{once: true}\<close>).
\<close>

datatype event =
    ContentReady element callback
  | RunImmediate
  | ReadyStateChange readyState

fun step :: "event \<Rightarrow> world \<Rightarrow> world" where
  "step (ContentReady element fn) w = contentReady element fn w"
| "step RunImmediate w =
     (case immediates w of
        [] \<Rightarrow> w
      | element # rest \<Rightarrow> setContentReady element (w\<lparr>immediates := rest\<rparr>))"
| "step (ReadyStateChange rs) w =
     fold setContentReady (listeners w) (w\<lparr>readyState := rs, listeners := []\<rparr>)"

fun run :: "event list \<Rightarrow> world \<Rightarrow> world" where
  "run [] w = w"
| "run (ev # evs) w = run evs (step ev w)"

definition initial :: "readyState \<Rightarrow> world" where
  "initial rs = \<lparr>queueMap = Map.empty, readyMap = Map.empty, readyState = rs,
                 immediates = [], listeners = [], ran = []\<rparr>"

text \<open>Observations: what ran for an element, what is still queued, what was registered.\<close>

definition runs :: "element \<Rightarrow> world \<Rightarrow> callback list" where
  "runs element w = map snd (filter (\<lambda>p. fst p = element) (ran w))"

definition pending :: "element \<Rightarrow> world \<Rightarrow> callback list" where
  "pending element w = (case queueMap w element of None \<Rightarrow> [] | Some cs \<Rightarrow> cs)"

definition isReady :: "element \<Rightarrow> world \<Rightarrow> bool" where
  "isReady element w = (readyMap w element \<noteq> None)"

fun registered :: "element \<Rightarrow> event list \<Rightarrow> callback list" where
  "registered element [] = []"
| "registered element (ContentReady e fn # evs) =
     (if e = element then fn # registered element evs else registered element evs)"
| "registered element (ev # evs) = registered element evs"

text \<open>The coordination invariant, relative to the callbacks \<open>r\<close> registered so far.\<close>

definition coordinated :: "(element \<Rightarrow> callback list) \<Rightarrow> world \<Rightarrow> bool" where
  "coordinated r w \<longleftrightarrow>
     (\<forall>el. runs el w @ pending el w = r el
         \<and> (isReady el w \<longrightarrow> pending el w = [])
         \<and> (\<not> isReady el w \<longrightarrow> runs el w = [])
         \<and> (pending el w \<noteq> [] \<longrightarrow> el \<in> set (immediates w) \<union> set (listeners w)))"

section \<open>Modifier rewriting: \<open>ModifierUtil.onModifierChanged\<close>\<close>

text \<open>
  Modelled from the spec: \<open>ModifierUtil.onModifierChanged(oldValue, newValue, element, scheme)\<close>
  of \<open>ons/internal/modifier-util.js\<close>, which the component classes call from
  \<open>attributeChangedCallback\<close> and which is not among the sources. The modifier attribute
  is a space-separated token list; a scheme entry is a class-name template with one
  substitution point \<open>*\<close> for the token; the call removes the derived classes of the
  tokens that are only in the old list and adds the derived classes of the tokens that are
  only in the new list. \<open>templates\<close> are the templates of the scheme entries that select
  the element itself, and the class list is the element's own.
\<close>

fun tokensFrom :: "string \<Rightarrow> string \<Rightarrow> string list" where
  "tokensFrom cur [] = (if cur = [] then [] else [cur])"
| "tokensFrom cur (c # cs) =
     (if c = CHR '' ''
      then (if cur = [] then tokensFrom [] cs else cur # tokensFrom [] cs)
      else tokensFrom (cur @ [c]) cs)"

definition tokenize :: "string \<Rightarrow> string list" where
  "tokenize str = tokensFrom [] str"

definition derivedClass :: "string \<Rightarrow> string \<Rightarrow> string" where
  "derivedClass token template = concat (map (\<lambda>c. if c = CHR ''*'' then token else [c]) template)"

definition derivedClasses :: "string list \<Rightarrow> string list \<Rightarrow> string list" where
  "derivedClasses templates toks = concat (map (\<lambda>t. map (derivedClass t) templates) toks)"

definition classListAdd :: "string \<Rightarrow> string list \<Rightarrow> string list" where
  "classListAdd c cl = (if c \<in> set cl then cl else cl @ [c])"

definition classListRemove :: "string \<Rightarrow> string list \<Rightarrow> string list" where
  "classListRemove c cl = filter (\<lambda>x. x \<noteq> c) cl"

definition onModifierChanged :: "string \<Rightarrow> string \<Rightarrow> string list \<Rightarrow> string list \<Rightarrow> string list" where
  "onModifierChanged oldValue newValue templates cl =
     (let old = tokenize oldValue;
          new = tokenize newValue;
          removed = filter (\<lambda>t. t \<notin> set new) old;
          added = filter (\<lambda>t. t \<notin> set old) new
      in fold classListAdd (derivedClasses templates added)
           (fold classListRemove (derivedClasses templates removed) cl))"

section \<open>The DOM under a component\<close>

text \<open>
  A node is an element or a text node. \<open>nid\<close> is the identity of the node object: the
  code compares nodes with \<open>===\<close> and \<open>includes\<close>, and a node that is moved keeps its
  identity. \<open>nodeName\<close> is upper case for the elements of an HTML document and
  \<open>#text\<close> for a text node; a text node has no class list, no attributes and no
  children, so \<open>node.classList?.contains(c)\<close> is falsy for it.
\<close>

datatype node =
    Element (nid: nat) (nodeName: string) (classes: "string list")
      (attrs: "(string \<times> string) list") (kids: "node list")
  | Text (nid: nat) (textData: string)
where
  "nodeName (Text i d) = ''#text''"
| "classes (Text i d) = []"
| "attrs (Text i d) = []"
| "kids (Text i d) = []"
| "textData (Element i n c a k) = []"

text \<open>The selector \<open>:scope > tag.cls\<close>, and \<open>:scope > .cls\<close> and \<open>:scope > tag\<close>.\<close>

definition matches :: "string \<Rightarrow> string \<Rightarrow> node \<Rightarrow> bool" where
  "matches tag cls n \<longleftrightarrow> nodeName n = tag \<and> cls \<in> set (classes n)"

definition hasClass :: "string \<Rightarrow> node \<Rightarrow> bool" where
  "hasClass cls n \<longleftrightarrow> cls \<in> set (classes n)"

definition hasTag :: "string \<Rightarrow> node \<Rightarrow> bool" where
  "hasTag tag n \<longleftrightarrow> nodeName n = tag"

text \<open>\<open>if (!n.classList.contains(c)) n.classList.add(c)\<close>\<close>

fun addClass :: "string \<Rightarrow> node \<Rightarrow> node" where
  "addClass c (Element i n cl a k) = Element i n (classListAdd c cl) a k"
| "addClass c (Text i d) = Text i d"

fun setKids :: "node list \<Rightarrow> node \<Rightarrow> node" where
  "setKids ks (Element i n cl a k) = Element i n cl a ks"
| "setKids ks (Text i d) = Text i d"

text \<open>
  Mutating the node object \<open>i\<close> where it sits in a child list, detaching it
  (\<open>node.remove()\<close>), and reading its children.
\<close>

definition onNode :: "nat \<Rightarrow> (node \<Rightarrow> node) \<Rightarrow> node list \<Rightarrow> node list" where
  "onNode i f ks = map (\<lambda>n. if nid n = i then f n else n) ks"

definition removeNode :: "nat \<Rightarrow> node list \<Rightarrow> node list" where
  "removeNode i ks = filter (\<lambda>n. nid n \<noteq> i) ks"

definition kidsOf :: "nat \<Rightarrow> node list \<Rightarrow> node list" where
  "kidsOf i ks = (case find (\<lambda>n. nid n = i) ks of None \<Rightarrow> [] | Some n \<Rightarrow> kids n)"

text \<open>
  The cases \<open>1\<close> and \<open>default\<close> of the \<open>switch\<close> over the number of matches that
  \<open>_compile\<close> repeats for each wrapper: one match is adopted; with two or more the first
  is removed from the document and the second adopted. The result is the child list and
  the adopted node; \<open>None\<close> is case \<open>0\<close>.
\<close>

fun adopt :: "node list \<Rightarrow> node list \<Rightarrow> (node list \<times> nat) option" where
  "adopt [] ks = None"
| "adopt [x] ks = Some (ks, nid x)"
| "adopt (x0 # x1 # xs) ks = Some (removeNode (nid x0) ks, nid x1)"

section \<open>\<open>ons-list-item\<close>\<close>

text \<open>
  The state of a list item: its attributes, class list and child nodes, the private
  fields the methods below use, and the next unused node identity (\<open>allocated\<close>), from
  which \<open>document.createElement\<close> takes the identity of a new node. \<open>dispatched\<close>
  records the events the element dispatched and \<open>animations\<close> the animator invocations
  whose completion callback has not run yet, each with its \<open>expand\<close> argument.
\<close>

record list_item =
  attributes :: "(string \<times> string) list"
  classList :: "string list"
  childNodes :: "node list"
  expanding :: bool
  topElement :: "nat option"
  expandableContentElement :: "nat option"
  animatorFactory :: string
  allocated :: nat
  dispatched :: "string list"
  animations :: "bool list"

definition hasAttribute :: "string \<Rightarrow> list_item \<Rightarrow> bool" where
  "hasAttribute name this \<longleftrightarrow> name \<in> set (map fst (attributes this))"

definition expandable :: "list_item \<Rightarrow> bool" where
  "expandable this = hasAttribute ''expandable'' this"

text \<open>
  Modelled from the spec: the boolean property that \<open>util.defineBooleanProperty(this, 'expanded')\<close>
  defines (\<open>ons/util.js\<close> is not among the sources) reads as the presence of the attribute.
\<close>

definition expanded :: "list_item \<Rightarrow> bool" where
  "expanded this = hasAttribute ''expanded'' this"

text \<open>
  The pieces of \<open>_compile\<close>. \<open>markWrapper\<close> is
  \<open>if (w && !w.classList.contains(c)) w.classList.add(c)\<close>, and \<open>moveInto\<close> is
  \<open>Array.from(parent.childNodes).filter(p).forEach(node => target.appendChild(node))\<close>
  on the child list of \<open>parent\<close>, of which \<open>target\<close> is a member.
\<close>

definition markWrapper :: "string \<Rightarrow> nat option \<Rightarrow> node list \<Rightarrow> node list" where
  "markWrapper c w ks = (case w of None \<Rightarrow> ks | Some i \<Rightarrow> onNode i (addClass c) ks)"

definition moveInto :: "nat \<Rightarrow> (node \<Rightarrow> bool) \<Rightarrow> node list \<Rightarrow> node list" where
  "moveInto target p ks =
     onNode target (\<lambda>t. setKids (kids t @ filter p ks) t) (filter (\<lambda>n. \<not> p n) ks)"

text \<open>\<open>const left = topContent.querySelector(':scope > div.left')\<close>\<close>

definition leftWrapper :: "node list \<Rightarrow> nat option" where
  "leftWrapper tk = map_option nid (find (matches ''DIV'' ''left'') tk)"

text \<open>
  The \<open>switch (rights.length)\<close>: without a \<open>div.right\<close> an expandable item gets a new
  one that holds the chevron \<open>span\<close>, in front of the other children.
\<close>

definition rightWrapper :: "bool \<Rightarrow> nat \<Rightarrow> node list \<Rightarrow> nat \<times> node list \<times> nat option" where
  "rightWrapper isExpandable a tk =
     (case adopt (filter (matches ''DIV'' ''right'') tk) tk of
        None \<Rightarrow>
          if isExpandable
          then (let chevron = Element a ''SPAN'' [''list-item__expand-chevron''] [] [];
                    right = Element (Suc a) ''DIV'' [''right''] [] [chevron]
                in (Suc (Suc a), right # tk, Some (Suc a)))
          else (a, tk, None)
      | Some (ks, r) \<Rightarrow> (a, ks, Some r))"

text \<open>The \<open>switch (centers.length)\<close>: without a \<open>div.center\<close> a new one is put in front.\<close>

definition centerWrapper :: "nat \<Rightarrow> node list \<Rightarrow> nat \<times> node list \<times> nat" where
  "centerWrapper a tk =
     (case adopt (filter (matches ''DIV'' ''center'') tk) tk of
        None \<Rightarrow> (Suc a, Element a ''DIV'' [''center''] [] [] # tk, a)
      | Some (ks, c) \<Rightarrow> (a, ks, c))"

text \<open>\<open>node => ![left, right, center].includes(node) && node.nodeName !== 'ONS-RIPPLE'\<close>\<close>

definition relocate :: "nat option \<Rightarrow> nat option \<Rightarrow> nat \<Rightarrow> node \<Rightarrow> bool" where
  "relocate left right center n \<longleftrightarrow>
     Some (nid n) \<noteq> left \<and> Some (nid n) \<noteq> right \<and> nid n \<noteq> center
     \<and> nodeName n \<noteq> ''ONS-RIPPLE''"

text \<open>
  The second half of \<open>_compile\<close>, on the child list of \<open>topContent\<close>: the left, right and
  center wrappers and the relocation of every other child into the center wrapper.
\<close>

definition compileContent :: "bool \<Rightarrow> nat \<Rightarrow> node list \<Rightarrow> nat \<times> node list" where
  "compileContent isExpandable a tk =
     (let left = leftWrapper tk;
          tk1 = markWrapper ''list-item__left'' left tk;
          (a1, tk2, right) = rightWrapper isExpandable a tk1;
          tk3 = markWrapper ''list-item__right'' right tk2;
          (a2, tk4, center) = centerWrapper a1 tk3;
          tk5 = markWrapper ''list-item__center'' (Some center) tk4
      in (a2, moveInto center (relocate left right center) tk5))"

text \<open>
  The \<open>switch (tops.length)\<close> and the \<open>switch (expandableContents.length)\<close> of an
  expandable item: a missing wrapper is created and put in front
  (\<open>this.insertBefore(x, this.firstChild)\<close>).
\<close>

definition wrapperOrNew :: "string \<Rightarrow> nat \<Rightarrow> node list \<Rightarrow> nat \<times> node list \<times> nat" where
  "wrapperOrNew cls a ks =
     (case adopt (filter (matches ''DIV'' cls) ks) ks of
        None \<Rightarrow> (Suc a, Element a ''DIV'' [cls] [] [] # ks, a)
      | Some (ks', w) \<Rightarrow> (a, ks', w))"

text \<open>
  \<open>node => node !== top && !node.classList?.contains('expandable-content')
  && node.nodeName !== 'ONS-RIPPLE'\<close>
\<close>

definition toTop :: "nat \<Rightarrow> node \<Rightarrow> bool" where
  "toTop topEl n \<longleftrightarrow>
     nid n \<noteq> topEl \<and> \<not> hasClass ''expandable-content'' n \<and> nodeName n \<noteq> ''ONS-RIPPLE''"

text \<open>
  \<open>_compile\<close> up to its last statement: the top and expandable-content wrappers of an
  expandable item, the relocation of the other children into the top wrapper, then the
  content of \<open>topContent\<close>, which is the top wrapper or the item itself. The children of
  the top wrapper are those it had when it was adopted, followed by the relocated nodes,
  also when the wrapper has been detached in between as the first of several
  \<open>div.expandable-content\<close>.
\<close>

definition compileStructure :: "list_item \<Rightarrow> list_item" where
  "compileStructure this =
     (if expandable this
      then
        (let (a1, k1, topEl) = wrapperOrNew ''top'' (allocated this) (childNodes this);
             k2 = markWrapper ''list-item__top'' (Some topEl) k1;
             (a2, k3, expandableContent) = wrapperOrNew ''expandable-content'' a1 k2;
             k4 = markWrapper ''list-item__expandable-content'' (Some expandableContent) k3;
             (a3, tk) = compileContent True a2 (kidsOf topEl k2 @ filter (toTop topEl) k4)
         in this\<lparr>childNodes := onNode topEl (setKids tk) (filter (\<lambda>n. \<not> toTop topEl n) k4),
                 topElement := Some topEl,
                 expandableContentElement := Some expandableContent,
                 allocated := a3\<rparr>)
      else
        (let (a1, ks) = compileContent False (allocated this) (childNodes this)
         in this\<lparr>childNodes := ks, allocated := a1\<rparr>))"

text \<open>
  \<open>_compile\<close>. Its last statement is \<open>util.updateRipple(this)\<close>; \<open>ons/util.js\<close> is not
  among the sources, so \<open>updateRipple\<close> is a parameter.
\<close>

definition ListItem_compile :: "(list_item \<Rightarrow> list_item) \<Rightarrow> list_item \<Rightarrow> list_item" where
  "ListItem_compile updateRipple this = updateRipple (compileStructure this)"

text \<open>
  The constructor, for an element whose attributes, classes and children are those of its
  markup: \<open>_expanding\<close> is not set (falsy), and the animator factory is built from the
  \<open>animation\<close> attribute.
\<close>

definition getAttribute :: "string \<Rightarrow> list_item \<Rightarrow> string option" where
  "getAttribute name this = map_of (attributes this) name"

definition updateAnimatorFactory :: "list_item \<Rightarrow> string" where
  "updateAnimatorFactory this =
     (case getAttribute ''animation'' this of
        None \<Rightarrow> ''default''
      | Some v \<Rightarrow> if v = [] then ''default'' else v)"

definition ListItem_constructor ::
  "(string \<times> string) list \<Rightarrow> string list \<Rightarrow> node list \<Rightarrow> nat \<Rightarrow> list_item" where
  "ListItem_constructor as cl ks a =
     (let this = \<lparr>attributes = as, classList = cl, childNodes = ks, expanding = False,
                   topElement = None, expandableContentElement = None,
                   animatorFactory = ''default'', allocated = a,
                   dispatched = [], animations = []\<rparr>
      in this\<lparr>animatorFactory := updateAnimatorFactory this\<rparr>)"

text \<open>
  \<open>_animateExpansion\<close>. Dispatching the \<open>expansion\<close> event and invoking
  \<open>animator._animateExpansion(this, this.expanded, callback)\<close> are recorded; the callback
  is \<open>expansionDone\<close>, which the animator (\<open>./animator.js\<close>, not among the sources) runs
  when the animation ends.
\<close>

definition animateExpansion :: "list_item \<Rightarrow> list_item" where
  "animateExpansion this =
     (let expandedAtStartup = (expanded this \<and> ''list-item--expanded'' \<in> set (classList this))
      in if \<not> expandable this \<or> expanding this \<or> expandedAtStartup then this
         else this\<lparr>expanding := True,
                   dispatched := dispatched this @ [''expansion''],
                   animations := animations this @ [expanded this]\<rparr>)"

definition expansionDone :: "list_item \<Rightarrow> list_item" where
  "expansionDone this =
     (let this1 = this\<lparr>expanding := False\<rparr>
      in if expanded this1
         then this1\<lparr>classList := classListAdd ''list-item--expanded'' (classList this1)\<rparr>
         else this1\<lparr>classList := classListRemove ''list-item--expanded'' (classList this1)\<rparr>)"

text \<open>
  \<open>attributeChangedCallback\<close>. \<open>util.restoreClass\<close>, \<open>ModifierUtil.onModifierChanged\<close> on
  the element and its descendants, and \<open>util.updateRipple\<close> are not among the sources and
  are parameters.
\<close>

record helpers =
  restoreClass :: "list_item \<Rightarrow> list_item"
  modifierChanged :: "string option \<Rightarrow> string option \<Rightarrow> list_item \<Rightarrow> list_item"
  updateRipple :: "list_item \<Rightarrow> list_item"

definition ListItem_attributeChangedCallback ::
  "helpers \<Rightarrow> string \<Rightarrow> string option \<Rightarrow> string option \<Rightarrow> list_item \<Rightarrow> list_item" where
  "ListItem_attributeChangedCallback util name lastValue current this =
     (if name = ''class'' then restoreClass util this
      else if name = ''modifier'' then modifierChanged util lastValue current this
      else if name = ''ripple'' then updateRipple util this
      else if name = ''animation'' then this\<lparr>animatorFactory := updateAnimatorFactory this\<rparr>
      else if name = ''expanded'' then animateExpansion this
      else if name = ''expandable'' then
        ListItem_compile (updateRipple util)
          (this\<lparr>classList := classListAdd ''list-item--expandable'' (classList this)\<rparr>)
      else this)"

text \<open>
  What can happen around the expansion: \<open>_animateExpansion\<close> is called (from
  \<open>attributeChangedCallback\<close>), the animator runs the completion callback of the oldest
  animation in flight, or the attributes and classes of the element change.
\<close>

datatype expansion_event =
    CallAnimateExpansion
  | AnimationEnds
  | Mutate "(string \<times> string) list" "string list"

fun expansionStep :: "expansion_event \<Rightarrow> list_item \<Rightarrow> list_item" where
  "expansionStep CallAnimateExpansion this = animateExpansion this"
| "expansionStep AnimationEnds this =
     (case animations this of
        [] \<Rightarrow> this
      | b # rest \<Rightarrow> expansionDone (this\<lparr>animations := rest\<rparr>))"
| "expansionStep (Mutate as cl) this = this\<lparr>attributes := as, classList := cl\<rparr>"

fun expansionRun :: "expansion_event list \<Rightarrow> list_item \<Rightarrow> list_item" where
  "expansionRun [] this = this"
| "expansionRun (ev # evs) this = expansionRun evs (expansionStep ev this)"

section \<open>\<open>ons-tabbar\<close>\<close>

text \<open>
  The members that the body of \<open>class TabbarElement\<close> defines, each with its kind, and
  the fields that the constructor and \<open>_onSlotChange\<close> assign. Everything after the
  \<open>// JUNK\<close> marker of the class, \<open>setActiveTab\<close> included, is commented out. The
  members inherited from \<open>BaseElement\<close> (\<open>../base/base-element.js\<close>, not among the
  sources) are a parameter.
\<close>

datatype member = Method | Accessor | Field

definition TabbarElement_members :: "(string \<times> member) list" where
  "TabbarElement_members =
     [(''constructor'', Method), (''connectedCallback'', Method),
      (''disconnectedCallback'', Method), (''_onSlotChange'', Method),
      (''attributeChangedCallback'', Method), (''activeIndex'', Accessor),
      (''_createShadow'', Method), (''_upgradeProperties'', Method), (''_onActive'', Method)]"

definition TabbarElement_fields :: "(string \<times> member) list" where
  "TabbarElement_fields =
     [(''_connectedOnce'', Field), (''_watchedTabs'', Field), (''_pageLoader'', Field),
      (''_tabElements'', Field)]"

text \<open>
  A call \<open>tabbar.name(...)\<close> looks the name up among the fields of the object, then the
  members of the class, then the inherited ones. It returns what the method returns
  (\<open>body\<close> stands for the methods), and throws a \<open>TypeError\<close> synchronously when the name
  is not found or is no method. A promise is resolved with a value or rejected with a
  reason.
\<close>

datatype thrown = TypeError string

datatype 'a promise = Resolve 'a | Reject string

definition callMember ::
  "(string \<times> member) list \<Rightarrow> (string \<Rightarrow> 'r) \<Rightarrow> string \<Rightarrow> thrown + 'r" where
  "callMember inherited body name =
     (case map_of (TabbarElement_fields @ TabbarElement_members @ inherited) name of
        Some Method \<Rightarrow> Inr (body name)
      | _ \<Rightarrow> Inl (TypeError name))"

text \<open>
  The state of a tab bar as far as the accessor \<open>activeIndex\<close> goes: its attributes.
  \<open>attributeChangedCallback\<close> does nothing for \<open>active-index\<close>, the one observed
  attribute; the getter reads the attribute and the setter writes it.
\<close>

record tabbar =
  tabbarAttributes :: "(string \<times> string) list"

definition Tabbar_attributeChangedCallback :: "string \<Rightarrow> tabbar \<Rightarrow> tabbar" where
  "Tabbar_attributeChangedCallback name this = this"

definition Tabbar_activeIndex :: "tabbar \<Rightarrow> string option" where
  "Tabbar_activeIndex this = map_of (tabbarAttributes this) ''active-index''"

definition Tabbar_setActiveIndex :: "string \<Rightarrow> tabbar \<Rightarrow> tabbar" where
  "Tabbar_setActiveIndex v this =
     Tabbar_attributeChangedCallback ''active-index''
       (this\<lparr>tabbarAttributes :=
          (if ''active-index'' \<in> set (map fst (tabbarAttributes this))
           then map (\<lambda>p. if fst p = ''active-index'' then (''active-index'', v) else p)
                  (tabbarAttributes this)
           else tabbarAttributes this @ [(''active-index'', v)])\<rparr>)"

text \<open>
  Every node of a subtree, as its identity and node name, in document order.
\<close>

fun subtree :: "node \<Rightarrow> (nat \<times> string) list" where
  "subtree (Element i n c a ks) = (i, n) # concat (map subtree ks)"
| "subtree (Text i d) = [(i, ''#text'')]"

definition forest :: "node list \<Rightarrow> (nat \<times> string) list" where
  "forest ks = concat (map subtree ks)"

text \<open>
  Node identities are distinct, and \<open>allocated\<close> is beyond all of them.
\<close>

definition wellFormedNodes :: "nat \<Rightarrow> node list \<Rightarrow> bool" where
  "wellFormedNodes a ks \<longleftrightarrow>
     distinct (map fst (forest ks)) \<and> (\<forall>p \<in> set (forest ks). fst p < a)"

definition wellFormed :: "list_item \<Rightarrow> bool" where
  "wellFormed this = wellFormedNodes (allocated this) (childNodes this)"

text \<open>The same for one child list alone.\<close>

definition siblings :: "nat \<Rightarrow> node list \<Rightarrow> bool" where
  "siblings a ks \<longleftrightarrow> distinct (map nid ks) \<and> (\<forall>i \<in> set (map nid ks). i < a)"

text \<open>
  The wrappers of a content list before any class is added: the child list with the
  created wrappers and without the removed duplicates, and the left, right and center
  wrapper. \<open>marks\<close> adds the three \<open>list-item__\<close> classes.
\<close>

definition wrappers ::
  "bool \<Rightarrow> nat \<Rightarrow> node list \<Rightarrow> nat \<times> node list \<times> nat option \<times> nat option \<times> nat" where
  "wrappers isExpandable a tk =
     (let (a1, tk1, right) = rightWrapper isExpandable a tk;
          (a2, tk2, center) = centerWrapper a1 tk1
      in (a2, tk2, leftWrapper tk, right, center))"

definition marks :: "nat option \<Rightarrow> nat option \<Rightarrow> nat \<Rightarrow> node list \<Rightarrow> node list" where
  "marks left right center ks =
     markWrapper ''list-item__center'' (Some center)
       (markWrapper ''list-item__right'' right
          (markWrapper ''list-item__left'' left ks))"

text \<open>
  A child of the content is \<open>marked\<close> when it carries one of the three wrapper classes
  that \<open>_compile\<close> adds, and \<open>plain\<close> when it is no candidate for a wrapper and no ripple
  element.
\<close>

definition marked :: "node \<Rightarrow> bool" where
  "marked n \<longleftrightarrow> hasClass ''list-item__left'' n \<or> hasClass ''list-item__right'' n
                \<or> hasClass ''list-item__center'' n"

definition ripple :: "node \<Rightarrow> bool" where
  "ripple n \<longleftrightarrow> nodeName n = ''ONS-RIPPLE''"

definition plain :: "node \<Rightarrow> bool" where
  "plain n \<longleftrightarrow> \<not> matches ''DIV'' ''left'' n \<and> \<not> matches ''DIV'' ''right'' n
               \<and> \<not> matches ''DIV'' ''center'' n \<and> \<not> ripple n"

text \<open>The classes that \<open>marks\<close> adds to one node.\<close>

definition mark1 :: "nat option \<Rightarrow> nat option \<Rightarrow> nat \<Rightarrow> node \<Rightarrow> node" where
  "mark1 left right center n =
     (let n1 = (if Some (nid n) = left then addClass ''list-item__left'' n else n);
          n2 = (if Some (nid n) = right then addClass ''list-item__right'' n1 else n1)
      in if nid n = center then addClass ''list-item__center'' n2 else n2)"

text \<open>
  What resolving the wrapper of class \<open>cls\<close> does to a child list: new \<open>div\<close>s of that
  class alone in front, and only nodes that match \<open>div.cls\<close> are gone.
\<close>

definition changed :: "string \<Rightarrow> nat \<Rightarrow> node list \<Rightarrow> nat \<Rightarrow> node list \<Rightarrow> bool" where
  "changed cls a ks a' ks' \<longleftrightarrow>
     a \<le> a' \<and>
     (\<exists>new gone. ks' = new @ filter (\<lambda>n. nid n \<notin> set gone) ks
        \<and> distinct (map nid new)
        \<and> (\<forall>n \<in> set new. a \<le> nid n \<and> nid n < a' \<and> nodeName n = ''DIV'' \<and> classes n = [cls])
        \<and> (\<forall>n \<in> set ks. nid n \<in> set gone \<longrightarrow> matches ''DIV'' cls n))"

text \<open>At most one child matches \<open>div.cls\<close>.\<close>

definition single :: "string \<Rightarrow> node list \<Rightarrow> bool" where
  "single cls ks \<longleftrightarrow> length (filter (matches ''DIV'' cls) ks) \<le> 1"

text \<open>
  A child of an expandable item that is no candidate for any wrapper and no ripple
  element.
\<close>

definition plainChild :: "node \<Rightarrow> bool" where
  "plainChild n \<longleftrightarrow> plain n \<and> \<not> matches ''DIV'' ''top'' n \<and> \<not> hasClass ''expandable-content'' n"

text \<open>The classes that \<open>_compile\<close> adds to one child of an expandable item.\<close>

definition markTop :: "nat \<Rightarrow> nat \<Rightarrow> node \<Rightarrow> node" where
  "markTop t x n =
     (let n1 = (if nid n = t then addClass ''list-item__top'' n else n)
      in if nid n = x then addClass ''list-item__expandable-content'' n1 else n1)"

text \<open>
  The child list of \<open>topContent\<close> of an expandable item with at most one \<open>div.top\<close>: the
  children of that wrapper followed by the children of the item that go into it. An item
  has no duplicate wrappers when at most one child matches each wrapper selector where
  \<open>_compile\<close> looks for it.
\<close>

definition topContent :: "node list \<Rightarrow> node list" where
  "topContent ks =
     (case find (matches ''DIV'' ''top'') ks of None \<Rightarrow> [] | Some tn \<Rightarrow> kids tn)
     @ filter (\<lambda>n. \<not> matches ''DIV'' ''top'' n \<and> \<not> hasClass ''expandable-content'' n
                    \<and> nodeName n \<noteq> ''ONS-RIPPLE'') ks"

definition noDuplicates :: "list_item \<Rightarrow> bool" where
  "noDuplicates this \<longleftrightarrow>
     (if expandable this
      then single ''top'' (childNodes this) \<and> single ''expandable-content'' (childNodes this)
         \<and> single ''right'' (topContent (childNodes this))
         \<and> single ''center'' (topContent (childNodes this))
      else single ''right'' (childNodes this) \<and> single ''center'' (childNodes this))"

text \<open>The element nodes of a forest.\<close>

definition elements :: "node list \<Rightarrow> (nat \<times> string) list" where
  "elements ks = filter (\<lambda>p. snd p \<noteq> ''#text'') (forest ks)"

section \<open>What \<open>_compile\<close> removes from a list item\<close>

text \<open>
  The node that the \<open>default\<close> case of a \<open>switch\<close> removes: the first of two or more
  children that match \<open>div.cls\<close>.
\<close>

definition firstOfSeveral :: "string \<Rightarrow> node list \<Rightarrow> node list" where
  "firstOfSeveral cls ks =
     (case filter (matches ''DIV'' cls) ks of x0 # x1 # xs \<Rightarrow> [x0] | _ \<Rightarrow> [])"

text \<open>
  The nodes that the switches over \<open>rights\<close> and \<open>centers\<close> remove from the child list
  of \<open>topContent\<close>, the nodes that the switches over \<open>tops\<close> and \<open>expandableContents\<close>
  remove from the children of an expandable item, and all of them together.
\<close>

definition removedFromContent :: "bool \<Rightarrow> nat \<Rightarrow> node list \<Rightarrow> node list" where
  "removedFromContent isExpandable a tk =
     (case rightWrapper isExpandable a tk of
        (a1, tk1, right) \<Rightarrow> firstOfSeveral ''right'' tk @ firstOfSeveral ''center'' tk1)"

definition removedWrappers :: "list_item \<Rightarrow> node list" where
  "removedWrappers this =
     (case wrapperOrNew ''top'' (allocated this) (childNodes this) of
        (a1, k1, topEl) \<Rightarrow>
          firstOfSeveral ''top'' (childNodes this) @ firstOfSeveral ''expandable-content'' k1)"

definition removedByCompile :: "list_item \<Rightarrow> node list" where
  "removedByCompile this =
     (if expandable this
      then (case wrapperOrNew ''top'' (allocated this) (childNodes this) of
              (a1, k1, topEl) \<Rightarrow>
                (case wrapperOrNew ''expandable-content'' a1 k1 of
                   (a2, k3, expandableContent) \<Rightarrow>
                     removedWrappers this
                     @ removedFromContent True a2 (kidsOf topEl k1 @ filter (toTop topEl) k3)))
      else removedFromContent False (allocated this) (childNodes this))"

text \<open>
  The top wrapper of an expandable item is itself removed when it is the first of several
  \<open>div.expandable-content\<close>.
\<close>

definition topRemoved :: "list_item \<Rightarrow> bool" where
  "topRemoved this \<longleftrightarrow>
     expandable this
   \<and> (case wrapperOrNew ''top'' (allocated this) (childNodes this) of
        (a1, k1, topEl) \<Rightarrow> topEl \<in> set (map nid (firstOfSeveral ''expandable-content'' k1)))"

section \<open>\<open>ons-tab\<close>\<close>

text \<open>
  The state of a tab: its attributes and child nodes, the private fields that the
  constructor and \<open>_compile\<close> assign, and the next unused node identity. A field that
  holds a node holds its identity; \<open>None\<close> is \<open>null\<close> or \<open>undefined\<close>.
\<close>

record tab =
  tabAttributes :: "(string \<times> string) list"
  tabChildNodes :: "node list"
  iconPropertiesTouched :: bool
  labelPropertyTouched :: bool
  badgePropertyTouched :: bool
  ripplePropertyTouched :: bool
  automaticallyAddedButton :: "nat option"
  inputElement :: "nat option"
  iconElement :: "nat option"
  labelElement :: "nat option"
  badgeElement :: "nat option"
  tabAllocated :: nat

text \<open>
  The constructor, for an element with the attributes and children of its markup. The
  host reports every attribute of the markup through \<open>attributeChangedCallback\<close>, which
  sets the matching \<open>Touched\<close> field before it calls \<open>_compile\<close>; without such a report
  the fields are as the constructor leaves them.
\<close>

definition Tab_constructor :: "(string \<times> string) list \<Rightarrow> node list \<Rightarrow> nat \<Rightarrow> tab" where
  "Tab_constructor as ks a =
     \<lparr>tabAttributes = as, tabChildNodes = ks,
      iconPropertiesTouched = False, labelPropertyTouched = False,
      badgePropertyTouched = False, ripplePropertyTouched = False,
      automaticallyAddedButton = None, inputElement = None, iconElement = None,
      labelElement = None, badgeElement = None, tabAllocated = a\<rparr>"

text \<open>
  \<open>getAttribute\<close> and \<open>setAttribute\<close>, which the accessors \<open>icon\<close>, \<open>activeIcon\<close>,
  \<open>label\<close> and \<open>badge\<close> call. \<open>setAttribute\<close> is the write of the attribute alone: the
  call of \<open>attributeChangedCallback\<close> with which the host reacts to the write is a
  transition of its own and no part of the method that writes.
\<close>

definition Tab_getAttribute :: "string \<Rightarrow> tab \<Rightarrow> string option" where
  "Tab_getAttribute name this = map_of (tabAttributes this) name"

definition Tab_setAttribute :: "string \<Rightarrow> string \<Rightarrow> tab \<Rightarrow> tab" where
  "Tab_setAttribute name v this =
     this\<lparr>tabAttributes :=
       (if name \<in> set (map fst (tabAttributes this))
        then map (\<lambda>p. if fst p = name then (name, v) else p) (tabAttributes this)
        else tabAttributes this @ [(name, v)])\<rparr>"

text \<open>A value in a condition: \<open>null\<close> and the empty string are falsy.\<close>

definition truthy :: "string option \<Rightarrow> bool" where
  "truthy v \<longleftrightarrow> v \<noteq> None \<and> v \<noteq> Some []"

text \<open>
  Modelled from the spec: the boolean property that \<open>util.defineBooleanProperty(this, 'ripple')\<close>
  defines (\<open>ons/util.js\<close> is not among the sources) reads as the presence of the attribute,
  and assigning \<open>true\<close> sets the attribute to the empty string.
\<close>

definition Tab_ripple :: "tab \<Rightarrow> bool" where
  "Tab_ripple this \<longleftrightarrow> Tab_getAttribute ''ripple'' this \<noteq> None"

definition Tab_setRipple :: "tab \<Rightarrow> tab" where
  "Tab_setRipple this = Tab_setAttribute ''ripple'' [] this"

text \<open>\<open>nodes.forEach(node => node.remove())\<close> and \<open>node.textContent\<close>.\<close>

definition removeNodes :: "node list \<Rightarrow> node list \<Rightarrow> node list" where
  "removeNodes xs ks = fold (\<lambda>x. removeNode (nid x)) xs ks"

fun textContent :: "node \<Rightarrow> string" where
  "textContent (Element i n c a k) = concat (map textContent k)"
| "textContent (Text i d) = d"

text \<open>
  The section BUTTON of \<open>_compile\<close>: the button is the first child with class
  \<open>tabbar__button\<close> that is not the automatically added one, which is then removed; or
  the automatically added one; or a new one. The result is the tab and the button.
\<close>

definition compileButton :: "tab \<Rightarrow> tab \<times> nat" where
  "compileButton this =
     (let allButtons = filter (hasClass ''tabbar__button'') (tabChildNodes this);
          userAddedButton = find (\<lambda>n. Some (nid n) \<noteq> automaticallyAddedButton this) allButtons
      in case userAddedButton of
           Some button \<Rightarrow>
             (case automaticallyAddedButton this of
                Some auto \<Rightarrow>
                  (this\<lparr>tabChildNodes := removeNode auto (tabChildNodes this),
                        automaticallyAddedButton := None\<rparr>, nid button)
              | None \<Rightarrow> (this, nid button))
         | None \<Rightarrow>
             (case automaticallyAddedButton this of
                Some auto \<Rightarrow> (this, auto)
              | None \<Rightarrow>
                  (let a = tabAllocated this
                   in (this\<lparr>tabChildNodes :=
                              tabChildNodes this @ [Element a ''BUTTON'' [''tabbar__button''] [] []],
                            automaticallyAddedButton := Some a,
                            tabAllocated := Suc a\<rparr>, a))))"

text \<open>
  The section INPUT up to \<open>furtherInputs.forEach(node => node.remove())\<close>: the first
  \<open>input\<close> child is kept and the further ones are removed; without one a hidden radio
  input is appended.
\<close>

definition compileInput :: "tab \<Rightarrow> tab \<times> nat" where
  "compileInput this =
     (case filter (hasTag ''INPUT'') (tabChildNodes this) of
        [] \<Rightarrow>
          (let a = tabAllocated this
           in (this\<lparr>tabChildNodes :=
                      tabChildNodes this
                        @ [Element a ''INPUT'' [] [(''type'', ''radio''), (''style'', ''display: none;'')] []],
                    tabAllocated := Suc a\<rparr>, a))
      | input # furtherInputs \<Rightarrow>
          (this\<lparr>tabChildNodes := removeNodes furtherInputs (tabChildNodes this)\<rparr>, nid input))"

text \<open>
  The sections BUTTON and INPUT with the relocation of every child other than the
  button and the input into the button. The result is the tab, the button and the
  child list of the button. The children of the button are those it has among the
  children of the tab, also when it has been detached in between as a further \<open>input\<close>;
  a button that is outside the tab from the start is taken as empty.
\<close>

definition compileChildren :: "tab \<Rightarrow> tab \<times> nat \<times> node list" where
  "compileChildren this =
     (let (this1, button) = compileButton this;
          (this2, input) = compileInput this1;
          moved = filter (\<lambda>n. nid n \<noteq> button \<and> nid n \<noteq> input) (tabChildNodes this2)
      in (this2\<lparr>tabChildNodes :=
                  filter (\<lambda>n. \<not> (nid n \<noteq> button \<and> nid n \<noteq> input)) (tabChildNodes this2),
                inputElement := Some input\<rparr>,
          button, kidsOf button (tabChildNodes this1) @ moved))"

text \<open>
  The section ICON on the child list of the button. \<open>ons-icon.js\<close> is not among the
  sources: \<open>iconProperty\<close> is the \<open>icon\<close> property of an \<open>ons-icon\<close> element as the string
  that \<open>setAttribute\<close> stores, and without an \<open>ons-icon\<close> child the value is \<open>undefined\<close>.
\<close>

definition queryIcon :: "node \<Rightarrow> node option" where
  "queryIcon iconWrapper = find (hasTag ''ONS-ICON'') (kids iconWrapper)"

definition compileIcon :: "(node \<Rightarrow> string) \<Rightarrow> tab \<times> node list \<Rightarrow> tab \<times> node list" where
  "compileIcon iconProperty = (\<lambda>(this, bk).
     (let wrappers = filter (hasClass ''tabbar__icon'') bk;
          hasIcon = truthy (Tab_getAttribute ''icon'' this)
                  \<or> truthy (Tab_getAttribute ''active-icon'' this);
          (this1, bk1, iconWrapper) =
            (case wrappers of
               [] \<Rightarrow>
                 if hasIcon
                 then (let a = tabAllocated this;
                           icon = Element (Suc a) ''ONS-ICON'' [] [] [];
                           iconWrapper = Element a ''DIV'' [''tabbar__icon''] [] [icon]
                       in (this\<lparr>tabAllocated := Suc (Suc a)\<rparr>, bk @ [iconWrapper], Some iconWrapper))
                 else (this, bk, None)
             | iconWrapper # furtherIconWrappers \<Rightarrow>
                 if \<not> hasIcon
                 then if iconPropertiesTouched this
                      then (this, removeNode (nid iconWrapper) bk, None)
                      else (Tab_setAttribute ''icon''
                              (case queryIcon iconWrapper of
                                 None \<Rightarrow> ''undefined''
                               | Some icon \<Rightarrow> iconProperty icon) this,
                            bk, Some iconWrapper)
                 else (this, bk, Some iconWrapper))
      in (this1\<lparr>iconElement := Option.bind iconWrapper (\<lambda>w. map_option nid (queryIcon w))\<rparr>,
          removeNodes (tl wrappers) bk1)))"

text \<open>
  The sections LABEL and BADGE, which differ in the attribute, the class of the selector,
  the further classes of a new \<open>div\<close> and the fields. The result is the tab, the child
  list of the button and the label or badge.
\<close>

definition compileText ::
  "string \<Rightarrow> string \<Rightarrow> string list \<Rightarrow> bool \<Rightarrow> tab \<times> node list
     \<Rightarrow> tab \<times> node list \<times> nat option" where
  "compileText name cls extra touched = (\<lambda>(this, bk).
     (let found = filter (hasClass cls) bk;
          v = truthy (Tab_getAttribute name this);
          (this1, bk1, w) =
            (case found of
               [] \<Rightarrow>
                 if v
                 then (let a = tabAllocated this
                       in (this\<lparr>tabAllocated := Suc a\<rparr>, bk @ [Element a ''DIV'' (cls # extra) [] []], Some a))
                 else (this, bk, None)
             | x # further \<Rightarrow>
                 if \<not> v
                 then if touched
                      then (this, removeNode (nid x) bk, None)
                      else (Tab_setAttribute name (textContent x) this, bk, Some (nid x))
                 else (this, bk, Some (nid x)))
      in (this1, removeNodes (tl found) bk1, w)))"

definition compileLabel :: "tab \<times> node list \<Rightarrow> tab \<times> node list" where
  "compileLabel = (\<lambda>(this, bk).
     (let (this1, bk1, label) = compileText ''label'' ''tabbar__label'' [] (labelPropertyTouched this) (this, bk)
      in (this1\<lparr>labelElement := label\<rparr>, bk1)))"

definition compileBadge :: "tab \<times> node list \<Rightarrow> tab \<times> node list" where
  "compileBadge = (\<lambda>(this, bk).
     (let (this1, bk1, badge) =
            compileText ''badge'' ''tabbar__badge'' [''notification''] (badgePropertyTouched this) (this, bk)
      in (this1\<lparr>badgeElement := badge\<rparr>, bk1)))"

text \<open>The section RIPPLE: a new \<open>ons-ripple\<close> is put in front of the other children.\<close>

definition compileRipple :: "tab \<times> node list \<Rightarrow> tab \<times> node list" where
  "compileRipple = (\<lambda>(this, bk).
     (let ripples = filter (hasTag ''ONS-RIPPLE'') bk;
          (this1, bk1) =
            (case ripples of
               [] \<Rightarrow>
                 if Tab_ripple this
                 then (let a = tabAllocated this
                       in (this\<lparr>tabAllocated := Suc a\<rparr>, Element a ''ONS-RIPPLE'' [] [] [] # bk))
                 else (this, bk)
             | r # furtherRipples \<Rightarrow>
                 if \<not> Tab_ripple this
                 then if ripplePropertyTouched this
                      then (this, removeNode (nid r) bk)
                      else (Tab_setRipple this, bk)
                 else (this, bk))
      in (this1, removeNodes (tl ripples) bk1)))"

text \<open>\<open>_compile\<close>.\<close>

definition Tab_compile :: "(node \<Rightarrow> string) \<Rightarrow> tab \<Rightarrow> tab" where
  "Tab_compile iconProperty this =
     (let (this1, button, bk) = compileChildren this;
          (this2, bk1) = compileRipple (compileBadge (compileLabel (compileIcon iconProperty (this1, bk))))
      in this2\<lparr>tabChildNodes := onNode button (setKids bk1) (tabChildNodes this2)\<rparr>)"

text \<open>
  The shape that the sections ICON, LABEL, BADGE and RIPPLE share, on the child list of
  the button: \<open>sel\<close> is the selector, \<open>has\<close> the condition on the attributes, \<open>touched\<close>
  the field, \<open>new\<close> the node that is created from the next unused identity on (it
  takes \<open>k\<close> identities) and put in front or at the end, \<open>write\<close> the assignment to the
  property and \<open>setRef\<close> the assignment to the field of the section.
\<close>

definition resolveWrapper ::
  "(node \<Rightarrow> bool) \<Rightarrow> bool \<Rightarrow> bool \<Rightarrow> (nat \<Rightarrow> node) \<Rightarrow> nat \<Rightarrow> bool \<Rightarrow> (node \<Rightarrow> tab \<Rightarrow> tab)
     \<Rightarrow> (node option \<Rightarrow> tab \<Rightarrow> tab) \<Rightarrow> tab \<times> node list \<Rightarrow> tab \<times> node list" where
  "resolveWrapper sel has touched new k front write setRef = (\<lambda>(this, bk).
     (case filter sel bk of
        [] \<Rightarrow>
          if has
          then (setRef (Some (new (tabAllocated this))) (this\<lparr>tabAllocated := tabAllocated this + k\<rparr>),
                if front then new (tabAllocated this) # bk else bk @ [new (tabAllocated this)])
          else (setRef None this, bk)
      | w # ws \<Rightarrow>
          if \<not> has
          then if touched
               then (setRef None this, removeNodes ws (removeNode (nid w) bk))
               else (setRef (Some w) (write w this), removeNodes ws bk)
          else (setRef (Some w) this, removeNodes ws bk)))"

text \<open>The four sections of \<open>_compile\<close> in that shape.\<close>

definition hasIcon :: "tab \<Rightarrow> bool" where
  "hasIcon this \<longleftrightarrow> truthy (Tab_getAttribute ''icon'' this) \<or> truthy (Tab_getAttribute ''active-icon'' this)"

definition iconValue :: "(node \<Rightarrow> string) \<Rightarrow> node \<Rightarrow> string" where
  "iconValue iconProperty w =
     (case queryIcon w of None \<Rightarrow> ''undefined'' | Some icon \<Rightarrow> iconProperty icon)"

definition newIconWrapper :: "nat \<Rightarrow> node" where
  "newIconWrapper a = Element a ''DIV'' [''tabbar__icon''] [] [Element (Suc a) ''ONS-ICON'' [] [] []]"

definition setIconElement :: "node option \<Rightarrow> tab \<Rightarrow> tab" where
  "setIconElement w this = this\<lparr>iconElement := Option.bind w (\<lambda>w. map_option nid (queryIcon w))\<rparr>"


text \<open>
  The sections ICON to RIPPLE together, and what the theorems about a tab take for
  granted: node identities are distinct and below the next unused one, and the
  automatically added button, which \<open>_compile\<close> creates as a \<open>button\<close> child of the tab,
  is one.
\<close>

definition compileSections :: "(node \<Rightarrow> string) \<Rightarrow> tab \<times> node list \<Rightarrow> tab \<times> node list" where
  "compileSections iconProperty s =
     compileRipple (compileBadge (compileLabel (compileIcon iconProperty s)))"

definition buttonAttached :: "tab \<Rightarrow> bool" where
  "buttonAttached this \<longleftrightarrow>
     (case automaticallyAddedButton this of
        None \<Rightarrow> True
      | Some b \<Rightarrow> \<exists>n \<in> set (tabChildNodes this). nid n = b \<and> nodeName n = ''BUTTON'')"

definition Tab_wellFormed :: "tab \<Rightarrow> bool" where
  "Tab_wellFormed this \<longleftrightarrow>
     wellFormedNodes (tabAllocated this) (tabChildNodes this) \<and> buttonAttached this"

text \<open>
  What a section leaves alone: the children of the tab, the fields of the first half
  of \<open>_compile\<close>, the \<open>Touched\<close> fields and every attribute but its own.
\<close>

definition untouched :: "string \<Rightarrow> tab \<Rightarrow> tab \<Rightarrow> bool" where
  "untouched own this this' \<longleftrightarrow>
     tabChildNodes this' = tabChildNodes this
   \<and> automaticallyAddedButton this' = automaticallyAddedButton this
   \<and> inputElement this' = inputElement this
   \<and> iconPropertiesTouched this' = iconPropertiesTouched this
   \<and> labelPropertyTouched this' = labelPropertyTouched this
   \<and> badgePropertyTouched this' = badgePropertyTouched this
   \<and> ripplePropertyTouched this' = ripplePropertyTouched this
   \<and> tabAllocated this \<le> tabAllocated this'
   \<and> (\<forall>name. name \<noteq> own \<longrightarrow> Tab_getAttribute name this' = Tab_getAttribute name this)"

text \<open>
  A tab is unambiguous when no child is a button and an input at once and no node
  that can become a child of the button matches more than one of the selectors of the
  sections ICON, LABEL, BADGE and RIPPLE.
\<close>

definition exclusive :: "node \<Rightarrow> bool" where
  "exclusive n \<longleftrightarrow>
     \<not> (hasClass ''tabbar__icon'' n \<and> hasClass ''tabbar__label'' n)
   \<and> \<not> (hasClass ''tabbar__icon'' n \<and> hasClass ''tabbar__badge'' n)
   \<and> \<not> (hasClass ''tabbar__icon'' n \<and> hasTag ''ONS-RIPPLE'' n)
   \<and> \<not> (hasClass ''tabbar__label'' n \<and> hasClass ''tabbar__badge'' n)
   \<and> \<not> (hasClass ''tabbar__label'' n \<and> hasTag ''ONS-RIPPLE'' n)
   \<and> \<not> (hasClass ''tabbar__badge'' n \<and> hasTag ''ONS-RIPPLE'' n)"

definition unambiguous :: "tab \<Rightarrow> bool" where
  "unambiguous this \<longleftrightarrow>
     (\<forall>n \<in> set (tabChildNodes this).
        \<not> (hasClass ''tabbar__button'' n \<and> hasTag ''INPUT'' n)
      \<and> exclusive n \<and> (\<forall>m \<in> set (kids n). exclusive m))"

text \<open>
  An attribute is settled at a value when writing the value again changes nothing, and
  a section is settled on a tab and the children of its button when it has nothing
  left to do there: there is no wrapper and no attribute, or one wrapper that the field
  of the section refers to, with the attribute or with the attribute settled at the
  value that the section takes from the wrapper.
\<close>

definition attrSettled :: "string \<Rightarrow> string \<Rightarrow> tab \<Rightarrow> bool" where
  "attrSettled name v this \<longleftrightarrow>
     name \<in> fst ` set (tabAttributes this)
   \<and> (\<forall>p \<in> set (tabAttributes this). fst p = name \<longrightarrow> snd p = v)"

definition settledAt ::
  "(node \<Rightarrow> bool) \<Rightarrow> bool \<Rightarrow> bool \<Rightarrow> nat option \<Rightarrow> (node \<Rightarrow> nat option) \<Rightarrow> (node \<Rightarrow> bool)
     \<Rightarrow> node list \<Rightarrow> bool" where
  "settledAt sel has touched ref refOf written bk \<longleftrightarrow>
     (case filter sel bk of
        [] \<Rightarrow> \<not> has \<and> ref = None
      | [w] \<Rightarrow> ref = refOf w \<and> (has \<or> (\<not> touched \<and> written w))
      | _ \<Rightarrow> False)"

definition iconSettled :: "(node \<Rightarrow> string) \<Rightarrow> tab \<times> node list \<Rightarrow> bool" where
  "iconSettled iconProperty = (\<lambda>(this, bk).
     settledAt (hasClass ''tabbar__icon'') (hasIcon this) (iconPropertiesTouched this)
       (iconElement this) (\<lambda>w. map_option nid (queryIcon w))
       (\<lambda>w. attrSettled ''icon'' (iconValue iconProperty w) this) bk)"

definition labelSettled :: "tab \<times> node list \<Rightarrow> bool" where
  "labelSettled = (\<lambda>(this, bk).
     settledAt (hasClass ''tabbar__label'') (truthy (Tab_getAttribute ''label'' this))
       (labelPropertyTouched this) (labelElement this) (\<lambda>w. Some (nid w))
       (\<lambda>w. attrSettled ''label'' (textContent w) this) bk)"

definition badgeSettled :: "tab \<times> node list \<Rightarrow> bool" where
  "badgeSettled = (\<lambda>(this, bk).
     settledAt (hasClass ''tabbar__badge'') (truthy (Tab_getAttribute ''badge'' this))
       (badgePropertyTouched this) (badgeElement this) (\<lambda>w. Some (nid w))
       (\<lambda>w. attrSettled ''badge'' (textContent w) this) bk)"

definition rippleSettled :: "tab \<times> node list \<Rightarrow> bool" where
  "rippleSettled = (\<lambda>(this, bk).
     settledAt (hasTag ''ONS-RIPPLE'') (Tab_ripple this) (ripplePropertyTouched this)
       None (\<lambda>w. None) (\<lambda>w. attrSettled ''ripple'' [] this) bk)"

text \<open>What a section leaves alone besides: the fields and the settled attributes of the others.\<close>

definition framed :: "string \<Rightarrow> tab \<Rightarrow> tab \<Rightarrow> bool" where
  "framed own this this' \<longleftrightarrow>
     untouched own this this'
   \<and> (own \<noteq> ''icon'' \<longrightarrow> iconElement this' = iconElement this)
   \<and> (own \<noteq> ''label'' \<longrightarrow> labelElement this' = labelElement this)
   \<and> (own \<noteq> ''badge'' \<longrightarrow> badgeElement this' = badgeElement this)
   \<and> (\<forall>name v. name \<noteq> own \<longrightarrow> attrSettled name v this \<longrightarrow> attrSettled name v this')"

section \<open>Properties of the lifecycle controller\<close>

lemma firstConnection_all_first:
  "filter isFirstConnectionWork (firstConnection c) = firstConnection c"
  by (cases c) simp_all

lemma everyConnection_none_first:
  "filter isFirstConnectionWork (everyConnection c) = []"
  by (cases c) simp_all

lemma disconnection_none_first:
  "filter isFirstConnectionWork (disconnection c) = []"
  by (cases c) simp_all

lemma fire_first_work:
  "filter isFirstConnectionWork (calls (fire c h this)) =
     filter isFirstConnectionWork (calls this) @
       (if h = Connect \<and> \<not> connectedOnce this then firstConnection c else [])"
  by (cases h)
     (simp_all add: connectedCallback_def disconnectedCallback_def Let_def
        firstConnection_all_first everyConnection_none_first disconnection_none_first)

lemma fire_connectedOnce:
  "connectedOnce (fire c h this) = (connectedOnce this \<or> h = Connect)"
  by (cases h) (simp_all add: connectedCallback_def disconnectedCallback_def Let_def)

lemma lifetime_first_work:
  "filter isFirstConnectionWork (calls (lifetime c hs this)) =
     filter isFirstConnectionWork (calls this) @
       (if Connect \<in> set hs \<and> \<not> connectedOnce this then firstConnection c else [])"
proof (induction hs arbitrary: this)
  case Nil
  show ?case by simp
next
  case (Cons h hs)
  show ?case
    by (cases h) (simp_all add: Cons.IH fire_first_work fire_connectedOnce
          del: fire.simps)
qed

text \<open>
  C10. Over the whole lifetime of an instance of any of the five component classes,
  however often and in whatever order the connection and disconnection hooks fire, the
  first-connection work (default class, structural compilation where the class has one,
  auto-styling, property upgrade) appears in the call record exactly as one copy of the
  guarded block when the instance was ever connected, and not at all otherwise.
\<close>

theorem first_connection_work_once:
  "filter isFirstConnectionWork (calls (lifetime c hs constructor)) =
     (if Connect \<in> set hs then firstConnection c else [])"
  by (simp add: lifetime_first_work constructor_def)

section \<open>Properties of the readiness coordinator\<close>

lemma runs_consumeQueue:
  "runs el (consumeQueue e w) = (if el = e then runs el w @ pending el w else runs el w)"
  by (simp add: runs_def consumeQueue_def pending_def Let_def comp_def split: option.splits)

lemma pending_consumeQueue:
  "pending el (consumeQueue e w) = (if el = e then [] else pending el w)"
  by (simp add: consumeQueue_def pending_def Let_def)

lemma other_consumeQueue:
  "isReady el (consumeQueue e w) = isReady el w"
  "immediates (consumeQueue e w) = immediates w"
  "listeners (consumeQueue e w) = listeners w"
  "readyState (consumeQueue e w) = readyState w"
  by (simp_all add: consumeQueue_def isReady_def Let_def)

lemma runs_setContentReady:
  "runs el (setContentReady e w) = (if el = e then runs el w @ pending el w else runs el w)"
  by (simp add: setContentReady_def runs_consumeQueue) (simp add: runs_def pending_def)

lemma pending_setContentReady:
  "pending el (setContentReady e w) = (if el = e then [] else pending el w)"
  by (simp add: setContentReady_def pending_consumeQueue) (simp add: pending_def)

lemma other_setContentReady:
  "isReady el (setContentReady e w) = (el = e \<or> isReady el w)"
  "immediates (setContentReady e w) = immediates w"
  "listeners (setContentReady e w) = listeners w"
  by (auto simp add: setContentReady_def other_consumeQueue) (auto simp: isReady_def split: if_splits)


lemma contentReady_ready:
  "isReady e w \<Longrightarrow>
     runs el (contentReady e fn w) = (if el = e then runs el w @ pending el w @ [fn] else runs el w)
   \<and> pending el (contentReady e fn w) = (if el = e then [] else pending el w)
   \<and> isReady el (contentReady e fn w) = isReady el w
   \<and> immediates (contentReady e fn w) = immediates w
   \<and> listeners (contentReady e fn w) = listeners w"
  by (cases "queueMap w e")
     (simp_all add: contentReady_def Let_def runs_consumeQueue pending_consumeQueue
        other_consumeQueue, simp_all add: isReady_def runs_def pending_def)

lemma contentReady_not_ready:
  "\<not> isReady e w \<Longrightarrow>
     runs el (contentReady e fn w) = runs el w
   \<and> pending el (contentReady e fn w) = (if el = e then pending el w @ [fn] else pending el w)
   \<and> isReady el (contentReady e fn w) = isReady el w
   \<and> e \<in> set (immediates (contentReady e fn w)) \<union> set (listeners (contentReady e fn w))
   \<and> set (immediates w) \<subseteq> set (immediates (contentReady e fn w))
   \<and> set (listeners w) \<subseteq> set (listeners (contentReady e fn w))"
  by (cases "queueMap w e")
     (auto simp add: contentReady_def Let_def isReady_def runs_def pending_def)

lemma coordinated_contentReady:
  assumes "coordinated r w"
  shows "coordinated (r(e := r e @ [fn])) (contentReady e fn w)"
proof (cases "isReady e w")
  case True
  show ?thesis
    unfolding coordinated_def
  proof (intro allI)
    fix el
    from assms have h: "runs el w @ pending el w = r el"
      "isReady el w \<longrightarrow> pending el w = []"
      "\<not> isReady el w \<longrightarrow> runs el w = []"
      "pending el w \<noteq> [] \<longrightarrow> el \<in> set (immediates w) \<union> set (listeners w)"
      by (simp_all add: coordinated_def)
    show "runs el (contentReady e fn w) @ pending el (contentReady e fn w) = (r(e := r e @ [fn])) el
         \<and> (isReady el (contentReady e fn w) \<longrightarrow> pending el (contentReady e fn w) = [])
         \<and> (\<not> isReady el (contentReady e fn w) \<longrightarrow> runs el (contentReady e fn w) = [])
         \<and> (pending el (contentReady e fn w) \<noteq> [] \<longrightarrow>
              el \<in> set (immediates (contentReady e fn w)) \<union> set (listeners (contentReady e fn w)))"
      using h True by (auto simp add: contentReady_ready [OF True])
  qed
next
  case False
  show ?thesis
    unfolding coordinated_def
  proof (intro allI)
    fix el
    from assms have h: "runs el w @ pending el w = r el"
      "isReady el w \<longrightarrow> pending el w = []"
      "\<not> isReady el w \<longrightarrow> runs el w = []"
      "pending el w \<noteq> [] \<longrightarrow> el \<in> set (immediates w) \<union> set (listeners w)"
      by (simp_all add: coordinated_def)
    note c = contentReady_not_ready [OF False, of el fn]
    show "runs el (contentReady e fn w) @ pending el (contentReady e fn w) = (r(e := r e @ [fn])) el
         \<and> (isReady el (contentReady e fn w) \<longrightarrow> pending el (contentReady e fn w) = [])
         \<and> (\<not> isReady el (contentReady e fn w) \<longrightarrow> runs el (contentReady e fn w) = [])
         \<and> (pending el (contentReady e fn w) \<noteq> [] \<longrightarrow>
              el \<in> set (immediates (contentReady e fn w)) \<union> set (listeners (contentReady e fn w)))"
      using h False c by (cases "el = e") auto
  qed
qed

lemma coordinated_setContentReady:
  assumes "coordinated r w"
  shows "coordinated r (setContentReady e w)"
  using assms unfolding coordinated_def
  by (auto simp add: runs_setContentReady pending_setContentReady other_setContentReady)

text \<open>Dropping a scheduled wake-up is harmless once its element is ready.\<close>

lemma pending_fold:
  "pending el (fold setContentReady es w) = (if el \<in> set es then [] else pending el w)"
  by (induction es arbitrary: w) (simp_all add: pending_setContentReady)

lemma isReady_fold:
  "isReady el (fold setContentReady es w) = (el \<in> set es \<or> isReady el w)"
  by (induction es arbitrary: w) (auto simp add: other_setContentReady)

lemma scheduled_fold:
  "immediates (fold setContentReady es w) = immediates w"
  "listeners (fold setContentReady es w) = listeners w"
  by (induction es arbitrary: w) (simp_all add: other_setContentReady)

lemma total_fold:
  "runs el (fold setContentReady es w) @ pending el (fold setContentReady es w)
     = runs el w @ pending el w"
  by (induction es arbitrary: w)
     (simp_all add: runs_setContentReady pending_setContentReady)

lemma runs_fold_other:
  "el \<notin> set es \<Longrightarrow> runs el (fold setContentReady es w) = runs el w"
  by (induction es arbitrary: w) (simp_all add: runs_setContentReady)

lemma coordinated_step:
  assumes "coordinated r w"
  shows "coordinated (\<lambda>el. r el @ registered el [ev]) (step ev w)"
proof (cases ev)
  case (ContentReady e fn)
  have "(\<lambda>el. r el @ registered el [ev]) = r(e := r e @ [fn])"
    using ContentReady by auto
  then show ?thesis
    using coordinated_contentReady [OF assms, of e fn] ContentReady by simp
next
  case RunImmediate
  show ?thesis
  proof (cases "immediates w")
    case Nil
    then show ?thesis using assms RunImmediate by simp
  next
    case (Cons e rest)
    show ?thesis
      unfolding coordinated_def
    proof (intro allI)
      fix el
      from assms have h: "runs el w @ pending el w = r el"
        "isReady el w \<longrightarrow> pending el w = []"
        "\<not> isReady el w \<longrightarrow> runs el w = []"
        "pending el w \<noteq> [] \<longrightarrow> el \<in> set (immediates w) \<union> set (listeners w)"
        by (simp_all add: coordinated_def)
      let ?w' = "step ev w"
      have w': "?w' = setContentReady e (w\<lparr>immediates := rest\<rparr>)"
        using RunImmediate Cons by simp
      have obs: "runs x (w\<lparr>immediates := rest\<rparr>) = runs x w"
        "pending x (w\<lparr>immediates := rest\<rparr>) = pending x w"
        "isReady x (w\<lparr>immediates := rest\<rparr>) = isReady x w" for x
        by (simp_all add: runs_def pending_def isReady_def)
      show "runs el ?w' @ pending el ?w' = r el @ registered el [ev]
           \<and> (isReady el ?w' \<longrightarrow> pending el ?w' = [])
           \<and> (\<not> isReady el ?w' \<longrightarrow> runs el ?w' = [])
           \<and> (pending el ?w' \<noteq> [] \<longrightarrow> el \<in> set (immediates ?w') \<union> set (listeners ?w'))"
        using h Cons RunImmediate
        by (auto simp add: w' runs_setContentReady pending_setContentReady
              other_setContentReady obs)
    qed
  qed
next
  case (ReadyStateChange rs)
  show ?thesis
    unfolding coordinated_def
  proof (intro allI)
    fix el
    from assms have h: "runs el w @ pending el w = r el"
      "isReady el w \<longrightarrow> pending el w = []"
      "\<not> isReady el w \<longrightarrow> runs el w = []"
      "pending el w \<noteq> [] \<longrightarrow> el \<in> set (immediates w) \<union> set (listeners w)"
      by (simp_all add: coordinated_def)
    let ?w0 = "w\<lparr>readyState := rs, listeners := []\<rparr>"
    let ?w' = "step ev w"
    have w': "?w' = fold setContentReady (listeners w) ?w0"
      using ReadyStateChange by simp
    have obs: "runs el ?w0 = runs el w" "pending el ?w0 = pending el w"
      "isReady el ?w0 = isReady el w"
      by (simp_all add: runs_def pending_def isReady_def)
    note f = pending_fold [of el "listeners w" ?w0] isReady_fold [of el "listeners w" ?w0]
      scheduled_fold [of "listeners w" ?w0] total_fold [of el "listeners w" ?w0]
      runs_fold_other [of el "listeners w" ?w0]
    show "runs el ?w' @ pending el ?w' = r el @ registered el [ev]
         \<and> (isReady el ?w' \<longrightarrow> pending el ?w' = [])
         \<and> (\<not> isReady el ?w' \<longrightarrow> runs el ?w' = [])
         \<and> (pending el ?w' \<noteq> [] \<longrightarrow> el \<in> set (immediates ?w') \<union> set (listeners ?w'))"
      using h f ReadyStateChange unfolding w' obs
      by (cases "el \<in> set (listeners w)") auto
  qed
qed

lemma registered_append:
  "registered el (evs @ evs') = registered el evs @ registered el evs'"
  by (induction el evs rule: registered.induct) simp_all

lemma coordinated_run:
  "coordinated r w \<Longrightarrow> coordinated (\<lambda>el. r el @ registered el evs) (run evs w)"
proof (induction evs arbitrary: r w)
  case Nil
  then show ?case by simp
next
  case (Cons ev evs)
  have "coordinated (\<lambda>el. (r el @ registered el [ev]) @ registered el evs) (run evs (step ev w))"
    by (rule Cons.IH) (rule coordinated_step [OF Cons.prems])
  moreover have "registered el (ev # evs) = registered el [ev] @ registered el evs" for el
    using registered_append [of el "[ev]" evs] by simp
  ultimately show ?case by simp
qed

lemma coordinated_initial: "coordinated (\<lambda>el. []) (initial rs)"
  by (simp add: coordinated_def initial_def runs_def pending_def isReady_def)

text \<open>
  C4. After any sequence of registrations, scheduler turns and \<open>readystatechange\<close>
  events, and for every element: the callbacks that ran for the element followed by those
  still queued are exactly the registered callbacks, in registration order; once the
  element is ready every registered callback has run, exactly once per registration and
  in registration order (so a callback registered after the transition has run by the
  time \<open>contentReady\<close> returns); before the transition none has run; and while
  callbacks are queued a wake-up for the element is still scheduled.
\<close>

theorem contentReady_exactly_once_in_order:
  "runs el (run evs (initial rs)) @ pending el (run evs (initial rs)) = registered el evs
   \<and> (isReady el (run evs (initial rs)) \<longrightarrow> runs el (run evs (initial rs)) = registered el evs)
   \<and> (\<not> isReady el (run evs (initial rs)) \<longrightarrow> pending el (run evs (initial rs)) = registered el evs)
   \<and> (pending el (run evs (initial rs)) \<noteq> [] \<longrightarrow>
        el \<in> set (immediates (run evs (initial rs))) \<union> set (listeners (run evs (initial rs))))"
  using coordinated_run [OF coordinated_initial, of evs rs]
  unfolding coordinated_def by (metis append_Nil append_Nil2)

theorem contentReady_exactly_once_in_order_witness:
  "isReady 7 (run [ContentReady 7 1, ContentReady 7 2, ContentReady 7 3, RunImmediate,
                   ContentReady 7 4, RunImmediate] (initial Complete))
   \<and> runs 7 (run [ContentReady 7 1, ContentReady 7 2, ContentReady 7 3, RunImmediate,
                   ContentReady 7 4, RunImmediate] (initial Complete)) = [1, 2, 3, 4]"
proof -
  let ?evs = "[ContentReady 7 1, ContentReady 7 2, ContentReady 7 3, RunImmediate,
               ContentReady 7 4, RunImmediate]"
  have rd: "isReady 7 (run ?evs (initial Complete))"
    by code_simp
  have "runs 7 (run ?evs (initial Complete)) = registered 7 ?evs"
    using contentReady_exactly_once_in_order [of 7 ?evs Complete] rd by blast
  then show ?thesis using rd by simp
qed

section \<open>Properties of the modifier rewriting\<close>

lemma set_fold_classListRemove:
  "set (fold classListRemove cs cl) = set cl - set cs"
  by (induction cs arbitrary: cl) (auto simp add: classListRemove_def)

lemma set_fold_classListAdd:
  "set (fold classListAdd cs cl) = set cl \<union> set cs"
  by (induction cs arbitrary: cl) (auto simp add: classListAdd_def)

text \<open>
  C5. When the modifier attribute changes, the class list afterwards holds exactly the
  classes it held before, minus the classes derived from the tokens that occur only in
  the old value, plus the classes derived from the tokens that occur only in the new
  value. Classes derived from tokens of both values and classes foreign to the scheme are
  therefore kept.
\<close>

theorem onModifierChanged_diff:
  "set (onModifierChanged oldValue newValue templates cl) =
     (set cl
        - set (derivedClasses templates
                 (filter (\<lambda>t. t \<notin> set (tokenize newValue)) (tokenize oldValue))))
     \<union> set (derivedClasses templates
                 (filter (\<lambda>t. t \<notin> set (tokenize oldValue)) (tokenize newValue)))"
  by (simp add: onModifierChanged_def Let_def set_fold_classListRemove set_fold_classListAdd)

text \<open>The example of the specification: from \<open>a b\<close> to \<open>b c\<close>.\<close>

lemma onModifierChanged_example:
  "onModifierChanged ''a b'' ''b c'' [''list-item--*'']
     [''list-item'', ''list-item--a'', ''list-item--b'', ''mine'']
   = [''list-item'', ''list-item--b'', ''mine'', ''list-item--c'']"
  by code_simp

section \<open>Properties of the expansion of a list item\<close>

lemma animateExpansion_cases:
  "animateExpansion this = this
   \<or> (\<not> expanding this
      \<and> animateExpansion this =
          this\<lparr>expanding := True, dispatched := dispatched this @ [''expansion''],
               animations := animations this @ [expanded this]\<rparr>)"
  by (simp add: animateExpansion_def Let_def)

text \<open>
  The re-entrancy guard: whatever happens, at most one animation is in flight, and
  while one is in flight \<open>_expanding\<close> is set.
\<close>

lemma expansionStep_guard:
  assumes "animations this = [] \<or> (length (animations this) = 1 \<and> expanding this)"
  shows "animations (expansionStep ev this) = []
         \<or> (length (animations (expansionStep ev this)) = 1 \<and> expanding (expansionStep ev this))"
proof (cases ev)
  case CallAnimateExpansion
  then show ?thesis
    using assms animateExpansion_cases [of this] by auto
next
  case AnimationEnds
  then show ?thesis
    using assms by (cases "animations this") (auto simp add: expansionDone_def Let_def)
next
  case (Mutate as cl)
  then show ?thesis using assms by simp
qed

lemma expansionRun_guard:
  "animations this = [] \<or> (length (animations this) = 1 \<and> expanding this) \<Longrightarrow>
   length (animations (expansionRun evs this)) \<le> 1"
proof (induction evs arbitrary: this)
  case Nil
  then show ?case by auto
next
  case (Cons ev evs)
  show ?case
    using Cons.IH [OF expansionStep_guard [OF Cons.prems]] by simp
qed

lemma at_most_one_animation_in_flight:
  "length (animations (expansionRun evs (ListItem_constructor as cl ks a))) \<le> 1"
  by (rule expansionRun_guard) (simp add: ListItem_constructor_def Let_def)

text \<open>
  With the \<open>expanded\<close> attribute and the class \<open>list-item--expanded\<close> both present,
  \<open>_animateExpansion\<close> does nothing.
\<close>

lemma animateExpansion_skips_expanded_class:
  "expanded this \<Longrightarrow> ''list-item--expanded'' \<in> set (classList this) \<Longrightarrow>
   animateExpansion this = this"
  by (simp add: animateExpansion_def)

text \<open>
  C8. The list item of the test \<open>does not call animator._animateExpansion when expanded
  is set at startup\<close>, upgraded from \<open><ons-list-item expandable expanded>\<close>: when the host
  delivers \<open>attributeChangedCallback('expanded', null, '')\<close> after the constructor, the
  element has both attributes and no class \<open>list-item--expanded\<close> (nothing has added it),
  so the guard \<open>expandedAtStartup\<close> is false: the \<open>expansion\<close> event is dispatched and
  the animator is invoked, with \<open>expand = true\<close>.
\<close>

theorem animateExpansion_runs_at_startup:
  "animations (ListItem_attributeChangedCallback util ''expanded'' None (Some [])
      (ListItem_constructor [(''expandable'', []), (''expanded'', [])] []
         [Text 0 ''content'', Element 1 ''DIV'' [''expandable-content''] [] [Text 2 ''expanded'']] 3))
     = [True]
   \<and> dispatched (ListItem_attributeChangedCallback util ''expanded'' None (Some [])
      (ListItem_constructor [(''expandable'', []), (''expanded'', [])] []
         [Text 0 ''content'', Element 1 ''DIV'' [''expandable-content''] [] [Text 2 ''expanded'']] 3))
     = [''expansion'']"
  by (simp add: ListItem_attributeChangedCallback_def ListItem_constructor_def Let_def
        animateExpansion_def expandable_def expanded_def hasAttribute_def)

section \<open>Properties of the tab bar\<close>

lemma map_of_rewritten:
  "name \<in> set (map fst xs) \<Longrightarrow>
   map_of (map (\<lambda>p. if fst p = name then (name, v) else p) xs) name = Some v"
  by (induction xs) auto

lemma map_of_appended:
  "name \<notin> set (map fst xs) \<Longrightarrow> map_of (xs @ [(name, v)]) name = Some v"
  by (induction xs) auto

text \<open>
  C9, as amended. The class \<open>TabbarElement\<close> has no method \<open>setActiveTab\<close>: unless
  \<open>BaseElement\<close> provides one, calling \<open>setActiveTab\<close> on an \<open>ons-tabbar\<close> throws a
  \<open>TypeError\<close> synchronously, whatever the index, and returns no promise. What the
  class has is the accessor \<open>activeIndex\<close>: its setter stores any value in the attribute
  \<open>active-index\<close>, and its getter returns the stored value.
\<close>

theorem setActiveTab_not_a_member:
  "(map_of inherited ''setActiveTab'' \<noteq> Some Method \<longrightarrow>
      callMember inherited body ''setActiveTab'' = Inl (TypeError ''setActiveTab''))
   \<and> Tabbar_activeIndex (Tabbar_setActiveIndex v this) = Some v"
proof
  show "map_of inherited ''setActiveTab'' \<noteq> Some Method \<longrightarrow>
      callMember inherited body ''setActiveTab'' = Inl (TypeError ''setActiveTab'')"
    by (simp add: callMember_def TabbarElement_members_def TabbarElement_fields_def
          split: option.split member.split)
  show "Tabbar_activeIndex (Tabbar_setActiveIndex v this) = Some v"
    by (simp add: Tabbar_activeIndex_def Tabbar_setActiveIndex_def
          Tabbar_attributeChangedCallback_def map_of_rewritten map_of_appended
          del: map_of_append)
qed

theorem setActiveTab_not_a_member_witness:
  "map_of [(''attachShadow'', Method)] ''setActiveTab'' \<noteq> Some Method
   \<and> callMember [(''attachShadow'', Method)] (Reject :: string \<Rightarrow> nat promise) ''setActiveTab''
       = Inl (TypeError ''setActiveTab'')
   \<and> Tabbar_activeIndex (Tabbar_setActiveIndex ''7'' \<lparr>tabbarAttributes = [(''position'', ''top'')]\<rparr>)
       = Some ''7''"
  using setActiveTab_not_a_member
    [of "[(''attachShadow'', Method)]" "Reject :: string \<Rightarrow> nat promise" "''7''"
        "\<lparr>tabbarAttributes = [(''position'', ''top'')]\<rparr>"]
  by simp

text \<open>
  The claim as stated fails: the call does throw synchronously, and its outcome is not a
  promise rejected with \<open>Specified index does not match any tab.\<close>
\<close>

theorem setActiveTab_throws_counterexample:
  "callMember [] (Reject :: string \<Rightarrow> nat promise) ''setActiveTab''
     \<noteq> Inr (Reject ''Specified index does not match any tab.'')
   \<and> callMember [] (Reject :: string \<Rightarrow> nat promise) ''setActiveTab''
       = Inl (TypeError ''setActiveTab'')"
  by (simp add: callMember_def TabbarElement_members_def TabbarElement_fields_def)

section \<open>Nodes and child lists\<close>

lemma addClass_same [simp]:
  "nid (addClass c n) = nid n" "nodeName (addClass c n) = nodeName n"
  "kids (addClass c n) = kids n" "attrs (addClass c n) = attrs n"
  by (cases n; simp)+

lemma setKids_same [simp]:
  "nid (setKids ks n) = nid n" "nodeName (setKids ks n) = nodeName n"
  "classes (setKids ks n) = classes n" "attrs (setKids ks n) = attrs n"
  by (cases n; simp)+

lemma setKids_kids [simp]: "setKids (kids n) n = n"
  by (cases n) simp_all

lemma kids_setKids: "nodeName n = ''DIV'' \<Longrightarrow> kids (setKids ks n) = ks"
  by (cases n) simp_all

lemma classes_addClass:
  "set (classes (addClass c n)) \<supseteq> set (classes n)"
  by (cases n) (auto simp add: classListAdd_def)

lemma hasClass_addClass_mono: "hasClass c' n \<Longrightarrow> hasClass c' (addClass c n)"
  using classes_addClass [of n c] by (auto simp add: hasClass_def)

lemma hasClass_addClass_div: "nodeName n = ''DIV'' \<Longrightarrow> hasClass c (addClass c n)"
  by (cases n) (auto simp add: hasClass_def classListAdd_def)

lemma hasClass_addClass_other: "c' \<noteq> c \<Longrightarrow> hasClass c' (addClass c n) = hasClass c' n"
  by (cases n) (auto simp add: hasClass_def classListAdd_def)

lemma matches_addClass_other:
  "cls \<noteq> c \<Longrightarrow> matches tag cls (addClass c n) = matches tag cls n"
  by (cases n) (auto simp add: matches_def classListAdd_def)

lemma addClass_noop: "hasClass c n \<Longrightarrow> addClass c n = n"
  by (cases n) (auto simp add: hasClass_def classListAdd_def)

lemma hasClass_setKids [simp]: "hasClass c (setKids ks n) = hasClass c n"
  by (simp add: hasClass_def)

lemma matches_setKids [simp]: "matches tag cls (setKids ks n) = matches tag cls n"
  by (simp add: matches_def)

lemma matches_div_hasClass: "matches ''DIV'' cls n \<Longrightarrow> hasClass cls n \<and> nodeName n = ''DIV''"
  by (simp add: matches_def hasClass_def)

lemma map_nid_onNode:
  "(\<And>n. nid (f n) = nid n) \<Longrightarrow> map nid (onNode i f ks) = map nid ks"
  by (induction ks) (simp_all add: onNode_def)

lemma onNode_noop:
  "(\<And>n. n \<in> set ks \<Longrightarrow> nid n = i \<Longrightarrow> f n = n) \<Longrightarrow> onNode i f ks = ks"
  by (induction ks) (simp_all add: onNode_def)

lemma onNode_absent:
  "i \<notin> nid ` set ks \<Longrightarrow> onNode i f ks = ks"
  by (rule onNode_noop) auto

lemma filter_onNode:
  "(\<And>n. P (f n) = P n) \<Longrightarrow> filter P (onNode i f ks) = onNode i f (filter P ks)"
  by (induction ks) (simp_all add: onNode_def)

lemma find_onNode:
  "(\<And>n. P (f n) = P n) \<Longrightarrow>
   find P (onNode i f ks) = map_option (\<lambda>n. if nid n = i then f n else n) (find P ks)"
  by (induction ks) (simp_all add: onNode_def)

lemma set_onNode:
  "set (onNode i f ks) = (\<lambda>n. if nid n = i then f n else n) ` set ks"
  by (simp add: onNode_def)

lemma onNode_Cons:
  "onNode i f (k # ks) = (if nid k = i then f k else k) # onNode i f ks"
  by (simp add: onNode_def)

lemma onNode_Nil [simp]: "onNode i f [] = []"
  by (simp add: onNode_def)

lemma length_onNode [simp]: "length (onNode i f ks) = length ks"
  by (simp add: onNode_def)

lemma siblings_onNode:
  "(\<And>n. nid (f n) = nid n) \<Longrightarrow> siblings a (onNode i f ks) = siblings a ks"
  by (simp add: siblings_def map_nid_onNode)

lemma siblings_filter: "siblings a ks \<Longrightarrow> siblings a (filter P ks)"
  by (auto simp add: siblings_def distinct_map_filter)

lemma siblings_mono: "siblings a ks \<Longrightarrow> a \<le> b \<Longrightarrow> siblings b ks"
  by (force simp add: siblings_def)

lemma siblings_Cons:
  "siblings a ks \<Longrightarrow> a \<le> nid k \<Longrightarrow> nid k < b \<Longrightarrow> siblings b (k # ks)"
  by (force simp add: siblings_def)

lemma siblings_same_id:
  "siblings a ks \<Longrightarrow> n \<in> set ks \<Longrightarrow> m \<in> set ks \<Longrightarrow> nid n = nid m \<Longrightarrow> n = m"
  by (auto simp add: siblings_def distinct_map inj_on_def)

section \<open>The wrappers of a content list\<close>

lemma removeNode_onNode:
  "(\<And>n. nid (f n) = nid n) \<Longrightarrow> removeNode j (onNode i f ks) = onNode i f (removeNode j ks)"
  by (induction ks) (simp_all add: onNode_def removeNode_def)

lemma adopt_onNode:
  assumes "\<And>n. nid (f n) = nid n"
  shows "adopt (onNode i f ms) (onNode i f ks) =
           map_option (\<lambda>(ks', w). (onNode i f ks', w)) (adopt ms ks)"
  by (induction ms ks rule: adopt.induct)
     (simp_all add: onNode_Cons assms removeNode_onNode)

lemma markWrapper_None [simp]: "markWrapper c None ks = ks"
  by (simp add: markWrapper_def)

lemma markWrapper_Cons_fresh:
  "(\<And>i. w = Some i \<Longrightarrow> i \<noteq> nid k) \<Longrightarrow> markWrapper c w (k # ks) = k # markWrapper c w ks"
  by (cases w) (simp_all add: markWrapper_def onNode_Cons)

lemma filter_markWrapper:
  "(\<And>n. P (addClass c n) = P n) \<Longrightarrow> filter P (markWrapper c w ks) = markWrapper c w (filter P ks)"
  by (cases w) (simp_all add: markWrapper_def filter_onNode)

lemma leftWrapper_mark:
  "c \<noteq> ''left'' \<Longrightarrow> leftWrapper (markWrapper c w ks) = leftWrapper ks"
  by (cases w; cases "find (matches ''DIV'' ''left'') ks")
     (simp_all add: markWrapper_def leftWrapper_def find_onNode matches_addClass_other)

lemma adopt_markWrapper:
  "adopt (markWrapper c w ms) (markWrapper c w ks) =
     map_option (\<lambda>(ks', x). (markWrapper c w ks', x)) (adopt ms ks)"
proof (cases w)
  case None
  then show ?thesis by (simp add: option.map_ident split_def)
next
  case (Some i)
  then show ?thesis
    using adopt_onNode [of "addClass c" i ms ks] by (simp add: markWrapper_def)
qed

lemma rightWrapper_mark:
  assumes "c \<noteq> ''right''" "\<And>i. w = Some i \<Longrightarrow> i < a"
  shows "rightWrapper e a (markWrapper c w tk) =
           (case rightWrapper e a tk of (a1, tk1, r) \<Rightarrow> (a1, markWrapper c w tk1, r))"
proof -
  have f: "filter (matches ''DIV'' ''right'') (markWrapper c w tk)
             = markWrapper c w (filter (matches ''DIV'' ''right'') tk)"
    by (rule filter_markWrapper) (simp add: matches_addClass_other assms(1) [symmetric])
  have fresh: "markWrapper c w (Element (Suc a) n cl at k # tk) = Element (Suc a) n cl at k # markWrapper c w tk"
    for n cl at k
    by (rule markWrapper_Cons_fresh) (use assms(2) in fastforce)
  show ?thesis
    unfolding rightWrapper_def f adopt_markWrapper
    by (cases "adopt (filter (matches ''DIV'' ''right'') tk) tk")
       (auto simp add: Let_def fresh)
qed

lemma centerWrapper_mark:
  assumes "c \<noteq> ''center''" "\<And>i. w = Some i \<Longrightarrow> i < a"
  shows "centerWrapper a (markWrapper c w tk) =
           (case centerWrapper a tk of (a1, tk1, x) \<Rightarrow> (a1, markWrapper c w tk1, x))"
proof -
  have f: "filter (matches ''DIV'' ''center'') (markWrapper c w tk)
             = markWrapper c w (filter (matches ''DIV'' ''center'') tk)"
    by (rule filter_markWrapper) (simp add: matches_addClass_other assms(1) [symmetric])
  have fresh: "markWrapper c w (Element a n cl at k # tk) = Element a n cl at k # markWrapper c w tk"
    for n cl at k
    by (rule markWrapper_Cons_fresh) (use assms(2) in fastforce)
  show ?thesis
    unfolding centerWrapper_def f adopt_markWrapper
    by (cases "adopt (filter (matches ''DIV'' ''center'') tk) tk")
       (auto simp add: Let_def fresh)
qed

lemma adopt_cases:
  assumes "adopt (filter P ks) ks = Some (ks', w)"
  obtains x where "filter P ks = [x]" "ks' = ks" "w = nid x"
  | x0 x1 xs where "filter P ks = x0 # x1 # xs" "ks' = removeNode (nid x0) ks" "w = nid x1"
  using assms by (cases "(filter P ks, ks)" rule: adopt.cases) auto

lemma adopt_None: "adopt ms ks = None \<longleftrightarrow> ms = []"
  by (cases "(ms, ks)" rule: adopt.cases) auto

lemma filter_two_distinct:
  assumes "filter P ks = x0 # x1 # xs" "distinct (map nid ks)"
  shows "nid x0 \<noteq> nid x1" "nid x0 \<notin> nid ` set xs"
proof -
  have "distinct (map nid (filter P ks))"
    using assms(2) by (rule distinct_map_filter)
  then show "nid x0 \<noteq> nid x1" "nid x0 \<notin> nid ` set xs"
    by (simp_all add: assms(1))
qed

lemma filter_in: "filter P ks = x # xs \<Longrightarrow> x \<in> set ks \<and> P x"
proof -
  assume "filter P ks = x # xs"
  then have "x \<in> set (filter P ks)" by simp
  then show ?thesis by simp
qed

lemma filter_in2: "filter P ks = x0 # x1 # xs \<Longrightarrow> x1 \<in> set ks \<and> P x1"
proof -
  assume "filter P ks = x0 # x1 # xs"
  then have "x1 \<in> set (filter P ks)" by simp
  then show ?thesis by simp
qed

lemma wrapperOrNew_cases [consumes 1, case_names New One Two]:
  assumes "wrapperOrNew cls a ks = (a', ks', w)"
  obtains (New) "filter (matches ''DIV'' cls) ks = []" "a' = Suc a"
      "ks' = Element a ''DIV'' [cls] [] [] # ks" "w = a"
  | (One) x where "filter (matches ''DIV'' cls) ks = [x]" "a' = a" "ks' = ks" "w = nid x"
  | (Two) x0 x1 xs where "filter (matches ''DIV'' cls) ks = x0 # x1 # xs" "a' = a"
      "ks' = removeNode (nid x0) ks" "w = nid x1"
proof (cases "adopt (filter (matches ''DIV'' cls) ks) ks")
  case None
  then have "filter (matches ''DIV'' cls) ks = []" by (simp add: adopt_None)
  moreover from None assms have "a' = Suc a" "ks' = Element a ''DIV'' [cls] [] [] # ks" "w = a"
    by (auto simp add: wrapperOrNew_def)
  ultimately show ?thesis by (rule New)
next
  case (Some p)
  obtain k w' where p: "p = (k, w')" by (cases p)
  with Some assms have r: "a' = a" "ks' = k" "w = w'"
    by (auto simp add: wrapperOrNew_def)
  from Some p have A: "adopt (filter (matches ''DIV'' cls) ks) ks = Some (k, w')" by simp
  from A show ?thesis
    by (cases rule: adopt_cases) (auto simp add: r intro: One Two)
qed

lemma centerWrapper_eq: "centerWrapper a tk = wrapperOrNew ''center'' a tk"
  by (simp add: centerWrapper_def wrapperOrNew_def)

lemma rightWrapper_cases [consumes 1, case_names New Absent One Two]:
  assumes "rightWrapper e a ks = (a', ks', r)"
  obtains (New) "filter (matches ''DIV'' ''right'') ks = []" "e" "a' = Suc (Suc a)"
      "ks' = Element (Suc a) ''DIV'' [''right''] []
               [Element a ''SPAN'' [''list-item__expand-chevron''] [] []] # ks"
      "r = Some (Suc a)"
  | (Absent) "filter (matches ''DIV'' ''right'') ks = []" "\<not> e" "a' = a" "ks' = ks" "r = None"
  | (One) x where "filter (matches ''DIV'' ''right'') ks = [x]" "a' = a" "ks' = ks"
      "r = Some (nid x)"
  | (Two) x0 x1 xs where "filter (matches ''DIV'' ''right'') ks = x0 # x1 # xs" "a' = a"
      "ks' = removeNode (nid x0) ks" "r = Some (nid x1)"
proof (cases "adopt (filter (matches ''DIV'' ''right'') ks) ks")
  case None
  then have f: "filter (matches ''DIV'' ''right'') ks = []" by (simp add: adopt_None)
  show ?thesis
  proof (cases e)
    case True
    with None assms have "a' = Suc (Suc a)"
      "ks' = Element (Suc a) ''DIV'' [''right''] []
               [Element a ''SPAN'' [''list-item__expand-chevron''] [] []] # ks"
      "r = Some (Suc a)"
      by (auto simp add: rightWrapper_def Let_def)
    with f True show ?thesis by (intro New)
  next
    case False
    with None assms have "a' = a" "ks' = ks" "r = None"
      by (auto simp add: rightWrapper_def)
    with f False show ?thesis by (intro Absent)
  qed
next
  case (Some p)
  obtain k w' where p: "p = (k, w')" by (cases p)
  with Some assms have r: "a' = a" "ks' = k" "r = Some w'"
    by (auto simp add: rightWrapper_def)
  from Some p have A: "adopt (filter (matches ''DIV'' ''right'') ks) ks = Some (k, w')" by simp
  from A show ?thesis
    by (cases rule: adopt_cases) (auto simp add: r intro: One Two)
qed

lemma removeNode_as_filter: "removeNode i ks = filter (\<lambda>n. nid n \<notin> set [i]) ks"
  by (simp add: removeNode_def)

lemma filter_all: "filter (\<lambda>n. nid n \<notin> set []) ks = ks"
  by simp

lemma wrapperOrNew_changed:
  assumes "wrapperOrNew cls a ks = (a', ks', w)" "siblings a ks"
  shows "changed cls a ks a' ks'"
  using assms(1)
proof (cases rule: wrapperOrNew_cases)
  case New
  show ?thesis unfolding changed_def
    by (intro conjI exI [of _ "[Element a ''DIV'' [cls] [] []]"] exI [of _ "[]"])
       (simp_all add: New)
next
  case (One x)
  show ?thesis unfolding changed_def
    by (intro conjI exI [of _ "[]"]) (simp_all add: One)
next
  case (Two x0 x1 xs)
  have x0: "x0 \<in> set ks" "matches ''DIV'' cls x0" using filter_in [OF Two(1)] by simp_all
  have same: "n \<in> set ks \<Longrightarrow> nid n = nid x0 \<Longrightarrow> n = x0" for n
    using siblings_same_id [OF assms(2) _ x0(1)] by simp
  show ?thesis unfolding changed_def
    by (intro conjI exI [of _ "[]"] exI [of _ "[nid x0]"])
       (use same x0 in \<open>auto simp add: Two removeNode_def\<close>)
qed

lemma rightWrapper_changed:
  assumes "rightWrapper e a ks = (a', ks', r)" "siblings a ks"
  shows "changed ''right'' a ks a' ks'"
  using assms(1)
proof (cases rule: rightWrapper_cases)
  case New
  show ?thesis unfolding changed_def
    by (intro conjI exI [of _ "[Element (Suc a) ''DIV'' [''right''] []
               [Element a ''SPAN'' [''list-item__expand-chevron''] [] []]]"] exI [of _ "[]"])
       (simp_all add: New)
next
  case Absent
  show ?thesis unfolding changed_def
    by (intro conjI exI [of _ "[]"]) (simp_all add: Absent)
next
  case (One x)
  show ?thesis unfolding changed_def
    by (intro conjI exI [of _ "[]"]) (simp_all add: One)
next
  case (Two x0 x1 xs)
  have x0: "x0 \<in> set ks" "matches ''DIV'' ''right'' x0" using filter_in [OF Two(1)] by simp_all
  have same: "n \<in> set ks \<Longrightarrow> nid n = nid x0 \<Longrightarrow> n = x0" for n
    using siblings_same_id [OF assms(2) _ x0(1)] by simp
  show ?thesis unfolding changed_def
    by (intro conjI exI [of _ "[]"] exI [of _ "[nid x0]"])
       (use same x0 in \<open>auto simp add: Two removeNode_def\<close>)
qed

text \<open>Consequences of a change.\<close>

lemma changed_siblings:
  assumes "changed cls a ks a' ks'" "siblings a ks"
  shows "siblings a' ks'"
proof -
  from assms(1) obtain new gone where c: "a \<le> a'" "ks' = new @ filter (\<lambda>n. nid n \<notin> set gone) ks"
    "distinct (map nid new)"
    "\<forall>n \<in> set new. a \<le> nid n \<and> nid n < a' \<and> nodeName n = ''DIV'' \<and> classes n = [cls]"
    unfolding changed_def by blast
  have "siblings a' (filter (\<lambda>n. nid n \<notin> set gone) ks)"
    using siblings_mono [OF siblings_filter [OF assms(2)] c(1)] .
  then show ?thesis
    using c(3,4) assms(2) unfolding c(2) siblings_def by fastforce
qed

lemma changed_filter:
  assumes "changed cls a ks a' ks'" "\<And>n. P n \<Longrightarrow> \<not> matches ''DIV'' cls n"
  shows "filter P ks' = filter P ks"
proof -
  from assms(1) obtain new gone where c: "ks' = new @ filter (\<lambda>n. nid n \<notin> set gone) ks"
    "\<forall>n \<in> set new. a \<le> nid n \<and> nid n < a' \<and> nodeName n = ''DIV'' \<and> classes n = [cls]"
    "\<forall>n \<in> set ks. nid n \<in> set gone \<longrightarrow> matches ''DIV'' cls n"
    unfolding changed_def by blast
  have "matches ''DIV'' cls n" if "n \<in> set new" for n
    using c(2) that by (simp add: matches_def)
  then have "filter P new = []"
    using assms(2) by (auto simp add: filter_empty_conv)
  moreover have "filter P (filter (\<lambda>n. nid n \<notin> set gone) ks) = filter P ks"
    unfolding filter_filter by (rule filter_cong) (use c(3) assms(2) in auto)
  ultimately show ?thesis by (simp add: c(1))
qed

lemma changed_origin:
  assumes "changed cls a ks a' ks'" "n \<in> set ks'"
  shows "n \<in> set ks \<or> (a \<le> nid n \<and> nid n < a' \<and> nodeName n = ''DIV'' \<and> classes n = [cls])"
  using assms unfolding changed_def by auto

lemma changed_kept:
  assumes "changed cls a ks a' ks'" "n \<in> set ks"
  shows "n \<in> set ks' \<or> matches ''DIV'' cls n"
  using assms unfolding changed_def by auto

lemma changed_le: "changed cls a ks a' ks' \<Longrightarrow> a \<le> a'"
  by (simp add: changed_def)

lemma leftWrapper_Some:
  assumes "leftWrapper tk = Some i" "siblings a tk"
  shows "i < a" "\<exists>n \<in> set tk. nid n = i \<and> matches ''DIV'' ''left'' n"
proof -
  from assms(1) obtain n where n: "find (matches ''DIV'' ''left'') tk = Some n" "nid n = i"
    by (auto simp add: leftWrapper_def)
  then have "n \<in> set tk \<and> matches ''DIV'' ''left'' n"
    by (auto simp add: find_Some_iff)
  with n assms(2) show "i < a" "\<exists>n \<in> set tk. nid n = i \<and> matches ''DIV'' ''left'' n"
    by (auto simp add: siblings_def)
qed

lemma removeNode_keeps: "n \<in> set ks \<Longrightarrow> nid n \<noteq> i \<Longrightarrow> n \<in> set (removeNode i ks)"
  by (simp add: removeNode_def)

lemma wrapperOrNew_id:
  assumes "wrapperOrNew cls a ks = (a', ks', w)" "siblings a ks"
  shows "w < a' \<and> (\<exists>n \<in> set ks'. nid n = w \<and> matches ''DIV'' cls n)"
  using assms(1)
proof (cases rule: wrapperOrNew_cases)
  case New
  show ?thesis by (simp add: New matches_def)
next
  case (One x)
  have x: "x \<in> set ks" "matches ''DIV'' cls x" using filter_in [OF One(1)] by simp_all
  show ?thesis using x assms(2) by (auto simp add: One siblings_def)
next
  case (Two x0 x1 xs)
  have x: "x1 \<in> set ks" "matches ''DIV'' cls x1" using filter_in2 [OF Two(1)] by simp_all
  have d: "nid x0 \<noteq> nid x1"
    using filter_two_distinct(1) [OF Two(1)] assms(2) by (simp add: siblings_def)
  show ?thesis
    using x d removeNode_keeps [of x1 ks "nid x0"] assms(2) by (auto simp add: Two siblings_def)
qed

lemma rightWrapper_id:
  assumes "rightWrapper e a ks = (a', ks', Some i)" "siblings a ks"
  shows "i < a' \<and> (\<exists>n \<in> set ks'. nid n = i \<and> matches ''DIV'' ''right'' n)"
  using assms(1)
proof (cases rule: rightWrapper_cases)
  case New
  show ?thesis using New by (simp add: matches_def)
next
  case Absent
  show ?thesis using Absent by simp
next
  case (One x)
  have x: "x \<in> set ks" "matches ''DIV'' ''right'' x" using filter_in [OF One(1)] by simp_all
  show ?thesis using x assms(2) One by (auto simp add: siblings_def)
next
  case (Two x0 x1 xs)
  have x: "x1 \<in> set ks" "matches ''DIV'' ''right'' x1" using filter_in2 [OF Two(1)] by simp_all
  have d: "nid x0 \<noteq> nid x1"
    using filter_two_distinct(1) [OF Two(1)] assms(2) by (simp add: siblings_def)
  show ?thesis
    using x d removeNode_keeps [of x1 ks "nid x0"] assms(2) Two by (auto simp add: siblings_def)
qed

text \<open>
  Adding the classes commutes with resolving the wrappers: \<open>compileContent\<close> resolves the
  wrappers, adds the three classes and relocates.
\<close>

lemma compileContent_wrappers:
  assumes "siblings a tk" "wrappers e a tk = (a2, S, l, r, c)"
  shows "compileContent e a tk = (a2, moveInto c (relocate l r c) (marks l r c S))"
proof -
  obtain a1 S1 r' where R: "rightWrapper e a tk = (a1, S1, r')"
    by (cases "rightWrapper e a tk") auto
  obtain a2' S' c' where C: "centerWrapper a1 S1 = (a2', S', c')"
    by (cases "centerWrapper a1 S1") auto
  from assms(2) R C have eq: "a2' = a2" "S' = S" "l = leftWrapper tk" "r' = r" "c' = c"
    by (simp_all add: wrappers_def)
  have l: "l = Some i \<Longrightarrow> i < a" for i
    using leftWrapper_Some(1) [OF _ assms(1)] eq(3) by simp
  have a1: "a \<le> a1" using changed_le [OF rightWrapper_changed [OF R assms(1)]] .
  have r: "r = Some i \<Longrightarrow> i < a1" for i
    using rightWrapper_id [OF _ assms(1)] R eq(4) by simp
  have l1: "l = Some i \<Longrightarrow> i < a1" for i using l a1 by fastforce
  have s1: "rightWrapper e a (markWrapper ''list-item__left'' l tk)
              = (a1, markWrapper ''list-item__left'' l S1, r)"
    using rightWrapper_mark [of "''list-item__left''" l a e tk] l R eq(4) by simp
  have s2: "centerWrapper a1 (markWrapper ''list-item__left'' l S1)
              = (a2, markWrapper ''list-item__left'' l S, c)"
    using centerWrapper_mark [of "''list-item__left''" l a1 S1] l1 C eq by simp
  have s3: "centerWrapper a1 (markWrapper ''list-item__right'' r (markWrapper ''list-item__left'' l S1))
              = (a2, markWrapper ''list-item__right'' r (markWrapper ''list-item__left'' l S), c)"
    using centerWrapper_mark [of "''list-item__right''" r a1 "markWrapper ''list-item__left'' l S1"]
      r s2 by simp
  show ?thesis
    by (simp add: compileContent_def Let_def eq(3) [symmetric] s1 s3 marks_def)
qed

lemma kidsOf_in: "siblings a ks \<Longrightarrow> n \<in> set ks \<Longrightarrow> kidsOf (nid n) ks = kids n"
proof -
  assume s: "siblings a ks" and n: "n \<in> set ks"
  then obtain m where m: "find (\<lambda>x. nid x = nid n) ks = Some m"
    by (cases "find (\<lambda>x. nid x = nid n) ks") (auto simp add: find_None_iff)
  then have "m \<in> set ks" "nid m = nid n" by (auto simp add: find_Some_iff)
  then have "m = n" using siblings_same_id [OF s _ n] by simp
  with m show ?thesis by (simp add: kidsOf_def)
qed

lemma kidsOf_absent: "i \<notin> nid ` set ks \<Longrightarrow> kidsOf i ks = []"
proof -
  assume "i \<notin> nid ` set ks"
  then have "find (\<lambda>x. nid x = i) ks = None" by (auto simp add: find_None_iff)
  then show ?thesis by (simp add: kidsOf_def)
qed

lemma marks_map: "marks l r c ks = map (mark1 l r c) ks"
proof -
  have "marks l r c ks = map (mark1 l r c) ks"
    by (cases l; cases r)
       (auto simp add: marks_def markWrapper_def onNode_def mark1_def Let_def)
  then show ?thesis .
qed

lemma mark1_same [simp]:
  "nid (mark1 l r c n) = nid n" "nodeName (mark1 l r c n) = nodeName n"
  "kids (mark1 l r c n) = kids n" "attrs (mark1 l r c n) = attrs n"
  by (simp_all add: mark1_def Let_def)

lemma mark1_other:
  "Some (nid n) \<noteq> l \<Longrightarrow> Some (nid n) \<noteq> r \<Longrightarrow> nid n \<noteq> c \<Longrightarrow> mark1 l r c n = n"
  by (simp add: mark1_def)

lemma hasClass_mark1_mono: "hasClass cls n \<Longrightarrow> hasClass cls (mark1 l r c n)"
  by (simp add: mark1_def Let_def hasClass_addClass_mono)

lemma matches_mark1:
  "cls \<noteq> ''list-item__left'' \<Longrightarrow> cls \<noteq> ''list-item__right'' \<Longrightarrow> cls \<noteq> ''list-item__center''
   \<Longrightarrow> matches tag cls (mark1 l r c n) = matches tag cls n"
  by (simp add: mark1_def Let_def matches_addClass_other)

lemma hasClass_mark1_other:
  "cls \<noteq> ''list-item__left'' \<Longrightarrow> cls \<noteq> ''list-item__right'' \<Longrightarrow> cls \<noteq> ''list-item__center''
   \<Longrightarrow> hasClass cls (mark1 l r c n) = hasClass cls n"
  by (simp add: mark1_def Let_def hasClass_addClass_other)

lemma plain_mark1 [simp]: "plain (mark1 l r c n) = plain n"
  by (simp add: plain_def ripple_def matches_mark1)

lemma relocate_mark1 [simp]: "relocate l' r' c' (mark1 l r c n) = relocate l' r' c' n"
  by (simp add: relocate_def)

lemma marked_mark1:
  assumes "nodeName n = ''DIV''" "Some (nid n) = l \<or> Some (nid n) = r \<or> nid n = c"
  shows "marked (mark1 l r c n)"
proof -
  have d: "nodeName (addClass x n) = ''DIV''" for x using assms(1) by simp
  have d2: "nodeName (addClass x (addClass y n)) = ''DIV''" for x y using assms(1) by simp
  show ?thesis
    using assms(2)
    by (auto simp add: mark1_def Let_def marked_def hasClass_addClass_div assms(1) d d2
             intro: hasClass_addClass_mono)
qed

lemma hasClass_center_mark1:
  "nodeName n = ''DIV'' \<Longrightarrow> hasClass ''list-item__center'' (mark1 l r (nid n) n)"
  by (simp add: mark1_def Let_def hasClass_addClass_div)

text \<open>Facts about the resolved wrappers of a content list.\<close>

lemma wrappers_steps:
  assumes "wrappers e a tk = (a2, S, l, r, c)"
  obtains a1 S1 where "rightWrapper e a tk = (a1, S1, r)" "wrapperOrNew ''center'' a1 S1 = (a2, S, c)"
    "l = leftWrapper tk"
proof -
  obtain a1 S1 r' where R: "rightWrapper e a tk = (a1, S1, r')"
    by (cases "rightWrapper e a tk") auto
  obtain a2' S' c' where C: "centerWrapper a1 S1 = (a2', S', c')"
    by (cases "centerWrapper a1 S1") auto
  from assms R C have "a2' = a2" "S' = S" "l = leftWrapper tk" "r' = r" "c' = c"
    by (simp_all add: wrappers_def)
  with R C that show ?thesis by (simp add: centerWrapper_eq)
qed

lemma wrappers_siblings:
  assumes "wrappers e a tk = (a2, S, l, r, c)" "siblings a tk"
  shows "siblings a2 S"
  using assms(1)
proof (cases rule: wrappers_steps)
  case (1 a1 S1)
  have "siblings a1 S1"
    using changed_siblings [OF rightWrapper_changed [OF 1(1) assms(2)] assms(2)] .
  then show ?thesis
    using changed_siblings [OF wrapperOrNew_changed [OF 1(2)]] by simp
qed

lemma wrappers_center:
  assumes "wrappers e a tk = (a2, S, l, r, c)" "siblings a tk"
  shows "\<exists>s \<in> set S. nid s = c \<and> matches ''DIV'' ''center'' s"
  using assms(1)
proof (cases rule: wrappers_steps)
  case (1 a1 S1)
  have "siblings a1 S1"
    using changed_siblings [OF rightWrapper_changed [OF 1(1) assms(2)] assms(2)] .
  then show ?thesis using wrapperOrNew_id [OF 1(2)] by simp
qed

lemma wrappers_special:
  assumes "wrappers e a tk = (a2, S, l, r, c)" "siblings a tk" "s \<in> set S"
  shows "(Some (nid s) = l \<longrightarrow> matches ''DIV'' ''left'' s)
       \<and> (Some (nid s) = r \<longrightarrow> matches ''DIV'' ''right'' s)
       \<and> (nid s = c \<longrightarrow> matches ''DIV'' ''center'' s)"
  using assms(1)
proof (cases rule: wrappers_steps)
  case (1 a1 S1)
  note chR = rightWrapper_changed [OF 1(1) assms(2)]
  have sib1: "siblings a1 S1" using changed_siblings [OF chR assms(2)] .
  note chC = wrapperOrNew_changed [OF 1(2) sib1]
  have sib2: "siblings a2 S" using changed_siblings [OF chC sib1] .
  have le: "a \<le> a1" "a1 \<le> a2" using changed_le [OF chR] changed_le [OF chC] by simp_all
  have left: "matches ''DIV'' ''left'' s" if h: "Some (nid s) = l"
  proof -
    from h 1(3) have lw: "leftWrapper tk = Some (nid s)" by simp
    from leftWrapper_Some [OF lw assms(2)] obtain n0 where
      n0: "nid s < a" "n0 \<in> set tk" "nid n0 = nid s" "matches ''DIV'' ''left'' n0" by auto
    have "s \<in> set S1" using changed_origin [OF chC assms(3)] n0(1) le by auto
    then have "s \<in> set tk" using changed_origin [OF chR, of s] n0(1) by auto
    then have "s = n0" using siblings_same_id [OF assms(2) _ n0(2)] n0(3) by simp
    then show ?thesis using n0(4) by simp
  qed
  have right: "matches ''DIV'' ''right'' s" if h: "Some (nid s) = r"
  proof -
    from h 1(1) have rw: "rightWrapper e a tk = (a1, S1, Some (nid s))" by simp
    from rightWrapper_id [OF rw assms(2)] obtain n1 where
      n1: "nid s < a1" "n1 \<in> set S1" "nid n1 = nid s" "matches ''DIV'' ''right'' n1" by auto
    have "s \<in> set S1" using changed_origin [OF chC assms(3)] n1(1) by auto
    then have "s = n1" using siblings_same_id [OF sib1 _ n1(2)] n1(3) by simp
    then show ?thesis using n1(4) by simp
  qed
  have center: "matches ''DIV'' ''center'' s" if h: "nid s = c"
  proof -
    from wrapperOrNew_id [OF 1(2) sib1] obtain n2 where
      n2: "n2 \<in> set S" "nid n2 = c" "matches ''DIV'' ''center'' n2" by auto
    have "s = n2" using siblings_same_id [OF sib2 assms(3) n2(1)] n2(2) h by simp
    then show ?thesis using n2(3) by simp
  qed
  show ?thesis using left right center by blast
qed

lemma wrappers_plain:
  assumes "wrappers e a tk = (a2, S, l, r, c)" "siblings a tk"
  shows "filter plain S = filter plain tk"
  using assms(1)
proof (cases rule: wrappers_steps)
  case (1 a1 S1)
  note chR = rightWrapper_changed [OF 1(1) assms(2)]
  have sib1: "siblings a1 S1" using changed_siblings [OF chR assms(2)] .
  note chC = wrapperOrNew_changed [OF 1(2) sib1]
  have "filter plain S = filter plain S1"
    by (rule changed_filter [OF chC]) (simp add: plain_def)
  also have "\<dots> = filter plain tk"
    by (rule changed_filter [OF chR]) (simp add: plain_def)
  finally show ?thesis .
qed

lemma wrappers_kidsOf_center:
  assumes "wrappers e a tk = (a2, S, l, r, c)" "siblings a tk"
  shows "kidsOf c S = kidsOf c tk"
  using assms(1)
proof (cases rule: wrappers_steps)
  case (1 a1 S1)
  note chR = rightWrapper_changed [OF 1(1) assms(2)]
  have sib1: "siblings a1 S1" using changed_siblings [OF chR assms(2)] .
  note chC = wrapperOrNew_changed [OF 1(2) sib1]
  have sib2: "siblings a2 S" using changed_siblings [OF chC sib1] .
  have le: "a \<le> a1" using changed_le [OF chR] .
  from 1(2) show ?thesis
  proof (cases rule: wrapperOrNew_cases)
    case New
    have "c \<notin> nid ` set tk" using assms(2) le New(4) by (auto simp add: siblings_def)
    then have "kidsOf c tk = []" by (rule kidsOf_absent)
    moreover have "kidsOf c S = []" by (simp add: New kidsOf_def)
    ultimately show ?thesis by simp
  next
    case (One x)
    have x: "x \<in> set S1" "matches ''DIV'' ''center'' x" using filter_in [OF One(1)] by simp_all
    then have xt: "x \<in> set tk" using changed_origin [OF chR x(1)] by (auto simp add: matches_def)
    show ?thesis
      using kidsOf_in [OF sib1 x(1)] kidsOf_in [OF assms(2) xt] by (simp add: One)
  next
    case (Two x0 x1 xs)
    have x: "x1 \<in> set S1" "matches ''DIV'' ''center'' x1" using filter_in2 [OF Two(1)] by simp_all
    then have xt: "x1 \<in> set tk" using changed_origin [OF chR x(1)] by (auto simp add: matches_def)
    have d: "nid x0 \<noteq> nid x1"
      using filter_two_distinct(1) [OF Two(1)] sib1 by (simp add: siblings_def)
    have "x1 \<in> set S" using removeNode_keeps [OF x(1)] d by (simp add: Two)
    then show ?thesis
      using kidsOf_in [OF sib2] kidsOf_in [OF assms(2) xt] by (simp add: Two)
  qed
qed

lemma moveInto_marks:
  "moveInto c (relocate l r c) (marks l r c S) =
     onNode c (\<lambda>t. setKids (kids t @ filter (relocate l r c) S) t)
       (map (mark1 l r c) (filter (\<lambda>n. \<not> relocate l r c n) S))"
proof -
  have "map (mark1 l r c) (filter (relocate l r c) S) = filter (relocate l r c) S"
    by (rule map_idI) (simp add: relocate_def mark1_other)
  then show ?thesis
    by (simp add: moveInto_def marks_map filter_map comp_def)
qed

lemma plain_relocate:
  assumes "wrappers e a tk = (a2, S, l, r, c)" "siblings a tk"
  shows "filter plain (filter (relocate l r c) S) = filter plain tk"
proof -
  have "plain s \<Longrightarrow> relocate l r c s" if "s \<in> set S" for s
    using wrappers_special [OF assms that]
    by (auto simp add: relocate_def plain_def ripple_def)
  then have "filter plain (filter (relocate l r c) S) = filter plain S"
    unfolding filter_filter by (intro filter_cong) auto
  then show ?thesis using wrappers_plain [OF assms] by simp
qed

text \<open>
  The content after \<open>compileContent\<close>: only marked wrappers and ripple elements remain as
  children, and the center wrapper holds, after what it held before, the relocated nodes;
  the plain ones among them are all the plain children, in their order.
\<close>

lemma compileContent_shape:
  assumes "siblings a tk" "compileContent e a tk = (a', tk')"
  shows "(\<forall>n \<in> set tk'. marked n \<or> ripple n)
       \<and> (\<exists>cn \<in> set tk'. matches ''DIV'' ''center'' cn \<and> hasClass ''list-item__center'' cn
             \<and> filter plain (kids cn) = filter plain (kidsOf (nid cn) tk) @ filter plain tk)"
proof -
  obtain a2 S l r c where W: "wrappers e a tk = (a2, S, l, r, c)"
    by (cases "wrappers e a tk") auto
  note nf = compileContent_wrappers [OF assms(1) W]
  with assms(2) have tk': "tk' = onNode c (\<lambda>t. setKids (kids t @ filter (relocate l r c) S) t)
       (map (mark1 l r c) (filter (\<lambda>n. \<not> relocate l r c n) S))"
    by (simp add: moveInto_marks)
  have sib: "siblings a2 S" using wrappers_siblings [OF W assms(1)] .
  have first: "marked n \<or> ripple n" if n: "n \<in> set tk'" for n
  proof -
    from n obtain s where s: "s \<in> set S" "\<not> relocate l r c s"
      "n = (if nid s = c then setKids (kids (mark1 l r c s) @ filter (relocate l r c) S) (mark1 l r c s)
            else mark1 l r c s)"
      unfolding tk' set_onNode by auto
    have mr: "marked (mark1 l r c s) \<or> ripple s"
    proof (cases "ripple s")
      case True
      then show ?thesis by simp
    next
      case False
      with s(2) have sp: "Some (nid s) = l \<or> Some (nid s) = r \<or> nid s = c"
        by (auto simp add: relocate_def ripple_def)
      with wrappers_special [OF W assms(1) s(1)] have "nodeName s = ''DIV''"
        by (auto simp add: matches_def)
      then show ?thesis using marked_mark1 [OF _ sp] by simp
    qed
    then show ?thesis
      by (auto simp add: s(3) marked_def ripple_def)
  qed
  from wrappers_center [OF W assms(1)] obtain s2 where
    s2: "s2 \<in> set S" "nid s2 = c" "matches ''DIV'' ''center'' s2" by auto
  let ?cn = "setKids (kids s2 @ filter (relocate l r c) S) (mark1 l r c s2)"
  have keep: "\<not> relocate l r c s2" using s2(2) by (simp add: relocate_def)
  have div: "nodeName s2 = ''DIV''" using s2(3) by (simp add: matches_def)
  have in': "?cn \<in> set tk'"
    unfolding tk' set_onNode using s2(1,2) keep by force
  have k: "kids ?cn = kids s2 @ filter (relocate l r c) S"
    by (rule kids_setKids) (simp add: div)
  have ks2: "kids s2 = kidsOf c tk"
    using kidsOf_in [OF sib s2(1)] wrappers_kidsOf_center [OF W assms(1)] s2(2) by simp
  have m: "matches ''DIV'' ''center'' ?cn"
    using s2(3) by (simp add: matches_mark1)
  have h: "hasClass ''list-item__center'' ?cn"
    using hasClass_center_mark1 [OF div, of l r] s2(2) by simp
  have p: "filter plain (kids ?cn) = filter plain (kidsOf (nid ?cn) tk) @ filter plain tk"
    unfolding k using plain_relocate [OF W assms(1)] s2(2) by (simp add: ks2)
  have second: "matches ''DIV'' ''center'' ?cn \<and> hasClass ''list-item__center'' ?cn
      \<and> filter plain (kids ?cn) = filter plain (kidsOf (nid ?cn) tk) @ filter plain tk"
    using m h p by blast
  show ?thesis using first in' second by blast
qed

section \<open>Compiling a content list twice\<close>

lemma leftWrapper_new:
  "\<not> matches ''DIV'' ''left'' k \<Longrightarrow> leftWrapper (k # ks) = leftWrapper ks"
  by (simp add: leftWrapper_def)

lemma wrappers_single:
  assumes "wrappers e a tk = (a2, S, l, r, c)" "siblings a tk"
    "single ''right'' tk" "single ''center'' tk"
  shows "leftWrapper S = l
       \<and> set tk \<subseteq> set S
       \<and> (\<exists>x. filter (matches ''DIV'' ''center'') S = [x] \<and> nid x = c)
       \<and> ((\<exists>x. filter (matches ''DIV'' ''right'') S = [x] \<and> r = Some (nid x))
          \<or> (filter (matches ''DIV'' ''right'') S = [] \<and> r = None \<and> \<not> e))"
  using assms(1)
proof (cases rule: wrappers_steps)
  case (1 a1 S1)
  have R: "leftWrapper S1 = l \<and> set tk \<subseteq> set S1
       \<and> filter (matches ''DIV'' ''center'') S1 = filter (matches ''DIV'' ''center'') tk
       \<and> ((\<exists>x. filter (matches ''DIV'' ''right'') S1 = [x] \<and> r = Some (nid x))
          \<or> (filter (matches ''DIV'' ''right'') S1 = [] \<and> r = None \<and> \<not> e))"
    using 1(1)
  proof (cases rule: rightWrapper_cases)
    case New
    then show ?thesis using 1(3) by (auto simp add: leftWrapper_def matches_def)
  next
    case Absent
    then show ?thesis using 1(3) by simp
  next
    case (One x)
    then show ?thesis using 1(3) by simp
  next
    case (Two x0 x1 xs)
    then show ?thesis using assms(3) by (simp add: single_def)
  qed
  from 1(2) show ?thesis
  proof (cases rule: wrapperOrNew_cases)
    case New
    then show ?thesis using R by (auto simp add: leftWrapper_def matches_def)
  next
    case (One x)
    then show ?thesis using R by auto
  next
    case (Two x0 x1 xs)
    then show ?thesis using assms(4) R by (simp add: single_def)
  qed
qed

lemma find_map_same:
  "(\<And>n. P (h n) = P n) \<Longrightarrow> find P (map h xs) = map_option h (find P xs)"
  by (induction xs) simp_all

lemma find_filter_kept:
  "find P xs = Some x \<Longrightarrow> Q x \<Longrightarrow> find P (filter Q xs) = Some x"
  by (induction xs) (auto split: if_splits)

lemma find_filter_None:
  "find P xs = None \<Longrightarrow> find P (filter Q xs) = None"
  by (auto simp add: find_None_iff)

lemma filter_map_same:
  "(\<And>n. P (h n) = P n) \<Longrightarrow> filter P (map h xs) = map h (filter P xs)"
  by (induction xs) simp_all

lemma addClass_idem: "addClass c (addClass c n) = addClass c n"
  by (cases n) (simp_all add: classListAdd_def)

lemma addClass_commute: "addClass c (addClass d n) = addClass d (addClass c n)
    \<or> c \<noteq> d"
  by (cases "c = d") simp_all

lemma addClass_present:
  "hasClass c n \<Longrightarrow> addClass c (addClass d n) = addClass d n"
  by (rule addClass_noop) (rule hasClass_addClass_mono)

lemma addClass_twice_other:
  "addClass c (addClass d (addClass c n)) = addClass d (addClass c n)"
  by (cases n) (auto simp add: classListAdd_def)

lemma addClass_thrice:
  "addClass c (addClass e (addClass d (addClass c n))) = addClass e (addClass d (addClass c n))"
  by (cases n) (auto simp add: classListAdd_def)

lemma mark1_idem: "mark1 l r c (mark1 l r c n) = mark1 l r c n"
  by (auto simp add: mark1_def Let_def addClass_idem addClass_twice_other addClass_thrice)

lemma addClass_setKids: "addClass c (setKids ks n) = setKids ks (addClass c n)"
  by (cases n) simp_all

lemma mark1_setKids: "mark1 l r c (setKids ks n) = setKids ks (mark1 l r c n)"
  by (auto simp add: mark1_def Let_def addClass_setKids)

lemma compileContent_again:
  assumes "siblings a tk" "single ''right'' tk" "single ''center'' tk"
    "compileContent e a tk = (a', tk')"
  shows "compileContent e a' tk' = (a', tk')"
proof -
  obtain a2 S l r c where W: "wrappers e a tk = (a2, S, l, r, c)"
    by (cases "wrappers e a tk") auto
  define p where "p = relocate l r c"
  define h where "h = (\<lambda>n. if nid n = c then setKids (kids n @ filter p S) (mark1 l r c n)
                            else mark1 l r c n)"
  have res: "a' = a2" "tk' = map h (filter (\<lambda>n. \<not> p n) S)"
    using compileContent_wrappers [OF assms(1) W] assms(4)
    by (simp_all add: moveInto_marks p_def h_def onNode_def comp_def)
  have sib: "siblings a2 S" using wrappers_siblings [OF W assms(1)] .
  have h_same: "nid (h n) = nid n" "nodeName (h n) = nodeName n" for n
    by (simp_all add: h_def)
  have h_match: "matches ''DIV'' cls (h n) = matches ''DIV'' cls n"
    if "cls = ''left'' \<or> cls = ''right'' \<or> cls = ''center''" for cls n
    using that by (auto simp add: h_def matches_mark1)
  have h_p: "p (h n) = p n" for n by (simp add: p_def relocate_def h_same)
  have sib': "siblings a2 tk'"
    using siblings_filter [OF sib, of "\<lambda>n. \<not> p n"]
    by (simp add: res(2) siblings_def h_same comp_def)
  note ws = wrappers_single [OF W assms(1,2,3)]
  have left: "leftWrapper tk' = l"
  proof (cases "find (matches ''DIV'' ''left'') S")
    case None
    then show ?thesis
      using ws find_filter_None [OF None, of "\<lambda>n. \<not> p n"]
      by (simp add: res(2) leftWrapper_def find_map_same h_match)
  next
    case (Some x)
    with ws have "l = Some (nid x)" by (auto simp add: leftWrapper_def)
    then have "\<not> p x" by (simp add: p_def relocate_def)
    from find_filter_kept [OF Some, of "\<lambda>n. \<not> p n", OF this] show ?thesis
      using \<open>l = Some (nid x)\<close>
      by (simp add: res(2) leftWrapper_def find_map_same h_match h_same)
  qed
  have fr: "filter (matches ''DIV'' ''right'') tk'
              = map h (filter (\<lambda>n. \<not> p n) (filter (matches ''DIV'' ''right'') S))"
    by (simp add: res(2) filter_map_same h_match conj_commute)
  have fc: "filter (matches ''DIV'' ''center'') tk'
              = map h (filter (\<lambda>n. \<not> p n) (filter (matches ''DIV'' ''center'') S))"
    by (simp add: res(2) filter_map_same h_match conj_commute)
  have right: "rightWrapper e a2 tk' = (a2, tk', r)"
  proof -
    from ws consider x where "filter (matches ''DIV'' ''right'') S = [x]" "r = Some (nid x)"
      | "filter (matches ''DIV'' ''right'') S = []" "r = None" "\<not> e"
      by blast
    then show ?thesis
    proof cases
      case 1
      then have "\<not> p x" by (simp add: p_def relocate_def)
      then show ?thesis
        using 1 by (simp add: rightWrapper_def fr h_same)
    next
      case 2
      then show ?thesis by (simp add: rightWrapper_def fr)
    qed
  qed
  have center: "centerWrapper a2 tk' = (a2, tk', c)"
  proof -
    from ws obtain x where x: "filter (matches ''DIV'' ''center'') S = [x]" "nid x = c"
      by blast
    then have "\<not> p x" by (simp add: p_def relocate_def)
    then show ?thesis
      using x by (simp add: centerWrapper_def fc h_same)
  qed
  have W': "wrappers e a2 tk' = (a2, tk', l, r, c)"
    by (simp add: wrappers_def right center left)
  have hm: "mark1 l r c (h n) = h n" for n
    by (simp add: h_def mark1_setKids mark1_idem)
  have m: "marks l r c tk' = tk'"
    by (simp add: marks_map res(2) hm)
  have none: "filter p tk' = []" "filter (\<lambda>n. \<not> p n) tk' = tk'"
    by (simp_all add: res(2) filter_map_same h_p filter_empty_conv)
  have mv: "moveInto c p tk' = tk'"
    by (simp add: moveInto_def none) (rule onNode_noop, simp)
  show ?thesis
    using compileContent_wrappers [OF sib' W'] by (simp add: res(1) m mv p_def [symmetric])
qed

section \<open>The wrappers of an expandable item\<close>

lemma wrapperOrNew_mark:
  assumes "c \<noteq> cls" "\<And>i. w = Some i \<Longrightarrow> i < a"
  shows "wrapperOrNew cls a (markWrapper c w ks) =
           (case wrapperOrNew cls a ks of (a1, ks1, x) \<Rightarrow> (a1, markWrapper c w ks1, x))"
proof -
  have f: "filter (matches ''DIV'' cls) (markWrapper c w ks)
             = markWrapper c w (filter (matches ''DIV'' cls) ks)"
    by (rule filter_markWrapper) (simp add: matches_addClass_other assms(1) [symmetric])
  have fresh: "markWrapper c w (Element a n cl at k # ks) = Element a n cl at k # markWrapper c w ks"
    for n cl at k
    by (rule markWrapper_Cons_fresh) (use assms(2) in fastforce)
  show ?thesis
    unfolding wrapperOrNew_def f adopt_markWrapper
    by (cases "adopt (filter (matches ''DIV'' cls) ks) ks")
       (auto simp add: Let_def fresh)
qed

lemma kidsOf_markWrapper: "kidsOf i (markWrapper c w ks) = kidsOf i ks"
proof (cases w)
  case None
  then show ?thesis by simp
next
  case (Some j)
  have "find (\<lambda>n. nid n = i) (onNode j (addClass c) ks)
          = map_option (\<lambda>n. if nid n = j then addClass c n else n) (find (\<lambda>n. nid n = i) ks)"
    by (rule find_onNode) simp
  then show ?thesis
    by (cases "find (\<lambda>n. nid n = i) ks") (simp_all add: Some markWrapper_def kidsOf_def)
qed

lemma toTop_addClass:
  "c \<noteq> ''expandable-content'' \<Longrightarrow> toTop t (addClass c n) = toTop t n"
  by (simp add: toTop_def hasClass_addClass_other)

text \<open>
  \<open>_compile\<close> of an expandable item in terms of the wrappers resolved on the child list
  as it is, the classes being added afterwards.
\<close>

lemma compileStructure_expandable:
  assumes "expandable this" "siblings (allocated this) (childNodes this)"
    "wrapperOrNew ''top'' (allocated this) (childNodes this) = (a1, k1, t)"
    "wrapperOrNew ''expandable-content'' a1 k1 = (a2, K, x)"
    "compileContent True a2 (kidsOf t k1 @ filter (toTop t) K) = (a3, tk)"
  shows "compileStructure this =
           this\<lparr>childNodes := onNode t (setKids tk)
                   (markWrapper ''list-item__expandable-content'' (Some x)
                      (markWrapper ''list-item__top'' (Some t) (filter (\<lambda>n. \<not> toTop t n) K))),
                 topElement := Some t,
                 expandableContentElement := Some x,
                 allocated := a3\<rparr>"
proof -
  note chT = wrapperOrNew_changed [OF assms(3,2)]
  have sib1: "siblings a1 k1" using changed_siblings [OF chT assms(2)] .
  note chX = wrapperOrNew_changed [OF assms(4) sib1]
  have sibK: "siblings a2 K" using changed_siblings [OF chX sib1] .
  have t: "t < a1" using wrapperOrNew_id [OF assms(3,2)] by simp
  from wrapperOrNew_id [OF assms(4) sib1] obtain xn where
    xn: "x < a2" "xn \<in> set K" "nid xn = x" "matches ''DIV'' ''expandable-content'' xn" by auto
  have s2: "wrapperOrNew ''expandable-content'' a1 (markWrapper ''list-item__top'' (Some t) k1)
              = (a2, markWrapper ''list-item__top'' (Some t) K, x)"
    using wrapperOrNew_mark [of "''list-item__top''" "''expandable-content''" "Some t" a1 k1]
      t assms(4) by simp
  have ft: "filter (toTop t) (markWrapper ''list-item__expandable-content'' (Some x)
                (markWrapper ''list-item__top'' (Some t) K))
            = markWrapper ''list-item__expandable-content'' (Some x)
                (markWrapper ''list-item__top'' (Some t) (filter (toTop t) K))"
    by (simp add: filter_markWrapper toTop_addClass)
  have nt: "t \<notin> nid ` set (filter (toTop t) K)" by (auto simp add: toTop_def)
  have nx: "x \<notin> nid ` set (filter (toTop t) K)"
  proof
    assume "x \<in> nid ` set (filter (toTop t) K)"
    then obtain n where n: "n \<in> set K" "toTop t n" "nid n = x" by auto
    then have "n = xn" using siblings_same_id [OF sibK n(1) xn(2)] xn(3) by simp
    with n(2) xn(4) show False by (simp add: toTop_def matches_def hasClass_def)
  qed
  have ft': "filter (toTop t) (markWrapper ''list-item__expandable-content'' (Some x)
                (markWrapper ''list-item__top'' (Some t) K)) = filter (toTop t) K"
    unfolding ft using nt nx by (simp add: markWrapper_def onNode_absent)
  have fn: "filter (\<lambda>n. \<not> toTop t n) (markWrapper ''list-item__expandable-content'' (Some x)
                (markWrapper ''list-item__top'' (Some t) K))
            = markWrapper ''list-item__expandable-content'' (Some x)
                (markWrapper ''list-item__top'' (Some t) (filter (\<lambda>n. \<not> toTop t n) K))"
    by (simp add: filter_markWrapper toTop_addClass)
  show ?thesis
    using assms(1)
    by (simp add: compileStructure_def assms(3) Let_def s2 kidsOf_markWrapper ft' assms(5) fn)
qed

section \<open>Well-formed trees\<close>

lemma subtree_root: "subtree n = (nid n, nodeName n) # forest (kids n)"
  by (cases n) (simp_all add: forest_def)

lemma forest_Nil [simp]: "forest [] = []"
  by (simp add: forest_def)

lemma forest_Cons: "forest (k # ks) = subtree k @ forest ks"
  by (simp add: forest_def)

lemma forest_append: "forest (ks @ ks') = forest ks @ forest ks'"
  by (simp add: forest_def)

lemma forest_member: "n \<in> set ks \<Longrightarrow> set (subtree n) \<subseteq> set (forest ks)"
  by (auto simp add: forest_def)

lemma root_in_forest: "n \<in> set ks \<Longrightarrow> (nid n, nodeName n) \<in> set (forest ks)"
  using forest_member [of n ks] by (auto simp add: subtree_root)

lemma kids_in_forest: "n \<in> set ks \<Longrightarrow> set (forest (kids n)) \<subseteq> set (forest ks)"
  using forest_member [of n ks] by (auto simp add: subtree_root)

lemma distinct_forest_siblings:
  "distinct (map fst (forest ks)) \<Longrightarrow> distinct (map nid ks)"
proof (induction ks)
  case Nil
  then show ?case by simp
next
  case (Cons k ks)
  have "nid k \<notin> nid ` set ks"
  proof
    assume "nid k \<in> nid ` set ks"
    then obtain m where m: "m \<in> set ks" "nid m = nid k" by auto
    then have "nid k \<in> fst ` set (forest ks)"
      using root_in_forest [OF m(1)] by force
    moreover have "nid k \<in> fst ` set (subtree k)" by (simp add: subtree_root)
    ultimately show False using Cons.prems by (auto simp add: forest_Cons)
  qed
  then show ?case using Cons by (simp add: forest_Cons)
qed

lemma wellFormedNodes_siblings: "wellFormedNodes a ks \<Longrightarrow> siblings a ks"
  unfolding wellFormedNodes_def siblings_def
  using distinct_forest_siblings [of ks] root_in_forest [of _ ks] by fastforce

lemma wellFormedNodes_kids:
  assumes "wellFormedNodes a ks" "n \<in> set ks"
  shows "wellFormedNodes a (kids n)"
proof -
  have d: "distinct (map fst (forest (kids n)))"
    using assms
  proof (induction ks)
    case Nil
    then show ?case by simp
  next
    case (Cons k ks)
    then show ?case
      by (cases "n = k") (auto simp add: wellFormedNodes_def forest_Cons subtree_root)
  qed
  show ?thesis
    using d assms kids_in_forest [OF assms(2)] by (auto simp add: wellFormedNodes_def)
qed

text \<open>The children of one child and the other children have different identities.\<close>

lemma kids_apart:
  assumes "distinct (map fst (forest ks))" "n \<in> set ks" "m \<in> set ks" "nid m \<noteq> nid n"
  shows "nid m \<notin> fst ` set (forest (kids n))"
  using assms
proof (induction ks)
  case Nil
  then show ?case by simp
next
  case (Cons k ks)
  have root: "x \<in> set ks \<Longrightarrow> nid x \<in> fst ` set (forest ks)" for x
    using root_in_forest [of x ks] by force
  have sub: "x \<in> set ks \<Longrightarrow> fst ` set (forest (kids x)) \<subseteq> fst ` set (forest ks)" for x
    using kids_in_forest [of x ks] by auto
  from Cons.prems(1) have d: "distinct (map fst (forest ks))"
    "fst ` set (subtree k) \<inter> fst ` set (forest ks) = {}"
    by (auto simp add: forest_Cons)
  consider "n = k" "m \<in> set ks" | "m = k" "n \<in> set ks" | "n \<in> set ks" "m \<in> set ks"
    using Cons.prems by auto
  then show ?case
  proof cases
    case 1
    then show ?thesis using root [of m] d(2) by (auto simp add: subtree_root)
  next
    case 2
    then show ?thesis using sub [of n] d(2) by (auto simp add: subtree_root)
  next
    case 3
    then show ?thesis using Cons.IH d(1) Cons.prems(4) by simp
  qed
qed

lemma siblings_append:
  "siblings a xs \<Longrightarrow> siblings a ys \<Longrightarrow> nid ` set xs \<inter> nid ` set ys = {} \<Longrightarrow> siblings a (xs @ ys)"
  by (auto simp add: siblings_def)

lemma wellFormedNodes_kids_and_others:
  assumes "wellFormedNodes a ks" "n \<in> set ks" "set ms \<subseteq> set ks" "distinct (map nid ms)"
    "nid n \<notin> nid ` set ms"
  shows "siblings a (kids n @ ms)"
proof (rule siblings_append)
  show "siblings a (kids n)"
    using wellFormedNodes_siblings [OF wellFormedNodes_kids [OF assms(1,2)]] .
  show "siblings a ms"
    using wellFormedNodes_siblings [OF assms(1)] assms(3,4) by (auto simp add: siblings_def)
  have d: "distinct (map fst (forest ks))" using assms(1) by (simp add: wellFormedNodes_def)
  show "nid ` set (kids n) \<inter> nid ` set ms = {}"
  proof (rule ccontr)
    assume "nid ` set (kids n) \<inter> nid ` set ms \<noteq> {}"
    then obtain k m where km: "k \<in> set (kids n)" "m \<in> set ms" "nid k = nid m" by auto
    have "nid m \<noteq> nid n" using km(2) assms(5) by (metis imageI)
    then have "nid m \<notin> fst ` set (forest (kids n))"
      using kids_apart [OF d assms(2)] km(2) assms(3) by auto
    moreover have "nid k \<in> fst ` set (forest (kids n))"
      using root_in_forest [OF km(1)] by force
    ultimately show False using km(3) by simp
  qed
qed

section \<open>Where the children of a list item end up\<close>

lemma content_input_siblings:
  assumes "wellFormedNodes a0 k0" "wrapperOrNew ''top'' a0 k0 = (a1, k1, t)"
    "wrapperOrNew ''expandable-content'' a1 k1 = (a2, K, x)"
  shows "siblings a2 (kidsOf t k1 @ filter (toTop t) K)"
proof -
  note sib0 = wellFormedNodes_siblings [OF assms(1)]
  note chT = wrapperOrNew_changed [OF assms(2) sib0]
  have sib1: "siblings a1 k1" using changed_siblings [OF chT sib0] .
  note chX = wrapperOrNew_changed [OF assms(3) sib1]
  have sibK: "siblings a2 K" using changed_siblings [OF chX sib1] .
  have le: "a0 \<le> a1" "a1 \<le> a2" using changed_le [OF chT] changed_le [OF chX] by simp_all
  have fromK: "n \<in> set k1" if "n \<in> set K" "toTop t n" for n
    using changed_origin [OF chX that(1)] that(2) by (auto simp add: toTop_def hasClass_def)
  have existing: "siblings a2 (kidsOf t k1 @ filter (toTop t) K)"
    if tn: "tn \<in> set k0" "tn \<in> set k1" "nid tn = t" "set k1 \<subseteq> set k0" for tn
  proof -
    have k: "kidsOf t k1 = kids tn" using kidsOf_in [OF sib1 tn(2)] tn(3) by simp
    have "siblings a0 (kids tn @ filter (toTop t) K)"
    proof (rule wellFormedNodes_kids_and_others [OF assms(1) tn(1)])
      show "set (filter (toTop t) K) \<subseteq> set k0" using fromK tn(4) by auto
      show "distinct (map nid (filter (toTop t) K))"
        using siblings_filter [OF sibK] by (simp add: siblings_def)
      show "nid tn \<notin> nid ` set (filter (toTop t) K)" using tn(3) by (auto simp add: toTop_def)
    qed
    then show ?thesis using siblings_mono le by (simp add: k)
  qed
  from assms(2) show ?thesis
  proof (cases rule: wrapperOrNew_cases)
    case New
    have "kidsOf t k1 = []" by (simp add: New kidsOf_def)
    then show ?thesis using siblings_filter [OF sibK] by simp
  next
    case (One tn)
    have "tn \<in> set k0" using filter_in [OF One(1)] by simp
    then show ?thesis using existing [of tn] One by simp
  next
    case (Two t0 tn ts)
    have tn: "tn \<in> set k0" using filter_in2 [OF Two(1)] by simp
    have d: "nid t0 \<noteq> nid tn"
      using filter_two_distinct(1) [OF Two(1)] sib0 by (simp add: siblings_def)
    have "tn \<in> set k1" using removeNode_keeps [OF tn] d by (simp add: Two)
    moreover have "set k1 \<subseteq> set k0" by (auto simp add: Two removeNode_def)
    ultimately show ?thesis using existing [of tn] tn Two by simp
  qed
qed

lemma compileStructure_plain:
  assumes "\<not> expandable this" "compileContent False (allocated this) (childNodes this) = (a', tk')"
  shows "compileStructure this = this\<lparr>childNodes := tk', allocated := a'\<rparr>"
  using assms by (simp add: compileStructure_def)

lemma plainChild_top:
  assumes "wellFormedNodes a0 k0" "wrapperOrNew ''top'' a0 k0 = (a1, k1, t)"
    "wrapperOrNew ''expandable-content'' a1 k1 = (a2, K, x)"
  shows "filter plainChild (filter (toTop t) K) = filter plainChild k0"
proof -
  note sib0 = wellFormedNodes_siblings [OF assms(1)]
  note chT = wrapperOrNew_changed [OF assms(2) sib0]
  have sib1: "siblings a1 k1" using changed_siblings [OF chT sib0] .
  note chX = wrapperOrNew_changed [OF assms(3) sib1]
  have sibK: "siblings a2 K" using changed_siblings [OF chX sib1] .
  from wrapperOrNew_id [OF assms(2) sib0] obtain tn where
    tn: "t < a1" "tn \<in> set k1" "nid tn = t" "matches ''DIV'' ''top'' tn" by auto
  have "toTop t n" if "n \<in> set K" "plainChild n" for n
  proof -
    have "nid n \<noteq> t"
    proof
      assume e: "nid n = t"
      have "n \<in> set k1" using changed_origin [OF chX that(1)] e tn(1) by auto
      then have "n = tn" using siblings_same_id [OF sib1 _ tn(2)] e tn(3) by simp
      with tn(4) that(2) show False by (simp add: plainChild_def)
    qed
    then show ?thesis using that(2) by (simp add: toTop_def plainChild_def plain_def ripple_def)
  qed
  then have "filter plainChild (filter (toTop t) K) = filter plainChild K"
    unfolding filter_filter by (intro filter_cong) auto
  also have "\<dots> = filter plainChild k1"
    by (rule changed_filter [OF chX]) (simp add: plainChild_def matches_def hasClass_def)
  also have "\<dots> = filter plainChild k0"
    by (rule changed_filter [OF chT]) (simp add: plainChild_def)
  finally show ?thesis .
qed

lemma filter_plainChild_plain: "filter plainChild (filter plain ks) = filter plainChild ks"
  unfolding filter_filter by (intro filter_cong) (auto simp add: plainChild_def)

section \<open>Where the children of a list item end up, continued\<close>

lemma markTop_map:
  "markWrapper ''list-item__expandable-content'' (Some x)
     (markWrapper ''list-item__top'' (Some t) ks) = map (markTop t x) ks"
  by (simp add: markWrapper_def onNode_def markTop_def Let_def)

lemma markTop_same [simp]:
  "nid (markTop t x n) = nid n" "nodeName (markTop t x n) = nodeName n"
  "kids (markTop t x n) = kids n"
  by (simp_all add: markTop_def Let_def)

lemma hasClass_markTop_other:
  "cls \<noteq> ''list-item__top'' \<Longrightarrow> cls \<noteq> ''list-item__expandable-content''
   \<Longrightarrow> hasClass cls (markTop t x n) = hasClass cls n"
  by (simp add: markTop_def Let_def hasClass_addClass_other)

lemma hasClass_markTop_top:
  "nodeName n = ''DIV'' \<Longrightarrow> hasClass ''list-item__top'' (markTop (nid n) x n)"
  by (simp add: markTop_def Let_def hasClass_addClass_div hasClass_addClass_mono)

lemma toTop_markTop [simp]: "toTop t' (markTop t x n) = toTop t' n"
  by (simp add: toTop_def hasClass_markTop_other)

lemma ripple_markTop [simp]: "ripple (markTop t x n) = ripple n"
  by (simp add: ripple_def)

lemma toTop_setKids [simp]: "toTop t (setKids ks n) = toTop t n"
  by (simp add: toTop_def)

lemma ripple_setKids [simp]: "ripple (setKids ks n) = ripple n"
  by (simp add: ripple_def)

text \<open>The children of an expandable item after \<open>_compile\<close>.\<close>

lemma expandable_children:
  assumes "expandable this" "siblings (allocated this) (childNodes this)"
    "wrapperOrNew ''top'' (allocated this) (childNodes this) = (a1, k1, t)"
    "wrapperOrNew ''expandable-content'' a1 k1 = (a2, K, x)"
    "compileContent True a2 (kidsOf t k1 @ filter (toTop t) K) = (a3, tk)"
  shows "childNodes (compileStructure this)
           = map (\<lambda>k. if nid k = t then setKids tk (markTop t x k) else markTop t x k)
               (filter (\<lambda>n. \<not> toTop t n) K)"
    and "topElement (compileStructure this) = Some t"
    and "expandableContentElement (compileStructure this) = Some x"
    and "allocated (compileStructure this) = a3"
proof -
  note s = compileStructure_expandable [OF assms]
  show "childNodes (compileStructure this)
           = map (\<lambda>k. if nid k = t then setKids tk (markTop t x k) else markTop t x k)
               (filter (\<lambda>n. \<not> toTop t n) K)"
    unfolding s by (simp add: markTop_map onNode_def comp_def)
  show "topElement (compileStructure this) = Some t" unfolding s by simp
  show "expandableContentElement (compileStructure this) = Some x" unfolding s by simp
  show "allocated (compileStructure this) = a3" unfolding s by simp
qed

lemma expandable_children_kinds:
  assumes "expandable this" "siblings (allocated this) (childNodes this)"
    "wrapperOrNew ''top'' (allocated this) (childNodes this) = (a1, k1, t)"
    "wrapperOrNew ''expandable-content'' a1 k1 = (a2, K, x)"
    "compileContent True a2 (kidsOf t k1 @ filter (toTop t) K) = (a3, tk)"
    "n \<in> set (childNodes (compileStructure this))"
  shows "nid n = t \<or> hasClass ''expandable-content'' n \<or> ripple n"
proof -
  from assms(6) obtain k where k: "k \<in> set K" "\<not> toTop t k"
    "n = (if nid k = t then setKids tk (markTop t x k) else markTop t x k)"
    unfolding expandable_children(1) [OF assms(1-5)] by auto
  show ?thesis
  proof (cases "nid k = t")
    case True
    then show ?thesis by (simp add: k(3))
  next
    case False
    with k(2) have "hasClass ''expandable-content'' k \<or> ripple k"
      by (simp add: toTop_def ripple_def)
    then show ?thesis using False by (simp add: k(3) hasClass_markTop_other)
  qed
qed

lemma expandable_top_node:
  assumes "expandable this" "wellFormedNodes (allocated this) (childNodes this)"
    "wrapperOrNew ''top'' (allocated this) (childNodes this) = (a1, k1, t)"
    "wrapperOrNew ''expandable-content'' a1 k1 = (a2, K, x)"
    "compileContent True a2 (kidsOf t k1 @ filter (toTop t) K) = (a3, tk)"
    "tn \<in> set (childNodes (compileStructure this))" "nid tn = t"
  shows "hasClass ''list-item__top'' tn \<and> kids tn = tk"
proof -
  note sib0 = wellFormedNodes_siblings [OF assms(2)]
  note chT = wrapperOrNew_changed [OF assms(3) sib0]
  have sib1: "siblings a1 k1" using changed_siblings [OF chT sib0] .
  note chX = wrapperOrNew_changed [OF assms(4) sib1]
  from wrapperOrNew_id [OF assms(3) sib0] obtain t0 where
    t0: "t < a1" "t0 \<in> set k1" "nid t0 = t" "matches ''DIV'' ''top'' t0" by auto
  from assms(6) obtain k where k: "k \<in> set K"
    "tn = (if nid k = t then setKids tk (markTop t x k) else markTop t x k)"
    unfolding expandable_children(1) [OF assms(1) sib0 assms(3-5)] by auto
  have kt: "nid k = t"
    using assms(7) by (cases "nid k = t") (simp_all add: k(2))
  have "k \<in> set k1" using changed_origin [OF chX k(1)] kt t0(1) by auto
  then have "k = t0" using siblings_same_id [OF sib1 _ t0(2)] kt t0(3) by simp
  then have div: "nodeName k = ''DIV''" using t0(4) by (simp add: matches_def)
  have tn: "tn = setKids tk (markTop (nid k) x k)" using kt by (simp add: k(2))
  have "kids tn = tk" unfolding tn by (rule kids_setKids) (simp add: div)
  moreover have "hasClass ''list-item__top'' tn"
    unfolding tn using hasClass_markTop_top [OF div] by simp
  ultimately show ?thesis by simp
qed

lemma expandable_content:
  assumes "wellFormedNodes a0 k0"
    "wrapperOrNew ''top'' a0 k0 = (a1, k1, t)"
    "wrapperOrNew ''expandable-content'' a1 k1 = (a2, K, x)"
    "compileContent True a2 (kidsOf t k1 @ filter (toTop t) K) = (a3, tk)"
  shows "(\<forall>n \<in> set tk. marked n \<or> ripple n)
       \<and> (\<exists>cn \<in> set tk. matches ''DIV'' ''center'' cn \<and> hasClass ''list-item__center'' cn
             \<and> (\<exists>pre. filter plainChild (kids cn) = pre @ filter plainChild k0))"
proof -
  note insib = content_input_siblings [OF assms(1-3)]
  note shape = compileContent_shape [OF insib assms(4)]
  from shape obtain cn where cn: "cn \<in> set tk" "matches ''DIV'' ''center'' cn"
    "hasClass ''list-item__center'' cn"
    "filter plain (kids cn) = filter plain (kidsOf (nid cn) (kidsOf t k1 @ filter (toTop t) K))
        @ filter plain (kidsOf t k1 @ filter (toTop t) K)" by blast
  have "filter plainChild (kids cn) = filter plainChild (filter plain (kids cn))"
    by (rule filter_plainChild_plain [symmetric])
  also have "\<dots> = (filter plainChild (kidsOf (nid cn) (kidsOf t k1 @ filter (toTop t) K))
                    @ filter plainChild (kidsOf t k1))
                  @ filter plainChild (filter (toTop t) K)"
    unfolding cn(4) by (simp only: filter_append filter_plainChild_plain append_assoc)
  also have "filter plainChild (filter (toTop t) K) = filter plainChild k0"
    using plainChild_top [OF assms(1-3)] .
  finally have "\<exists>pre. filter plainChild (kids cn) = pre @ filter plainChild k0"
    by (rule exI)
  with cn(1,2,3) have "\<exists>cn \<in> set tk. matches ''DIV'' ''center'' cn
      \<and> hasClass ''list-item__center'' cn
      \<and> (\<exists>pre. filter plainChild (kids cn) = pre @ filter plainChild k0)"
    by (intro bexI [of _ cn]) simp_all
  moreover have "\<forall>n \<in> set tk. marked n \<or> ripple n" using shape by (rule conjunct1)
  ultimately show ?thesis by (rule conjI [rotated])
qed

lemma single_removeNode:
  "single cls ks \<Longrightarrow> single cls (removeNode i ks)"
proof -
  assume s: "single cls ks"
  have "filter (matches ''DIV'' cls) (removeNode i ks)
          = filter (\<lambda>n. nid n \<noteq> i) (filter (matches ''DIV'' cls) ks)"
    by (simp add: removeNode_def conj_commute)
  then have "length (filter (matches ''DIV'' cls) (removeNode i ks))
          \<le> length (filter (matches ''DIV'' cls) ks)"
    using length_filter_le [of "\<lambda>n. nid n \<noteq> i" "filter (matches ''DIV'' cls) ks"]
    by (simp only:)
  with s show ?thesis by (simp add: single_def)
qed

lemma single_after_top:
  assumes "wrapperOrNew ''top'' a0 k0 = (a1, k1, t)" "single ''expandable-content'' k0"
  shows "single ''expandable-content'' k1"
  using assms(1)
proof (cases rule: wrapperOrNew_cases)
  case New
  then show ?thesis using assms(2) by (simp add: single_def matches_def)
next
  case (One y)
  then show ?thesis using assms(2) by simp
next
  case (Two y0 y1 ys)
  then show ?thesis using single_removeNode [OF assms(2)] by simp
qed

lemma single_keeps_all:
  assumes "wrapperOrNew cls a ks = (a', ks', w)" "single cls ks"
  shows "set ks \<subseteq> set ks'"
  using assms(1)
proof (cases rule: wrapperOrNew_cases)
  case New
  then show ?thesis by auto
next
  case (One y)
  then show ?thesis by simp
next
  case (Two y0 y1 ys)
  then show ?thesis using assms(2) by (simp add: single_def)
qed

lemma expandable_top_present:
  assumes "expandable this" "siblings (allocated this) (childNodes this)"
    "wrapperOrNew ''top'' (allocated this) (childNodes this) = (a1, k1, t)"
    "wrapperOrNew ''expandable-content'' a1 k1 = (a2, K, x)"
    "compileContent True a2 (kidsOf t k1 @ filter (toTop t) K) = (a3, tk)"
    "single ''expandable-content'' (childNodes this)"
  shows "\<exists>tn \<in> set (childNodes (compileStructure this)). nid tn = t"
proof -
  from wrapperOrNew_id [OF assms(3,2)] obtain t0 where
    t0: "t0 \<in> set k1" "nid t0 = t" by auto
  have "t0 \<in> set K"
    using single_keeps_all [OF assms(4) single_after_top [OF assms(3,6)]] t0(1) by auto
  moreover have "\<not> toTop t t0" using t0(2) by (simp add: toTop_def)
  ultimately have "t0 \<in> set (filter (\<lambda>n. \<not> toTop t n) K)" by simp
  then have "setKids tk (markTop t x t0) \<in> set (childNodes (compileStructure this))"
    unfolding expandable_children(1) [OF assms(1-5)] using t0(2) by force
  then show ?thesis by (rule bexI [rotated]) (simp add: t0(2))
qed

section \<open>Items without duplicate wrappers\<close>

lemma subtree_mark1 [simp]: "subtree (mark1 l r c n) = subtree n"
  by (simp add: subtree_root)

lemma subtree_markTop [simp]: "subtree (markTop t x n) = subtree n"
  by (simp add: subtree_root)

lemma subtree_setKids_div:
  "nodeName n = ''DIV'' \<Longrightarrow> subtree (setKids ks n) = (nid n, nodeName n) # forest ks"
  by (simp add: subtree_root [of "setKids ks n"] kids_setKids)

lemma set_forest: "set (forest ks) = (\<Union>n \<in> set ks. set (subtree n))"
  by (simp add: forest_def)

lemma forest_mono: "set ks \<subseteq> set ks' \<Longrightarrow> set (forest ks) \<subseteq> set (forest ks')"
  by (auto simp add: set_forest)

text \<open>Without duplicates \<open>compileContent\<close> keeps every node of the content.\<close>

lemma compileContent_keeps:
  assumes "siblings a tk" "single ''right'' tk" "single ''center'' tk"
    "compileContent e a tk = (a', tk')"
  shows "set (forest tk) \<subseteq> set (forest tk')"
proof -
  obtain a2 S l r c where W: "wrappers e a tk = (a2, S, l, r, c)"
    by (cases "wrappers e a tk") auto
  define p where "p = relocate l r c"
  define h where "h = (\<lambda>n. if nid n = c then setKids (kids n @ filter p S) (mark1 l r c n)
                            else mark1 l r c n)"
  have res: "tk' = map h (filter (\<lambda>n. \<not> p n) S)"
    using compileContent_wrappers [OF assms(1) W] assms(4)
    by (simp_all add: moveInto_marks p_def h_def onNode_def comp_def)
  from wrappers_center [OF W assms(1)] obtain sc where
    sc: "sc \<in> set S" "nid sc = c" "matches ''DIV'' ''center'' sc" by auto
  have div: "nodeName sc = ''DIV''" using sc(3) by (simp add: matches_def)
  have keepc: "\<not> p sc" using sc(2) by (simp add: p_def relocate_def)
  have hc: "h sc \<in> set tk'" using sc(1) keepc by (simp add: res)
  have sub_hc: "subtree (h sc) = (nid sc, nodeName sc) # forest (kids sc @ filter p S)"
    using sc(2) subtree_setKids_div [of "mark1 l r c sc" "kids sc @ filter p S"] div
    by (simp add: h_def)
  have one: "set (subtree s) \<subseteq> set (forest tk')" if s: "s \<in> set S" for s
  proof (cases "p s")
    case True
    then have "s \<in> set (kids sc @ filter p S)" using s by simp
    then have "set (subtree s) \<subseteq> set (forest (kids sc @ filter p S))"
      by (rule forest_member)
    also have "\<dots> \<subseteq> set (subtree (h sc))" by (auto simp add: sub_hc)
    also have "\<dots> \<subseteq> set (forest tk')" using hc by (rule forest_member)
    finally show ?thesis .
  next
    case False
    then have in': "h s \<in> set tk'" using s by (simp add: res)
    have "set (subtree s) \<subseteq> set (subtree (h s))"
    proof (cases "nid s = c")
      case True
      then have "s = sc"
        using siblings_same_id [OF wrappers_siblings [OF W assms(1)] s sc(1)] sc(2) by simp
      then show ?thesis by (auto simp add: sub_hc subtree_root [of sc] forest_append)
    next
      case False
      then show ?thesis by (simp add: h_def)
    qed
    also have "\<dots> \<subseteq> set (forest tk')" using in' by (rule forest_member)
    finally show ?thesis .
  qed
  have "set tk \<subseteq> set S" using wrappers_single [OF W assms(1,2,3)] by simp
  then show ?thesis using one by (auto simp add: set_forest)
qed

lemma find_filter_hd: "filter P xs = x # ys \<Longrightarrow> find P xs = Some x"
  by (induction xs) (auto split: if_splits)

lemma find_filter_empty: "filter P xs = [] \<Longrightarrow> find P xs = None"
  by (auto simp add: find_None_iff filter_empty_conv)

lemma filter_toTop_ec:
  assumes "wrapperOrNew ''expandable-content'' a1 k1 = (a2, K, x)" "single ''expandable-content'' k1"
  shows "filter (toTop t) K = filter (toTop t) k1 \<and> set k1 \<subseteq> set K"
  using assms(1)
proof (cases rule: wrapperOrNew_cases)
  case New
  show ?thesis by (auto simp add: New toTop_def hasClass_def)
next
  case (One y)
  show ?thesis by (simp add: One)
next
  case (Two y0 y1 ys)
  show ?thesis using assms(2) by (simp add: Two single_def)
qed

lemma content_input_single:
  assumes "wellFormedNodes a0 k0" "wrapperOrNew ''top'' a0 k0 = (a1, k1, t)"
    "wrapperOrNew ''expandable-content'' a1 k1 = (a2, K, x)"
    "single ''top'' k0" "single ''expandable-content'' k0"
  shows "kidsOf t k1 @ filter (toTop t) K = topContent k0 \<and> set k0 \<subseteq> set K"
proof -
  note sib0 = wellFormedNodes_siblings [OF assms(1)]
  note ec = filter_toTop_ec [OF assms(3) single_after_top [OF assms(2,5)], of t]
  from assms(2) show ?thesis
  proof (cases rule: wrapperOrNew_cases)
    case New
    have lt: "n \<in> set k0 \<Longrightarrow> nid n \<noteq> a0" for n
      using sib0 by (auto simp add: siblings_def)
    have nomatch: "n \<in> set k0 \<Longrightarrow> \<not> matches ''DIV'' ''top'' n" for n
      using New(1) by (auto simp add: filter_empty_conv)
    have "filter (toTop t) k1 = filter (toTop t) k0"
      by (simp add: New toTop_def)
    also have "\<dots> = filter (\<lambda>n. \<not> matches ''DIV'' ''top'' n
          \<and> \<not> hasClass ''expandable-content'' n \<and> nodeName n \<noteq> ''ONS-RIPPLE'') k0"
      by (rule filter_cong) (use lt nomatch in \<open>auto simp add: toTop_def New(4)\<close>)
    finally have f: "filter (toTop t) k1 = filter (\<lambda>n. \<not> matches ''DIV'' ''top'' n
          \<and> \<not> hasClass ''expandable-content'' n \<and> nodeName n \<noteq> ''ONS-RIPPLE'') k0" .
    have k: "kidsOf t k1 = []" by (simp add: New kidsOf_def)
    have "set k0 \<subseteq> set k1" by (auto simp add: New)
    then show ?thesis
      using ec by (auto simp add: topContent_def find_filter_empty [OF New(1)] f k)
  next
    case (One tn)
    have tn: "tn \<in> set k0" "matches ''DIV'' ''top'' tn" using filter_in [OF One(1)] by simp_all
    have only: "n \<in> set k0 \<Longrightarrow> matches ''DIV'' ''top'' n \<Longrightarrow> n = tn" for n
    proof -
      assume "n \<in> set k0" "matches ''DIV'' ''top'' n"
      then have "n \<in> set (filter (matches ''DIV'' ''top'') k0)" by simp
      then show "n = tn" by (simp add: One(1))
    qed
    have same: "n \<in> set k0 \<Longrightarrow> nid n = nid tn \<Longrightarrow> n = tn" for n
      using siblings_same_id [OF sib0 _ tn(1)] by simp
    have "filter (toTop t) k1 = filter (\<lambda>n. \<not> matches ''DIV'' ''top'' n
          \<and> \<not> hasClass ''expandable-content'' n \<and> nodeName n \<noteq> ''ONS-RIPPLE'') k0"
      unfolding One(3)
      by (rule filter_cong) (use only same tn(2) in \<open>auto simp add: toTop_def One(4)\<close>)
    moreover have "kidsOf t k1 = kids tn"
      using kidsOf_in [OF sib0 tn(1)] by (simp add: One)
    ultimately show ?thesis
      using ec by (simp add: topContent_def find_filter_hd [OF One(1)] One(3))
  next
    case (Two y0 y1 ys)
    then show ?thesis using assms(4) by (simp add: single_def)
  qed
qed

lemma expandable_keeps:
  assumes "expandable this" "wellFormedNodes (allocated this) (childNodes this)"
    "single ''top'' (childNodes this)" "single ''expandable-content'' (childNodes this)"
    "single ''right'' (topContent (childNodes this))"
    "single ''center'' (topContent (childNodes this))"
  shows "set (forest (childNodes this)) \<subseteq> set (forest (childNodes (compileStructure this)))"
proof -
  let ?s = "compileStructure this"
  note wf = assms(2)
  note sib0 = wellFormedNodes_siblings [OF wf]
  obtain a1 k1 t where T: "wrapperOrNew ''top'' (allocated this) (childNodes this) = (a1, k1, t)"
    by (cases "wrapperOrNew ''top'' (allocated this) (childNodes this)") auto
  obtain a2 K x where X: "wrapperOrNew ''expandable-content'' a1 k1 = (a2, K, x)"
    by (cases "wrapperOrNew ''expandable-content'' a1 k1") auto
  obtain a3 tk where C: "compileContent True a2 (kidsOf t k1 @ filter (toTop t) K) = (a3, tk)"
    by (cases "compileContent True a2 (kidsOf t k1 @ filter (toTop t) K)") auto
  note chT = wrapperOrNew_changed [OF T sib0]
  have sib1: "siblings a1 k1" using changed_siblings [OF chT sib0] .
  note chX = wrapperOrNew_changed [OF X sib1]
  from wrapperOrNew_id [OF T sib0] obtain t0 where
    t0: "t < a1" "t0 \<in> set k1" "nid t0 = t" "matches ''DIV'' ''top'' t0" by auto
  note inp = content_input_single [OF wf T X assms(3,4)]
  have input: "kidsOf t k1 @ filter (toTop t) K = topContent (childNodes this)"
    and sub: "set (childNodes this) \<subseteq> set K"
    using inp by simp_all
  note insib = content_input_siblings [OF wf T X]
  have keeps: "set (forest (kidsOf t k1 @ filter (toTop t) K)) \<subseteq> set (forest tk)"
    using compileContent_keeps [OF insib _ _ C] assms(5,6) unfolding input by simp
  note kids = expandable_children(1) [OF assms(1) sib0 T X C]
  from expandable_top_present [OF assms(1) sib0 T X C assms(4)] obtain tn where
    tn: "tn \<in> set (childNodes ?s)" "nid tn = t" by auto
  have ktn: "kids tn = tk"
    using expandable_top_node [OF assms(1) wf T X C tn] by simp
  have tk_in: "set (forest tk) \<subseteq> set (forest (childNodes ?s))"
    using kids_in_forest [OF tn(1)] by (simp add: ktn)
  have one: "set (subtree n) \<subseteq> set (forest (childNodes ?s))" if n: "n \<in> set (childNodes this)" for n
  proof (cases "toTop t n")
    case True
    then have "n \<in> set (kidsOf t k1 @ filter (toTop t) K)" using n sub by auto
    then have "set (subtree n) \<subseteq> set (forest (kidsOf t k1 @ filter (toTop t) K))"
      by (rule forest_member)
    then show ?thesis using keeps tk_in by blast
  next
    case False
    let ?g = "if nid n = t then setKids tk (markTop t x n) else markTop t x n"
    have "n \<in> set (filter (\<lambda>n. \<not> toTop t n) K)" using False n sub by auto
    then have g: "?g \<in> set (childNodes ?s)" unfolding kids by force
    have "set (subtree n) \<subseteq> set (subtree ?g)"
    proof (cases "nid n = t")
      case True
      have "n \<in> set k1" using changed_origin [OF chX, of n] n sub True t0(1) by auto
      then have nt: "n = t0" using siblings_same_id [OF sib1 _ t0(2)] True t0(3) by simp
      then have div: "nodeName n = ''DIV''" using t0(4) by (simp add: matches_def)
      have "kids n = kidsOf t k1" using kidsOf_in [OF sib1 t0(2)] nt t0(3) by simp
      then have "set (forest (kids n)) \<subseteq> set (forest tk)"
        using keeps by (simp add: forest_append)
      moreover have "subtree ?g = (nid n, nodeName n) # forest tk"
        using True subtree_setKids_div [of "markTop t x n" tk] div by simp
      ultimately show ?thesis by (auto simp add: subtree_root [of n])
    next
      case False
      then show ?thesis by simp
    qed
    also have "\<dots> \<subseteq> set (forest (childNodes ?s))" using g by (rule forest_member)
    finally show ?thesis .
  qed
  then show ?thesis by (auto simp add: set_forest)
qed

section \<open>Compiling a list item twice\<close>

lemma compileContent_le:
  assumes "siblings a tk" "compileContent e a tk = (a', tk')"
  shows "a \<le> a'"
proof -
  obtain a2 S l r c where W: "wrappers e a tk = (a2, S, l, r, c)"
    by (cases "wrappers e a tk") auto
  from W obtain a1 S1 where st: "rightWrapper e a tk = (a1, S1, r)"
    "wrapperOrNew ''center'' a1 S1 = (a2, S, c)"
    by (rule wrappers_steps)
  note chR = rightWrapper_changed [OF st(1) assms(1)]
  note chC = wrapperOrNew_changed [OF st(2) changed_siblings [OF chR assms(1)]]
  have "a' = a2" using compileContent_wrappers [OF assms(1) W] assms(2) by simp
  then show ?thesis using changed_le [OF chR] changed_le [OF chC] by simp
qed

lemma single_top_wrappers:
  assumes "wrapperOrNew ''top'' a0 k0 = (a1, k1, t)"
    "wrapperOrNew ''expandable-content'' a1 k1 = (a2, K, x)"
    "single ''top'' k0" "single ''expandable-content'' k0"
  shows "(\<exists>t0. filter (matches ''DIV'' ''top'') K = [t0] \<and> nid t0 = t)
       \<and> (\<exists>x0. filter (matches ''DIV'' ''expandable-content'') K = [x0] \<and> nid x0 = x)"
proof -
  have T: "(\<exists>t0. filter (matches ''DIV'' ''top'') k1 = [t0] \<and> nid t0 = t)"
    using assms(1)
  proof (cases rule: wrapperOrNew_cases)
    case New
    then show ?thesis by (simp add: matches_def)
  next
    case (One y)
    then show ?thesis by simp
  next
    case (Two y0 y1 ys)
    then show ?thesis using assms(3) by (simp add: single_def)
  qed
  note s1 = single_after_top [OF assms(1,4)]
  from assms(2) show ?thesis
  proof (cases rule: wrapperOrNew_cases)
    case New
    then show ?thesis using T by (simp add: matches_def)
  next
    case (One y)
    then show ?thesis using T by simp
  next
    case (Two y0 y1 ys)
    then show ?thesis using s1 by (simp add: single_def)
  qed
qed

lemma setKids_idem: "setKids ks (setKids ks n) = setKids ks n"
  by (cases n) simp_all

lemma markTop_idem: "markTop t x (markTop t x n) = markTop t x n"
  by (auto simp add: markTop_def Let_def addClass_idem addClass_twice_other)

lemma markTop_setKids: "markTop t x (setKids ks n) = setKids ks (markTop t x n)"
  by (auto simp add: markTop_def Let_def addClass_setKids)

lemma matches_markTop:
  "cls \<noteq> ''list-item__top'' \<Longrightarrow> cls \<noteq> ''list-item__expandable-content''
   \<Longrightarrow> matches tag cls (markTop t x n) = matches tag cls n"
  by (simp add: markTop_def Let_def matches_addClass_other)

lemma expandable_again:
  assumes "expandable this" "wellFormedNodes (allocated this) (childNodes this)"
    "single ''top'' (childNodes this)" "single ''expandable-content'' (childNodes this)"
    "single ''right'' (topContent (childNodes this))"
    "single ''center'' (topContent (childNodes this))"
  shows "compileStructure (compileStructure this) = compileStructure this"
proof -
  let ?s = "compileStructure this"
  note wf = assms(2)
  note sib0 = wellFormedNodes_siblings [OF wf]
  obtain a1 k1 t where T: "wrapperOrNew ''top'' (allocated this) (childNodes this) = (a1, k1, t)"
    by (cases "wrapperOrNew ''top'' (allocated this) (childNodes this)") auto
  obtain a2 K x where X: "wrapperOrNew ''expandable-content'' a1 k1 = (a2, K, x)"
    by (cases "wrapperOrNew ''expandable-content'' a1 k1") auto
  obtain a3 tk where C: "compileContent True a2 (kidsOf t k1 @ filter (toTop t) K) = (a3, tk)"
    by (cases "compileContent True a2 (kidsOf t k1 @ filter (toTop t) K)") auto
  note chT = wrapperOrNew_changed [OF T sib0]
  have sib1: "siblings a1 k1" using changed_siblings [OF chT sib0] .
  note chX = wrapperOrNew_changed [OF X sib1]
  have sibK: "siblings a2 K" using changed_siblings [OF chX sib1] .
  note insib = content_input_siblings [OF wf T X]
  have input: "kidsOf t k1 @ filter (toTop t) K = topContent (childNodes this)"
    using content_input_single [OF wf T X assms(3,4)] by simp
  have le: "a2 \<le> a3" using compileContent_le [OF insib C] .
  have again: "compileContent True a3 tk = (a3, tk)"
    using compileContent_again [OF insib _ _ C] assms(5,6) unfolding input by simp
  define g where "g = (\<lambda>k. if nid k = t then setKids tk (markTop t x k) else markTop t x k)"
  define k' where "k' = map g (filter (\<lambda>n. \<not> toTop t n) K)"
  have g_same: "nid (g n) = nid n" "nodeName (g n) = nodeName n" for n
    by (simp_all add: g_def)
  have g_toTop: "toTop t (g n) = toTop t n" for n by (simp add: g_def)
  have g_match: "matches ''DIV'' cls (g n) = matches ''DIV'' cls n"
    if "cls = ''top'' \<or> cls = ''expandable-content''" for cls n
    using that by (auto simp add: g_def matches_markTop)
  note ch = expandable_children [OF assms(1) sib0 T X C]
  have fields: "childNodes ?s = k'" "topElement ?s = Some t"
    "expandableContentElement ?s = Some x" "allocated ?s = a3"
    using ch by (simp_all add: k'_def g_def)
  have exp': "expandable ?s"
    using assms(1) compileStructure_expandable [OF assms(1) sib0 T X C]
    by (simp add: expandable_def hasAttribute_def)
  have sib': "siblings a3 k'"
    using siblings_mono [OF siblings_filter [OF sibK, of "\<lambda>n. \<not> toTop t n"] le]
    by (simp add: k'_def siblings_def g_same comp_def)
  from single_top_wrappers [OF T X assms(3,4)] obtain t0 x0 where
    t0: "filter (matches ''DIV'' ''top'') K = [t0]" "nid t0 = t" and
    x0: "filter (matches ''DIV'' ''expandable-content'') K = [x0]" "nid x0 = x" by auto
  have t0K: "t0 \<in> set K" "matches ''DIV'' ''top'' t0" using filter_in [OF t0(1)] by simp_all
  have x0K: "x0 \<in> set K" "matches ''DIV'' ''expandable-content'' x0"
    using filter_in [OF x0(1)] by simp_all
  have nt: "\<not> toTop t t0" using t0(2) by (simp add: toTop_def)
  have nx: "\<not> toTop t x0" using x0K(2) by (simp add: toTop_def matches_def hasClass_def)
  have ft: "filter (matches ''DIV'' ''top'') k' = [g t0]"
  proof -
    have "filter (matches ''DIV'' ''top'') k'
            = map g (filter (\<lambda>n. \<not> toTop t n) (filter (matches ''DIV'' ''top'') K))"
      by (simp add: k'_def filter_map_same g_match conj_commute)
    then show ?thesis using nt by (simp add: t0(1))
  qed
  have fx: "filter (matches ''DIV'' ''expandable-content'') k' = [g x0]"
  proof -
    have "filter (matches ''DIV'' ''expandable-content'') k'
            = map g (filter (\<lambda>n. \<not> toTop t n) (filter (matches ''DIV'' ''expandable-content'') K))"
      by (simp add: k'_def filter_map_same g_match conj_commute)
    then show ?thesis using nx by (simp add: x0(1))
  qed
  have T': "wrapperOrNew ''top'' a3 k' = (a3, k', t)"
    by (simp add: wrapperOrNew_def ft g_same t0(2))
  have X': "wrapperOrNew ''expandable-content'' a3 k' = (a3, k', x)"
    by (simp add: wrapperOrNew_def fx g_same x0(2))
  have div: "nodeName t0 = ''DIV''" using t0K(2) by (simp add: matches_def)
  have gt0: "g t0 \<in> set k'" using t0K(1) nt by (simp add: k'_def)
  have kt: "kidsOf t k' = tk"
  proof -
    have "kidsOf (nid (g t0)) k' = kids (g t0)" using kidsOf_in [OF sib' gt0] .
    moreover have "kids (g t0) = tk"
      using kids_setKids [of "markTop t x t0" tk] div by (simp add: g_def t0(2))
    ultimately show ?thesis by (simp add: g_same t0(2))
  qed
  have none: "filter (toTop t) k' = []" "filter (\<lambda>n. \<not> toTop t n) k' = k'"
    by (simp_all add: k'_def filter_map_same g_toTop filter_empty_conv)
  have C': "compileContent True a3 (kidsOf t k' @ filter (toTop t) k') = (a3, tk)"
    by (simp add: kt none again)
  have mg: "markTop t x (g n) = g n" for n
    by (simp add: g_def markTop_setKids markTop_idem)
  have m: "markWrapper ''list-item__expandable-content'' (Some x)
             (markWrapper ''list-item__top'' (Some t) k') = k'"
    unfolding markTop_map by (simp add: k'_def mg)
  have o: "onNode t (setKids tk) k' = k'"
  proof (rule onNode_noop)
    fix n
    assume "n \<in> set k'" "nid n = t"
    then obtain k where "n = g k" "nid k = t" by (auto simp add: k'_def g_same)
    then show "setKids tk n = n" by (simp add: g_def setKids_idem)
  qed
  have "compileStructure ?s
          = ?s\<lparr>childNodes := k', topElement := Some t,
                expandableContentElement := Some x, allocated := a3\<rparr>"
    using compileStructure_expandable [of ?s a3 k' t a3 k' x a3 tk] exp' sib' T' X' C'
    by (simp add: fields none m o)
  also have "\<dots> = ?s" using fields by simp
  finally show ?thesis .
qed

lemma compileStructure_twice:
  assumes "wellFormed this" "noDuplicates this"
  shows "compileStructure (compileStructure this) = compileStructure this"
proof (cases "expandable this")
  case True
  with assms(2) show ?thesis
    using expandable_again [OF True assms(1) [unfolded wellFormed_def]]
    by (simp add: noDuplicates_def)
next
  case False
  let ?s = "compileStructure this"
  note wf = assms(1) [unfolded wellFormed_def]
  obtain a' tk' where C: "compileContent False (allocated this) (childNodes this) = (a', tk')"
    by (cases "compileContent False (allocated this) (childNodes this)") auto
  from False assms(2) have si: "single ''right'' (childNodes this)" "single ''center'' (childNodes this)"
    by (simp_all add: noDuplicates_def)
  have s: "?s = this\<lparr>childNodes := tk', allocated := a'\<rparr>"
    using compileStructure_plain [OF False C] .
  have e: "\<not> expandable ?s" using False by (simp add: s expandable_def hasAttribute_def)
  have C': "compileContent False (allocated ?s) (childNodes ?s) = (a', tk')"
    using compileContent_again [OF wellFormedNodes_siblings [OF wf] si C] by (simp add: s)
  show ?thesis
    using compileStructure_plain [OF e C'] by (simp add: s)
qed

section \<open>Duplicate wrappers\<close>

lemma removed_gone:
  assumes "distinct (map fst (forest ks))" "n \<in> set ks"
    "\<And>m. m \<in> set ks' \<Longrightarrow> m \<in> set ks \<or> nid n \<notin> fst ` set (subtree m)"
  shows "nid n \<notin> fst ` set (forest (removeNode (nid n) ks'))"
proof
  assume "nid n \<in> fst ` set (forest (removeNode (nid n) ks'))"
  then obtain p where p: "p \<in> set (forest (removeNode (nid n) ks'))" "fst p = nid n" by auto
  then obtain m where m: "m \<in> set ks'" "nid m \<noteq> nid n" "p \<in> set (subtree m)"
    by (auto simp add: set_forest removeNode_def)
  then have in_sub: "nid n \<in> fst ` set (subtree m)" using p(2) by force
  with assms(3) [OF m(1)] have mk: "m \<in> set ks" by simp
  from m(3) have "p = (nid m, nodeName m) \<or> p \<in> set (forest (kids m))"
    by (simp add: subtree_root [of m])
  then show False
  proof
    assume "p = (nid m, nodeName m)"
    then show False using p(2) m(2) by simp
  next
    assume "p \<in> set (forest (kids m))"
    then have "nid n \<in> fst ` set (forest (kids m))" using p(2) by force
    then show False using kids_apart [OF assms(1) mk assms(2)] m(2) by simp
  qed
qed

lemma rightWrapper_forest:
  assumes "rightWrapper e a ks = (a', ks', r)" "p \<in> set (forest ks')"
  shows "p \<in> set (forest ks) \<or> a \<le> fst p"
  using assms(1)
proof (cases rule: rightWrapper_cases)
  case New
  then show ?thesis using assms(2) by (auto simp add: forest_Cons subtree_root)
next
  case Absent
  then show ?thesis using assms(2) by simp
next
  case (One x)
  then show ?thesis using assms(2) by simp
next
  case (Two x0 x1 xs)
  have "set (removeNode (nid x0) ks) \<subseteq> set ks" by (auto simp add: removeNode_def)
  from forest_mono [OF this] Two assms(2) show ?thesis by auto
qed

lemma wrapperOrNew_forest:
  assumes "wrapperOrNew cls a ks = (a', ks', w)" "p \<in> set (forest ks')"
  shows "p \<in> set (forest ks) \<or> a \<le> fst p"
  using assms(1)
proof (cases rule: wrapperOrNew_cases)
  case New
  then show ?thesis using assms(2) by (auto simp add: forest_Cons subtree_root)
next
  case (One x)
  then show ?thesis using assms(2) by simp
next
  case (Two x0 x1 xs)
  have "set (removeNode (nid x0) ks) \<subseteq> set ks" by (auto simp add: removeNode_def)
  from forest_mono [OF this] Two assms(2) show ?thesis by auto
qed

lemma subtree_setKids_sub:
  "set (subtree (setKids ks n)) \<subseteq> insert (nid n, nodeName n) (set (forest ks) \<union> set (forest (kids n)))"
  by (cases n) (auto simp add: subtree_root)

lemma moved_forest:
  assumes "wrappers e a tk = (a2, S, l, r, c)" "siblings a tk"
  shows "set (forest (moveInto c (relocate l r c) (marks l r c S))) \<subseteq> set (forest S)"
proof
  fix p assume "p \<in> set (forest (moveInto c (relocate l r c) (marks l r c S)))"
  then obtain g where g: "g \<in> set (moveInto c (relocate l r c) (marks l r c S))" "p \<in> set (subtree g)"
    by (auto simp add: set_forest)
  from g(1) obtain s where s: "s \<in> set S" "\<not> relocate l r c s"
    "g = (if nid (mark1 l r c s) = c
          then setKids (kids (mark1 l r c s) @ filter (relocate l r c) S) (mark1 l r c s)
          else mark1 l r c s)"
    unfolding moveInto_marks by (auto simp add: set_onNode)
  show "p \<in> set (forest S)"
  proof (cases "nid s = c")
    case True
    then have "g = setKids (kids s @ filter (relocate l r c) S) (mark1 l r c s)" using s(3) by simp
    then have "p \<in> insert (nid s, nodeName s)
        (set (forest (kids s @ filter (relocate l r c) S)) \<union> set (forest (kids s)))"
      using g(2) subtree_setKids_sub [of "kids s @ filter (relocate l r c) S" "mark1 l r c s"] by auto
    moreover have "(nid s, nodeName s) \<in> set (forest S)" using s(1) by (rule root_in_forest)
    moreover have "set (forest (kids s)) \<subseteq> set (forest S)" using s(1) by (rule kids_in_forest)
    moreover have "set (forest (filter (relocate l r c) S)) \<subseteq> set (forest S)"
      by (rule forest_mono) auto
    ultimately show ?thesis by (auto simp add: forest_append)
  next
    case False
    then have "subtree g = subtree s" using s(3) by simp
    then show ?thesis using g(2) forest_member [OF s(1)] by auto
  qed
qed

lemma compileContent_forest:
  assumes "siblings a tk" "compileContent e a tk = (a', tk')" "p \<in> set (forest tk')"
  shows "p \<in> set (forest tk) \<or> a \<le> fst p"
proof -
  obtain a2 S l r c where W: "wrappers e a tk = (a2, S, l, r, c)"
    by (cases "wrappers e a tk") auto
  from W obtain a1 S1 where st: "rightWrapper e a tk = (a1, S1, r)"
    "wrapperOrNew ''center'' a1 S1 = (a2, S, c)"
    by (rule wrappers_steps)
  have "tk' = moveInto c (relocate l r c) (marks l r c S)"
    using compileContent_wrappers [OF assms(1) W] assms(2) by simp
  then have "p \<in> set (forest S)" using moved_forest [OF W assms(1)] assms(3) by auto
  then have "p \<in> set (forest S1) \<or> a1 \<le> fst p" by (rule wrapperOrNew_forest [OF st(2)])
  moreover have "a \<le> a1" using changed_le [OF rightWrapper_changed [OF st(1) assms(1)]] .
  ultimately show ?thesis using rightWrapper_forest [OF st(1), of p] by auto
qed


lemma hasClass_right_mark1:
  "nodeName n = ''DIV'' \<Longrightarrow> hasClass ''list-item__right'' (mark1 l (Some (nid n)) c n)"
  by (simp add: mark1_def Let_def hasClass_addClass_div hasClass_addClass_mono)

lemma moved_kept:
  assumes "s \<in> set S" "\<not> relocate l r c s"
  shows "\<exists>g \<in> set (moveInto c (relocate l r c) (marks l r c S)).
           nid g = nid s \<and> nodeName g = nodeName s
         \<and> (\<forall>cls. hasClass cls (mark1 l r c s) \<longrightarrow> hasClass cls g)"
proof -
  let ?f = "\<lambda>t. setKids (kids t @ filter (relocate l r c) S) t"
  let ?g = "if nid (mark1 l r c s) = c then ?f (mark1 l r c s) else mark1 l r c s"
  have "mark1 l r c s \<in> set (map (mark1 l r c) (filter (\<lambda>n. \<not> relocate l r c n) S))"
    using assms by simp
  then have "?g \<in> set (moveInto c (relocate l r c) (marks l r c S))"
    unfolding moveInto_marks set_onNode by (rule imageI)
  moreover have "nid ?g = nid s \<and> nodeName ?g = nodeName s
         \<and> (\<forall>cls. hasClass cls (mark1 l r c s) \<longrightarrow> hasClass cls ?g)" by simp
  ultimately show ?thesis by blast
qed

lemma rightWrapper_member:
  assumes "rightWrapper e a ks = (a', ks', r)" "m \<in> set ks'"
  shows "m \<in> set ks \<or> (\<forall>p \<in> set (subtree m). a \<le> fst p)"
  using assms(1)
proof (cases rule: rightWrapper_cases)
  case New
  then show ?thesis using assms(2) by auto
next
  case Absent
  then show ?thesis using assms(2) by simp
next
  case (One x)
  then show ?thesis using assms(2) by simp
next
  case (Two x0 x1 xs)
  then show ?thesis using assms(2) by (simp add: removeNode_def)
qed

lemma wrapperOrNew_member:
  assumes "wrapperOrNew cls a ks = (a', ks', w)" "m \<in> set ks'"
  shows "m \<in> set ks \<or> (\<forall>p \<in> set (subtree m). a \<le> fst p)"
  using assms(1)
proof (cases rule: wrapperOrNew_cases)
  case New
  then show ?thesis using assms(2) by auto
next
  case (One x)
  then show ?thesis using assms(2) by simp
next
  case (Two x0 x1 xs)
  then show ?thesis using assms(2) by (simp add: removeNode_def)
qed

text \<open>
  Of two or more \<open>div.right\<close> the first is removed and the second becomes the right
  wrapper, unless it is removed in turn as the first of several \<open>div.center\<close>.
\<close>

lemma right_duplicate:
  assumes wf: "wellFormedNodes a tk"
    and f: "filter (matches ''DIV'' ''right'') tk = r0 # r1 # rs"
    and nc: "\<not> matches ''DIV'' ''center'' r1"
    and C: "compileContent e a tk = (a', tk')"
  shows "nid r0 \<notin> fst ` set (forest tk')
       \<and> (\<exists>n \<in> set tk'. nid n = nid r1 \<and> hasClass ''list-item__right'' n)"
proof -
  note sib = wellFormedNodes_siblings [OF wf]
  obtain a2 S l r c where W: "wrappers e a tk = (a2, S, l, r, c)"
    by (cases "wrappers e a tk") auto
  from W obtain a1 S1 where st: "rightWrapper e a tk = (a1, S1, r)"
    "wrapperOrNew ''center'' a1 S1 = (a2, S, c)"
    by (rule wrappers_steps)
  have tk': "tk' = moveInto c (relocate l r c) (marks l r c S)"
    using compileContent_wrappers [OF sib W] C by simp
  have r0: "r0 \<in> set tk" and r1: "r1 \<in> set tk" "matches ''DIV'' ''right'' r1"
    using filter_in [OF f] filter_in2 [OF f] by simp_all
  have ne: "nid r0 \<noteq> nid r1" using filter_two_distinct(1) [OF f] sib by (simp add: siblings_def)
  from st(1) have "a1 = a \<and> S1 = removeNode (nid r0) tk \<and> r = Some (nid r1)"
    by (cases rule: rightWrapper_cases) (simp_all add: f)
  then have two: "a1 = a" "S1 = removeNode (nid r0) tk" "r = Some (nid r1)" by simp_all
  note sib1 = changed_siblings [OF rightWrapper_changed [OF st(1) sib] sib]
  have lt: "nid r0 < a" using sib r0 by (auto simp add: siblings_def)
  have gone1: "nid r0 \<notin> fst ` set (forest S1)"
    unfolding two(2) using wf r0 by (intro removed_gone [of tk]) (simp_all add: wellFormedNodes_def)
  have gone: "nid r0 \<notin> fst ` set (forest tk')"
  proof
    assume "nid r0 \<in> fst ` set (forest tk')"
    then obtain p where p: "p \<in> set (forest tk')" "fst p = nid r0" by auto
    then have "p \<in> set (forest S)" using moved_forest [OF W sib] tk' by auto
    then have "p \<in> set (forest S1) \<or> a1 \<le> fst p" by (rule wrapperOrNew_forest [OF st(2)])
    then show False using gone1 p(2) lt two(1) by force
  qed
  have "r1 \<in> set S1" using r1 ne by (simp add: two(2) removeNode_def)
  then have inS: "r1 \<in> set S"
    using changed_kept [OF wrapperOrNew_changed [OF st(2) sib1], of r1] nc by simp
  have "\<not> relocate l r c r1" by (simp add: relocate_def two(3))
  from moved_kept [OF inS this] obtain g where
    g: "g \<in> set tk'" "nid g = nid r1" "\<forall>cls. hasClass cls (mark1 l r c r1) \<longrightarrow> hasClass cls g"
    unfolding tk' by blast
  have "hasClass ''list-item__right'' (mark1 l r c r1)"
    unfolding two(3) using r1(2) by (intro hasClass_right_mark1) (simp add: matches_def)
  with g have "\<exists>n \<in> set tk'. nid n = nid r1 \<and> hasClass ''list-item__right'' n" by blast
  with gone show ?thesis by (rule conjI)
qed

text \<open>The same for \<open>div.center\<close>, when neither of the first two is a \<open>div.right\<close> as well.\<close>

lemma center_duplicate:
  assumes wf: "wellFormedNodes a tk"
    and f: "filter (matches ''DIV'' ''center'') tk = c0 # c1 # cs"
    and nr: "\<not> matches ''DIV'' ''right'' c0" "\<not> matches ''DIV'' ''right'' c1"
    and C: "compileContent e a tk = (a', tk')"
  shows "nid c0 \<notin> fst ` set (forest tk')
       \<and> (\<exists>n \<in> set tk'. nid n = nid c1 \<and> hasClass ''list-item__center'' n)"
proof -
  note sib = wellFormedNodes_siblings [OF wf]
  obtain a2 S l r c where W: "wrappers e a tk = (a2, S, l, r, c)"
    by (cases "wrappers e a tk") auto
  from W obtain a1 S1 where st: "rightWrapper e a tk = (a1, S1, r)"
    "wrapperOrNew ''center'' a1 S1 = (a2, S, c)"
    by (rule wrappers_steps)
  have tk': "tk' = moveInto c (relocate l r c) (marks l r c S)"
    using compileContent_wrappers [OF sib W] C by simp
  have c0: "c0 \<in> set tk" "matches ''DIV'' ''center'' c0"
    and c1: "c1 \<in> set tk" "matches ''DIV'' ''center'' c1"
    using filter_in [OF f] filter_in2 [OF f] by simp_all
  note chR = rightWrapper_changed [OF st(1) sib]
  note sib1 = changed_siblings [OF chR sib]
  have le: "a \<le> a1" using changed_le [OF chR] .
  have lt: "nid c0 < a" using sib c0 by (auto simp add: siblings_def)
  obtain new gone where S1: "S1 = new @ filter (\<lambda>n. nid n \<notin> set gone) tk"
    and new: "\<forall>n \<in> set new. a \<le> nid n \<and> nid n < a1 \<and> nodeName n = ''DIV'' \<and> classes n = [''right'']"
    and gn: "\<forall>n \<in> set tk. nid n \<in> set gone \<longrightarrow> matches ''DIV'' ''right'' n"
    using chR unfolding changed_def by blast
  have fnew: "filter (matches ''DIV'' ''center'') new = []"
    using new by (auto simp add: filter_empty_conv matches_def)
  have "filter (matches ''DIV'' ''center'') (filter (\<lambda>n. nid n \<notin> set gone) tk)
      = filter (\<lambda>n. nid n \<notin> set gone) (c0 # c1 # cs)"
    unfolding f [symmetric] by (simp add: conj_commute)
  also have "\<dots> = c0 # c1 # filter (\<lambda>n. nid n \<notin> set gone) cs"
    using gn c0 c1 nr by auto
  finally have f1: "filter (matches ''DIV'' ''center'') S1
      = c0 # c1 # filter (\<lambda>n. nid n \<notin> set gone) cs"
    using fnew by (simp add: S1)
  from st(2) have "a2 = a1 \<and> S = removeNode (nid c0) S1 \<and> c = nid c1"
    by (cases rule: wrapperOrNew_cases) (simp_all add: f1)
  then have two: "a2 = a1" "S = removeNode (nid c0) S1" "c = nid c1" by simp_all
  have ne: "nid c0 \<noteq> nid c1" using filter_two_distinct(1) [OF f1] sib1 by (simp add: siblings_def)
  have goneS: "nid c0 \<notin> fst ` set (forest S)"
    unfolding two(2)
  proof (rule removed_gone [of tk])
    show "distinct (map fst (forest tk))" using wf by (simp add: wellFormedNodes_def)
    show "c0 \<in> set tk" by (rule c0)
    fix m assume "m \<in> set S1"
    then have "m \<in> set tk \<or> (\<forall>p \<in> set (subtree m). a \<le> fst p)"
      by (rule rightWrapper_member [OF st(1)])
    then show "m \<in> set tk \<or> nid c0 \<notin> fst ` set (subtree m)" using lt by force
  qed
  have gone: "nid c0 \<notin> fst ` set (forest tk')"
    using moved_forest [OF W sib] goneS unfolding tk' by auto
  have "c1 \<in> set S1" using filter_in2 [OF f1] by simp
  then have inS: "c1 \<in> set S" using ne by (simp add: two(2) removeNode_def)
  have "\<not> relocate l r c c1" by (simp add: relocate_def two(3))
  from moved_kept [OF inS this] obtain g where
    g: "g \<in> set tk'" "nid g = nid c1" "\<forall>cls. hasClass cls (mark1 l r c c1) \<longrightarrow> hasClass cls g"
    unfolding tk' by blast
  have "hasClass ''list-item__center'' (mark1 l r c c1)"
    unfolding two(3) using c1(2) by (intro hasClass_center_mark1) (simp add: matches_def)
  with g have "\<exists>n \<in> set tk'. nid n = nid c1 \<and> hasClass ''list-item__center'' n" by blast
  with gone show ?thesis by (rule conjI)
qed


lemma kidsOf_forest: "set (forest (kidsOf i ks)) \<subseteq> set (forest ks)"
proof (cases "find (\<lambda>n. nid n = i) ks")
  case None
  then show ?thesis by (simp add: kidsOf_def)
next
  case (Some n)
  then have "n \<in> set ks" by (auto simp add: find_Some_iff)
  then show ?thesis using Some kids_in_forest [of n ks] by (simp add: kidsOf_def)
qed

lemma hasClass_markTop_content:
  "nodeName n = ''DIV'' \<Longrightarrow> hasClass ''list-item__expandable-content'' (markTop t (nid n) n)"
  by (simp add: markTop_def Let_def hasClass_addClass_div)

lemma expandable_forest:
  assumes "expandable this" "wellFormedNodes (allocated this) (childNodes this)"
    "wrapperOrNew ''top'' (allocated this) (childNodes this) = (a1, k1, t)"
    "wrapperOrNew ''expandable-content'' a1 k1 = (a2, K, x)"
    "compileContent True a2 (kidsOf t k1 @ filter (toTop t) K) = (a3, tk)"
    "p \<in> set (forest (childNodes (compileStructure this)))"
  shows "p \<in> set (forest K) \<or> p \<in> set (forest (kidsOf t k1)) \<or> allocated this \<le> fst p"
proof -
  note sib = wellFormedNodes_siblings [OF assms(2)]
  note chT = wrapperOrNew_changed [OF assms(3) sib]
  note sib1 = changed_siblings [OF chT sib]
  note chX = wrapperOrNew_changed [OF assms(4) sib1]
  have le: "allocated this \<le> a2" using changed_le [OF chT] changed_le [OF chX] by simp
  note kids = expandable_children(1) [OF assms(1) sib assms(3,4,5)]
  from assms(6) obtain g where g: "g \<in> set (childNodes (compileStructure this))" "p \<in> set (subtree g)"
    by (auto simp add: set_forest)
  from g(1) obtain k where k: "k \<in> set K"
    "g = (if nid k = t then setKids tk (markTop t x k) else markTop t x k)"
    unfolding kids by auto
  show ?thesis
  proof (cases "nid k = t")
    case True
    then have "p \<in> insert (nid k, nodeName k) (set (forest tk) \<union> set (forest (kids k)))"
      using g(2) k(2) subtree_setKids_sub [of tk "markTop t x k"] by auto
    moreover have "(nid k, nodeName k) \<in> set (forest K)" using k(1) by (rule root_in_forest)
    moreover have "set (forest (kids k)) \<subseteq> set (forest K)" using k(1) by (rule kids_in_forest)
    moreover have "p \<in> set (forest tk) \<Longrightarrow>
        p \<in> set (forest (kidsOf t k1 @ filter (toTop t) K)) \<or> a2 \<le> fst p"
      by (rule compileContent_forest [OF content_input_siblings [OF assms(2,3,4)] assms(5)])
    moreover have "set (forest (filter (toTop t) K)) \<subseteq> set (forest K)"
      by (rule forest_mono) auto
    ultimately show ?thesis using le by (auto simp add: forest_append)
  next
    case False
    then have "subtree g = subtree k" using k(2) by simp
    then show ?thesis using g(2) forest_member [OF k(1)] by auto
  qed
qed

text \<open>
  Of two or more \<open>div.top\<close> children of an expandable item the first is removed and the
  second becomes the top wrapper, unless it is removed in turn as the first of several
  \<open>div.expandable-content\<close>.
\<close>

lemma top_duplicate:
  assumes ex: "expandable this" and wf: "wellFormed this"
    and f: "filter (matches ''DIV'' ''top'') (childNodes this) = t0 # t1 # ts"
    and nx: "\<not> matches ''DIV'' ''expandable-content'' t1"
  shows "nid t0 \<notin> fst ` set (forest (childNodes (compileStructure this)))
       \<and> topElement (compileStructure this) = Some (nid t1)
       \<and> (\<exists>n \<in> set (childNodes (compileStructure this)).
              nid n = nid t1 \<and> hasClass ''list-item__top'' n)"
proof -
  let ?s = "compileStructure this"
  note wfn = wf [unfolded wellFormed_def]
  note sib = wellFormedNodes_siblings [OF wfn]
  obtain a1 k1 t where W1: "wrapperOrNew ''top'' (allocated this) (childNodes this) = (a1, k1, t)"
    by (cases "wrapperOrNew ''top'' (allocated this) (childNodes this)") auto
  obtain a2 K x where W2: "wrapperOrNew ''expandable-content'' a1 k1 = (a2, K, x)"
    by (cases "wrapperOrNew ''expandable-content'' a1 k1") auto
  obtain a3 tk where C: "compileContent True a2 (kidsOf t k1 @ filter (toTop t) K) = (a3, tk)"
    by (cases "compileContent True a2 (kidsOf t k1 @ filter (toTop t) K)") auto
  note chT = wrapperOrNew_changed [OF W1 sib]
  note sib1 = changed_siblings [OF chT sib]
  note chX = wrapperOrNew_changed [OF W2 sib1]
  have t0: "t0 \<in> set (childNodes this)" and t1: "t1 \<in> set (childNodes this)" "matches ''DIV'' ''top'' t1"
    using filter_in [OF f] filter_in2 [OF f] by simp_all
  have ne: "nid t0 \<noteq> nid t1" using filter_two_distinct(1) [OF f] sib by (simp add: siblings_def)
  have lt: "nid t0 < allocated this" using sib t0 by (auto simp add: siblings_def)
  from W1 have "a1 = allocated this \<and> k1 = removeNode (nid t0) (childNodes this) \<and> t = nid t1"
    by (cases rule: wrapperOrNew_cases) (simp_all add: f)
  then have two: "a1 = allocated this" "k1 = removeNode (nid t0) (childNodes this)" "t = nid t1"
    by simp_all
  have gone1: "nid t0 \<notin> fst ` set (forest k1)"
    unfolding two(2) using wfn t0
    by (intro removed_gone [of "childNodes this"]) (simp_all add: wellFormedNodes_def)
  have gone: "nid t0 \<notin> fst ` set (forest (childNodes ?s))"
  proof
    assume "nid t0 \<in> fst ` set (forest (childNodes ?s))"
    then obtain p where p: "p \<in> set (forest (childNodes ?s))" "fst p = nid t0" by auto
    from expandable_forest [OF ex wfn W1 W2 C p(1)]
    have "p \<in> set (forest K) \<or> p \<in> set (forest k1)"
      using kidsOf_forest [of t k1] p(2) lt by auto
    then have "p \<in> set (forest k1)"
      using wrapperOrNew_forest [OF W2, of p] p(2) lt two(1) by auto
    then show False using gone1 p(2) by force
  qed
  have "t1 \<in> set k1" using t1 ne by (simp add: two(2) removeNode_def)
  then have inK: "t1 \<in> set K" using changed_kept [OF chX, of t1] nx by simp
  have "\<not> toTop t t1" by (simp add: toTop_def two(3))
  with inK have "setKids tk (markTop t x t1) \<in> set (childNodes ?s)"
    unfolding expandable_children(1) [OF ex sib W1 W2 C] using two(3) by force
  moreover have "hasClass ''list-item__top'' (setKids tk (markTop t x t1))"
    unfolding two(3) using t1(2) by (simp add: hasClass_markTop_top matches_def)
  ultimately have "\<exists>n \<in> set (childNodes ?s). nid n = nid t1 \<and> hasClass ''list-item__top'' n"
    by (intro bexI [of _ "setKids tk (markTop t x t1)"]) simp_all
  moreover have "topElement ?s = Some (nid t1)"
    using expandable_children(2) [OF ex sib W1 W2 C] two(3) by simp
  ultimately show ?thesis using gone by simp
qed

text \<open>
  The same for \<open>div.expandable-content\<close>, when neither of the first two is a \<open>div.top\<close>
  as well.
\<close>

lemma content_duplicate:
  assumes ex: "expandable this" and wf: "wellFormed this"
    and f: "filter (matches ''DIV'' ''expandable-content'') (childNodes this) = e0 # e1 # es"
    and nt: "\<not> matches ''DIV'' ''top'' e0" "\<not> matches ''DIV'' ''top'' e1"
  shows "nid e0 \<notin> fst ` set (forest (childNodes (compileStructure this)))
       \<and> expandableContentElement (compileStructure this) = Some (nid e1)
       \<and> (\<exists>n \<in> set (childNodes (compileStructure this)).
              nid n = nid e1 \<and> hasClass ''list-item__expandable-content'' n)"
proof -
  let ?s = "compileStructure this"
  let ?k0 = "childNodes this"
  note wfn = wf [unfolded wellFormed_def]
  note sib = wellFormedNodes_siblings [OF wfn]
  have dist: "distinct (map fst (forest ?k0))" using wfn by (simp add: wellFormedNodes_def)
  obtain a1 k1 t where W1: "wrapperOrNew ''top'' (allocated this) ?k0 = (a1, k1, t)"
    by (cases "wrapperOrNew ''top'' (allocated this) ?k0") auto
  obtain a2 K x where W2: "wrapperOrNew ''expandable-content'' a1 k1 = (a2, K, x)"
    by (cases "wrapperOrNew ''expandable-content'' a1 k1") auto
  obtain a3 tk where C: "compileContent True a2 (kidsOf t k1 @ filter (toTop t) K) = (a3, tk)"
    by (cases "compileContent True a2 (kidsOf t k1 @ filter (toTop t) K)") auto
  note chT = wrapperOrNew_changed [OF W1 sib]
  note sib1 = changed_siblings [OF chT sib]
  have e0: "e0 \<in> set ?k0" "matches ''DIV'' ''expandable-content'' e0"
    and e1: "e1 \<in> set ?k0" "matches ''DIV'' ''expandable-content'' e1"
    using filter_in [OF f] filter_in2 [OF f] by simp_all
  have lt: "nid e0 < allocated this" using sib e0 by (auto simp add: siblings_def)
  have le: "allocated this \<le> a1" using changed_le [OF chT] .
  obtain new gone where k1: "k1 = new @ filter (\<lambda>n. nid n \<notin> set gone) ?k0"
    and new: "\<forall>n \<in> set new. allocated this \<le> nid n \<and> nid n < a1 \<and> nodeName n = ''DIV''
                \<and> classes n = [''top'']"
    and gn: "\<forall>n \<in> set ?k0. nid n \<in> set gone \<longrightarrow> matches ''DIV'' ''top'' n"
    using chT unfolding changed_def by blast
  have fnew: "filter (matches ''DIV'' ''expandable-content'') new = []"
    using new by (auto simp add: filter_empty_conv matches_def)
  have "filter (matches ''DIV'' ''expandable-content'') (filter (\<lambda>n. nid n \<notin> set gone) ?k0)
      = filter (\<lambda>n. nid n \<notin> set gone) (e0 # e1 # es)"
    unfolding f [symmetric] by (simp add: conj_commute)
  also have "\<dots> = e0 # e1 # filter (\<lambda>n. nid n \<notin> set gone) es"
    using gn e0 e1 nt by auto
  finally have f1: "filter (matches ''DIV'' ''expandable-content'') k1
      = e0 # e1 # filter (\<lambda>n. nid n \<notin> set gone) es"
    using fnew by (simp add: k1)
  from W2 have "a2 = a1 \<and> K = removeNode (nid e0) k1 \<and> x = nid e1"
    by (cases rule: wrapperOrNew_cases) (simp_all add: f1)
  then have two: "a2 = a1" "K = removeNode (nid e0) k1" "x = nid e1" by simp_all
  have ne: "nid e0 \<noteq> nid e1" using filter_two_distinct(1) [OF f1] sib1 by (simp add: siblings_def)
  have goneK: "nid e0 \<notin> fst ` set (forest K)"
    unfolding two(2)
  proof (rule removed_gone [of ?k0])
    show "distinct (map fst (forest ?k0))" by (rule dist)
    show "e0 \<in> set ?k0" by (rule e0)
    fix m assume "m \<in> set k1"
    then have "m \<in> set ?k0 \<or> (\<forall>p \<in> set (subtree m). allocated this \<le> fst p)"
      by (rule wrapperOrNew_member [OF W1])
    then show "m \<in> set ?k0 \<or> nid e0 \<notin> fst ` set (subtree m)" using lt by force
  qed
  obtain tn where tn: "tn \<in> set k1" "nid tn = t" "matches ''DIV'' ''top'' tn"
    using wrapperOrNew_id [OF W1 sib] by blast
  have kt: "kidsOf t k1 = kids tn" using kidsOf_in [OF sib1 tn(1)] tn(2) by simp
  have goneT: "nid e0 \<notin> fst ` set (forest (kidsOf t k1))"
  proof
    assume "nid e0 \<in> fst ` set (forest (kidsOf t k1))"
    then obtain p where p: "p \<in> set (forest (kids tn))" "fst p = nid e0" using kt by auto
    then have ps: "p \<in> set (subtree tn)" by (simp add: subtree_root [of tn])
    from wrapperOrNew_member [OF W1 tn(1)] show False
    proof
      assume tk0: "tn \<in> set ?k0"
      have "nid e0 \<noteq> nid tn" using siblings_same_id [OF sib e0(1) tk0] nt(1) tn(3) by auto
      from kids_apart [OF dist tk0 e0(1) this] p show False by force
    next
      assume "\<forall>p \<in> set (subtree tn). allocated this \<le> fst p"
      then show False using ps p(2) lt by auto
    qed
  qed
  have gone: "nid e0 \<notin> fst ` set (forest (childNodes ?s))"
  proof
    assume "nid e0 \<in> fst ` set (forest (childNodes ?s))"
    then obtain p where p: "p \<in> set (forest (childNodes ?s))" "fst p = nid e0" by auto
    from expandable_forest [OF ex wfn W1 W2 C p(1)] show False
      using goneK goneT p(2) lt by force
  qed
  have "e1 \<in> set k1" using filter_in2 [OF f1] by simp
  then have inK: "e1 \<in> set K" using ne by (simp add: two(2) removeNode_def)
  have "\<not> toTop t e1" using e1(2) by (simp add: toTop_def matches_def hasClass_def)
  with inK have "(if nid e1 = t then setKids tk (markTop t x e1) else markTop t x e1)
      \<in> set (childNodes ?s)"
    unfolding expandable_children(1) [OF ex sib W1 W2 C] by force
  moreover have "hasClass ''list-item__expandable-content'' (markTop t x e1)"
    unfolding two(3) using e1(2) by (intro hasClass_markTop_content) (simp add: matches_def)
  then have "hasClass ''list-item__expandable-content''
      (if nid e1 = t then setKids tk (markTop t x e1) else markTop t x e1)"
    by (simp only: hasClass_setKids split: if_split) simp
  ultimately have "\<exists>n \<in> set (childNodes ?s).
      nid n = nid e1 \<and> hasClass ''list-item__expandable-content'' n"
    by (intro bexI [of _ "if nid e1 = t then setKids tk (markTop t x e1) else markTop t x e1"])
      simp_all
  moreover have "expandableContentElement ?s = Some (nid e1)"
    using expandable_children(3) [OF ex sib W1 W2 C] two(3) by simp
  ultimately show ?thesis using gone by simp
qed

section \<open>The nodes that are removed and those that are kept\<close>

lemma wellFormedNodes_filter:
  assumes "wellFormedNodes a ks"
  shows "wellFormedNodes a (filter P ks)"
proof -
  have "distinct (map fst (forest (filter P ks)))"
    using assms unfolding wellFormedNodes_def forest_def
  proof (induction ks)
    case Nil
    then show ?case by simp
  next
    case (Cons k ks)
    have "set (concat (map subtree (filter P ks))) \<subseteq> set (concat (map subtree ks))" by auto
    with Cons show ?case by auto
  qed
  moreover have "set (forest (filter P ks)) \<subseteq> set (forest ks)" by (rule forest_mono) auto
  ultimately show ?thesis using assms unfolding wellFormedNodes_def by blast
qed

lemma wellFormedNodes_snoc:
  assumes "wellFormedNodes a ks" "\<forall>p \<in> set (subtree n). a \<le> fst p \<and> fst p < b"
    "distinct (map fst (subtree n))"
  shows "wellFormedNodes b (ks @ [n])"
proof -
  have "a \<le> b" using assms(2) subtree_root [of n] by fastforce
  then show ?thesis
    using assms unfolding wellFormedNodes_def by (fastforce simp add: forest_append forest_Cons)
qed

lemma firstOfSeveral_cases [case_names Few Several]:
  obtains (Few) "firstOfSeveral cls ks = []" "length (filter (matches ''DIV'' cls) ks) \<le> 1"
  | (Several) x0 x1 xs where "filter (matches ''DIV'' cls) ks = x0 # x1 # xs"
      "firstOfSeveral cls ks = [x0]"
proof (cases "filter (matches ''DIV'' cls) ks")
  case Nil
  then show ?thesis using that(1) by (simp add: firstOfSeveral_def)
next
  case (Cons x0 rest)
  show ?thesis
  proof (cases rest)
    case Nil
    then show ?thesis using Cons that(1) by (simp add: firstOfSeveral_def)
  next
    case (Cons x1 xs)
    then show ?thesis using \<open>filter (matches ''DIV'' cls) ks = x0 # rest\<close> that(2)
      by (simp add: firstOfSeveral_def)
  qed
qed

lemma wellFormedNodes_Cons:
  assumes "wellFormedNodes a ks" "\<forall>p \<in> set (subtree n). a \<le> fst p \<and> fst p < b"
    "distinct (map fst (subtree n))"
  shows "wellFormedNodes b (n # ks)"
proof -
  have "a \<le> b" using assms(2) subtree_root [of n] by fastforce
  then show ?thesis
    using assms unfolding wellFormedNodes_def by (fastforce simp add: forest_Cons)
qed

lemma wellFormedNodes_removeNode: "wellFormedNodes a ks \<Longrightarrow> wellFormedNodes a (removeNode i ks)"
  unfolding removeNode_def by (rule wellFormedNodes_filter)

lemma wrapperOrNew_wf:
  assumes "wrapperOrNew cls a ks = (a', ks', w)" "wellFormedNodes a ks"
  shows "wellFormedNodes a' ks'"
  using assms(1)
proof (cases rule: wrapperOrNew_cases)
  case New
  show ?thesis unfolding New
    by (rule wellFormedNodes_Cons [OF assms(2)]) simp_all
next
  case (One x)
  then show ?thesis using assms(2) by simp
next
  case (Two x0 x1 xs)
  then show ?thesis using wellFormedNodes_removeNode [OF assms(2)] by simp
qed

lemma rightWrapper_wf:
  assumes "rightWrapper e a ks = (a', ks', r)" "wellFormedNodes a ks"
  shows "wellFormedNodes a' ks'"
  using assms(1)
proof (cases rule: rightWrapper_cases)
  case New
  show ?thesis unfolding New
    by (rule wellFormedNodes_Cons [OF assms(2)]) (auto simp add: forest_def)
next
  case Absent
  then show ?thesis using assms(2) by simp
next
  case (One x)
  then show ?thesis using assms(2) by simp
next
  case (Two x0 x1 xs)
  then show ?thesis using wellFormedNodes_removeNode [OF assms(2)] by simp
qed

lemma subtrees_apart:
  assumes "distinct (map fst (forest ks))" "n \<in> set ks" "m \<in> set ks" "nid m \<noteq> nid n"
  shows "fst ` set (subtree n) \<inter> fst ` set (subtree m) = {}"
  using assms
proof (induction ks)
  case Nil
  then show ?case by simp
next
  case (Cons k ks)
  have sub: "x \<in> set ks \<Longrightarrow> fst ` set (subtree x) \<subseteq> fst ` set (forest ks)" for x
    using forest_member [of x ks] by auto
  from Cons.prems(1) have d: "distinct (map fst (forest ks))"
    "fst ` set (subtree k) \<inter> fst ` set (forest ks) = {}"
    by (auto simp add: forest_Cons)
  consider "n = k" "m \<in> set ks" | "m = k" "n \<in> set ks" | "n \<in> set ks" "m \<in> set ks"
    using Cons.prems by auto
  then show ?case
  proof cases
    case 1
    then show ?thesis using sub [of m] d(2) by blast
  next
    case 2
    then show ?thesis using sub [of n] d(2) by blast
  next
    case 3
    then show ?thesis using Cons.IH [OF d(1)] Cons.prems(4) by simp
  qed
qed

lemma subtree_apart:
  assumes "distinct (map fst (forest ks))" "n \<in> set ks"
  shows "fst ` set (subtree n) \<inter> fst ` set (forest (removeNode (nid n) ks)) = {}"
proof -
  have "fst ` set (subtree n) \<inter> fst ` set (subtree m) = {}"
    if "m \<in> set (removeNode (nid n) ks)" for m
    using that subtrees_apart [OF assms, of m] by (simp add: removeNode_def)
  then show ?thesis unfolding set_forest by blast
qed

lemma wrapperOrNew_lost:
  assumes "wrapperOrNew cls a ks = (a', ks', w)" "siblings a ks" "n \<in> set ks"
  shows "n \<in> set ks' \<or> n \<in> set (firstOfSeveral cls ks)"
  using assms(1)
proof (cases rule: wrapperOrNew_cases)
  case New
  then show ?thesis using assms(3) by simp
next
  case (One x)
  then show ?thesis using assms(3) by simp
next
  case (Two x0 x1 xs)
  have x0: "x0 \<in> set ks" using filter_in [OF Two(1)] by simp
  show ?thesis
  proof (cases "nid n = nid x0")
    case True
    then have "n = x0" using siblings_same_id [OF assms(2,3) x0] by simp
    then show ?thesis using Two(1) by (simp add: firstOfSeveral_def)
  next
    case False
    then show ?thesis using removeNode_keeps [OF assms(3)] Two(3) by simp
  qed
qed

lemma rightWrapper_lost:
  assumes "rightWrapper e a ks = (a', ks', r)" "siblings a ks" "n \<in> set ks"
  shows "n \<in> set ks' \<or> n \<in> set (firstOfSeveral ''right'' ks)"
  using assms(1)
proof (cases rule: rightWrapper_cases)
  case New
  then show ?thesis using assms(3) by simp
next
  case Absent
  then show ?thesis using assms(3) by simp
next
  case (One x)
  then show ?thesis using assms(3) by simp
next
  case (Two x0 x1 xs)
  have x0: "x0 \<in> set ks" using filter_in [OF Two(1)] by simp
  show ?thesis
  proof (cases "nid n = nid x0")
    case True
    then have "n = x0" using siblings_same_id [OF assms(2,3) x0] by simp
    then show ?thesis using Two(1) by (simp add: firstOfSeveral_def)
  next
    case False
    then show ?thesis using removeNode_keeps [OF assms(3)] Two(3) by simp
  qed
qed

lemma firstOfSeveral_member:
  assumes "n \<in> set (firstOfSeveral cls ks)"
  shows "n \<in> set ks \<and> matches ''DIV'' cls n"
proof (cases cls ks rule: firstOfSeveral_cases)
  case Few
  then show ?thesis using assms by simp
next
  case (Several x0 x1 xs)
  then show ?thesis using assms filter_in [OF Several(1)] by simp
qed

lemma wrapperOrNew_removed:
  assumes "wrapperOrNew cls a ks = (a', ks', w)" "wellFormedNodes a ks"
  shows "fst ` set (forest (firstOfSeveral cls ks)) \<inter> fst ` set (forest ks') = {}"
  using assms(1)
proof (cases rule: wrapperOrNew_cases)
  case New
  then show ?thesis by (simp add: firstOfSeveral_def)
next
  case (One x)
  then show ?thesis by (simp add: firstOfSeveral_def)
next
  case (Two x0 x1 xs)
  have x0: "x0 \<in> set ks" using filter_in [OF Two(1)] by simp
  have d: "distinct (map fst (forest ks))" using assms(2) by (simp add: wellFormedNodes_def)
  show ?thesis using subtree_apart [OF d x0] Two(1,3)
    by (simp add: firstOfSeveral_def forest_Cons)
qed

lemma rightWrapper_removed:
  assumes "rightWrapper e a ks = (a', ks', r)" "wellFormedNodes a ks"
  shows "fst ` set (forest (firstOfSeveral ''right'' ks)) \<inter> fst ` set (forest ks') = {}"
  using assms(1)
proof (cases rule: rightWrapper_cases)
  case New
  then show ?thesis by (simp add: firstOfSeveral_def)
next
  case Absent
  then show ?thesis by (simp add: firstOfSeveral_def)
next
  case (One x)
  then show ?thesis by (simp add: firstOfSeveral_def)
next
  case (Two x0 x1 xs)
  have x0: "x0 \<in> set ks" using filter_in [OF Two(1)] by simp
  have d: "distinct (map fst (forest ks))" using assms(2) by (simp add: wellFormedNodes_def)
  show ?thesis using subtree_apart [OF d x0] Two(1,3)
    by (simp add: firstOfSeveral_def forest_Cons)
qed

lemma moved_keeps:
  assumes W: "wrappers e a tk = (a2, S, l, r, c)" and sib: "siblings a tk"
  shows "set (forest S) \<subseteq> set (forest (moveInto c (relocate l r c) (marks l r c S)))"
proof -
  define p where "p = relocate l r c"
  define h where "h = (\<lambda>n. if nid n = c then setKids (kids n @ filter p S) (mark1 l r c n)
                            else mark1 l r c n)"
  define tk' where "tk' = moveInto c (relocate l r c) (marks l r c S)"
  have res: "tk' = map h (filter (\<lambda>n. \<not> p n) S)"
    by (simp_all add: tk'_def moveInto_marks p_def h_def onNode_def comp_def)
  from wrappers_center [OF W sib] obtain sc where
    sc: "sc \<in> set S" "nid sc = c" "matches ''DIV'' ''center'' sc" by auto
  have div: "nodeName sc = ''DIV''" using sc(3) by (simp add: matches_def)
  have keepc: "\<not> p sc" using sc(2) by (simp add: p_def relocate_def)
  have hc: "h sc \<in> set tk'" using sc(1) keepc by (simp add: res)
  have sub_hc: "subtree (h sc) = (nid sc, nodeName sc) # forest (kids sc @ filter p S)"
    using sc(2) subtree_setKids_div [of "mark1 l r c sc" "kids sc @ filter p S"] div
    by (simp add: h_def)
  have one: "set (subtree s) \<subseteq> set (forest tk')" if s: "s \<in> set S" for s
  proof (cases "p s")
    case True
    then have "s \<in> set (kids sc @ filter p S)" using s by simp
    then have "set (subtree s) \<subseteq> set (forest (kids sc @ filter p S))"
      by (rule forest_member)
    also have "\<dots> \<subseteq> set (subtree (h sc))" by (auto simp add: sub_hc)
    also have "\<dots> \<subseteq> set (forest tk')" using hc by (rule forest_member)
    finally show ?thesis .
  next
    case False
    then have in': "h s \<in> set tk'" using s by (simp add: res)
    have "set (subtree s) \<subseteq> set (subtree (h s))"
    proof (cases "nid s = c")
      case True
      then have "s = sc"
        using siblings_same_id [OF wrappers_siblings [OF W sib] s sc(1)] sc(2) by simp
      then show ?thesis by (auto simp add: sub_hc subtree_root [of sc] forest_append)
    next
      case False
      then show ?thesis by (simp add: h_def)
    qed
    also have "\<dots> \<subseteq> set (forest tk')" using in' by (rule forest_member)
    finally show ?thesis .
  qed
  then show ?thesis unfolding tk'_def [symmetric] by (auto simp add: set_forest)
qed

lemma content_lost:
  assumes wf: "wellFormedNodes a tk" and C: "compileContent e a tk = (a', tk')"
  shows "set (forest tk) \<subseteq> set (forest tk') \<union> set (forest (removedFromContent e a tk))"
    and "fst ` set (forest (removedFromContent e a tk)) \<inter> fst ` set (forest tk') = {}"
    and "set (removedFromContent e a tk) \<subseteq> set tk"
proof -
  note sib = wellFormedNodes_siblings [OF wf]
  obtain a2 S l r c where W: "wrappers e a tk = (a2, S, l, r, c)"
    by (cases "wrappers e a tk") auto
  from W obtain a1 S1 where R: "rightWrapper e a tk = (a1, S1, r)"
    and Cw: "wrapperOrNew ''center'' a1 S1 = (a2, S, c)"
    by (rule wrappers_steps)
  define F1 where "F1 = firstOfSeveral ''right'' tk"
  define F2 where "F2 = firstOfSeveral ''center'' S1"
  have rem: "removedFromContent e a tk = F1 @ F2"
    by (simp add: removedFromContent_def R F1_def F2_def)
  have tk': "tk' = moveInto c (relocate l r c) (marks l r c S)"
    using compileContent_wrappers [OF sib W] C by simp
  have feq: "set (forest tk') = set (forest S)"
    unfolding tk' using moved_keeps [OF W sib] moved_forest [OF W sib] by blast
  note wf1 = rightWrapper_wf [OF R wf]
  note sib1 = wellFormedNodes_siblings [OF wf1]
  have le: "a \<le> a1" using changed_le [OF rightWrapper_changed [OF R sib]] .
  have "n \<in> set S \<or> n \<in> set F1 \<or> n \<in> set F2" if "n \<in> set tk" for n
    using rightWrapper_lost [OF R sib that] wrapperOrNew_lost [OF Cw sib1, of n]
    by (auto simp add: F1_def F2_def)
  then have "set tk \<subseteq> set S \<union> set (F1 @ F2)" by auto
  from forest_mono [of tk "S @ (F1 @ F2)"] this
  show "set (forest tk) \<subseteq> set (forest tk') \<union> set (forest (removedFromContent e a tk))"
    unfolding rem feq by (simp add: forest_append)
  have F1tk: "set F1 \<subseteq> set tk" using firstOfSeveral_member [of _ "''right''" tk]
    by (auto simp add: F1_def)
  have F2tk: "set F2 \<subseteq> set tk"
  proof
    fix n
    assume "n \<in> set F2"
    then have n: "n \<in> set S1" "matches ''DIV'' ''center'' n"
      using firstOfSeveral_member [of n "''center''" S1] by (simp_all add: F2_def)
    from R show "n \<in> set tk"
    proof (cases rule: rightWrapper_cases)
      case New
      then show ?thesis using n by (auto simp add: matches_def)
    next
      case Absent
      then show ?thesis using n by simp
    next
      case (One x)
      then show ?thesis using n by simp
    next
      case (Two x0 x1 xs)
      then show ?thesis using n by (simp add: removeNode_def)
    qed
  qed
  show "set (removedFromContent e a tk) \<subseteq> set tk" unfolding rem using F1tk F2tk by simp
  have low: "\<forall>p \<in> set (forest F1). fst p < a"
    using forest_mono [OF F1tk] wf by (auto simp add: wellFormedNodes_def)
  have S_sub: "p \<in> set (forest S) \<Longrightarrow> p \<in> set (forest S1) \<or> a1 \<le> fst p" for p
    using wrapperOrNew_forest [OF Cw] .
  have d1: "fst ` set (forest F1) \<inter> fst ` set (forest S1) = {}"
    unfolding F1_def using rightWrapper_removed [OF R wf] .
  have "fst ` set (forest F1) \<inter> fst ` set (forest S) = {}"
  proof (rule ccontr)
    assume "fst ` set (forest F1) \<inter> fst ` set (forest S) \<noteq> {}"
    then obtain p q where pq: "p \<in> set (forest F1)" "q \<in> set (forest S)" "fst p = fst q"
      by auto
    from S_sub [OF pq(2)] show False
    proof
      assume "q \<in> set (forest S1)"
      then show False using d1 pq(1,3) by (metis disjoint_iff image_eqI)
    next
      assume "a1 \<le> fst q"
      then show False using low pq(1,3) le by fastforce
    qed
  qed
  moreover have "fst ` set (forest F2) \<inter> fst ` set (forest S) = {}"
    unfolding F2_def using wrapperOrNew_removed [OF Cw wf1] .
  ultimately show "fst ` set (forest (removedFromContent e a tk)) \<inter> fst ` set (forest tk') = {}"
    unfolding rem feq by (auto simp add: forest_append)
qed


lemma wellFormedNodes_mono: "wellFormedNodes a ks \<Longrightarrow> a \<le> b \<Longrightarrow> wellFormedNodes b ks"
  unfolding wellFormedNodes_def by fastforce

lemma forest_parts_apart:
  assumes "distinct (map fst (forest ks))"
  shows "fst ` set (forest (filter P ks)) \<inter> fst ` set (forest (filter (\<lambda>n. \<not> P n) ks)) = {}"
  using assms
proof (induction ks)
  case Nil
  then show ?case by simp
next
  case (Cons k ks)
  from Cons.prems have d: "distinct (map fst (forest ks))"
    "fst ` set (subtree k) \<inter> fst ` set (forest ks) = {}"
    by (auto simp add: forest_Cons)
  have sub: "fst ` set (forest (filter Q ks)) \<subseteq> fst ` set (forest ks)" for Q
    using forest_mono [of "filter Q ks" ks] by auto
  note ih = Cons.IH [OF d(1)]
  show ?case
  proof (cases "P k")
    case True
    have "fst ` set (subtree k) \<inter> fst ` set (forest (filter (\<lambda>n. \<not> P n) ks)) = {}"
      using d(2) sub [of "\<lambda>n. \<not> P n"] by blast
    then show ?thesis using True ih by (simp add: forest_Cons image_Un Int_Un_distrib2)
  next
    case False
    have "fst ` set (forest (filter P ks)) \<inter> fst ` set (subtree k) = {}"
      using d(2) sub [of P] by blast
    then show ?thesis using False ih by (simp add: forest_Cons image_Un Int_Un_distrib)
  qed
qed

lemma root_not_below:
  assumes "distinct (map fst (forest ks))" "n \<in> set ks"
  shows "nid n \<notin> fst ` set (forest (kids n))"
proof -
  have "set (subtree n) \<subseteq> set (forest ks)" using assms(2) by (rule forest_member)
  have "distinct (map fst (subtree n))"
    using assms
  proof (induction ks)
    case Nil
    then show ?case by simp
  next
    case (Cons k ks)
    then show ?case by (auto simp add: forest_Cons)
  qed
  then show ?thesis by (simp add: subtree_root [of n])
qed

lemma content_input_wf:
  assumes wf: "wellFormedNodes a ks" and n: "n \<in> set ks"
  shows "wellFormedNodes a (kids n @ filter (\<lambda>m. nid m \<noteq> nid n \<and> Q m) ks)"
proof -
  let ?rest = "filter (\<lambda>m. nid m \<noteq> nid n \<and> Q m) ks"
  note d = wf [unfolded wellFormedNodes_def, THEN conjunct1]
  have k: "wellFormedNodes a (kids n)" using wellFormedNodes_kids [OF wf n] .
  have r: "wellFormedNodes a ?rest" using wellFormedNodes_filter [OF wf] .
  have "fst ` set (forest (kids n)) \<inter> fst ` set (subtree m) = {}" if "m \<in> set ?rest" for m
  proof -
    from that have m: "m \<in> set ks" "nid m \<noteq> nid n" by simp_all
    have "fst ` set (forest (kids n)) \<subseteq> fst ` set (subtree n)"
      by (auto simp add: subtree_root [of n])
    then show ?thesis using subtrees_apart [OF d n m] by blast
  qed
  then have "fst ` set (forest (kids n)) \<inter> fst ` set (forest ?rest) = {}"
    unfolding set_forest [of ?rest] by blast
  then show ?thesis using k r unfolding wellFormedNodes_def
    by (auto simp add: forest_append)
qed

lemma expandable_lost:
  assumes e: "expandable this" and wf: "wellFormedNodes (allocated this) (childNodes this)"
    and T: "wrapperOrNew ''top'' (allocated this) (childNodes this) = (a1, k1, t)"
    and X: "wrapperOrNew ''expandable-content'' a1 k1 = (a2, K, x)"
    and C: "compileContent True a2 (kidsOf t k1 @ filter (toTop t) K) = (a3, tk)"
    and tin: "t \<notin> nid ` set (firstOfSeveral ''expandable-content'' k1)"
    and R: "R = firstOfSeveral ''top'' (childNodes this) @ firstOfSeveral ''expandable-content'' k1
              @ removedFromContent True a2 (kidsOf t k1 @ filter (toTop t) K)"
  shows "set (forest (childNodes this)) \<subseteq> set (forest (childNodes (compileStructure this))) \<union> set (forest R)"
    and "fst ` set (forest R) \<inter> fst ` set (forest (childNodes (compileStructure this))) = {}"
    and "set (forest R) \<subseteq> set (forest (childNodes this))"
proof -
  let ?k0 = "childNodes this"
  let ?I = "kidsOf t k1 @ filter (toTop t) K"
  define FT where "FT = firstOfSeveral ''top'' ?k0"
  define FE where "FE = firstOfSeveral ''expandable-content'' k1"
  define RC where "RC = removedFromContent True a2 ?I"
  define h where "h = (\<lambda>k. if nid k = t then setKids tk (markTop t x k) else markTop t x k)"
  define N where "N = filter (\<lambda>n. \<not> toTop t n) K"
  define N' where "N' = filter (\<lambda>n. nid n \<noteq> t) N"
  have Req: "R = FT @ FE @ RC" by (simp add: R FT_def FE_def RC_def)
  note sib0 = wellFormedNodes_siblings [OF wf]
  note wf1 = wrapperOrNew_wf [OF T wf]
  note sib1 = wellFormedNodes_siblings [OF wf1]
  note wfK = wrapperOrNew_wf [OF X wf1]
  note sibK = wellFormedNodes_siblings [OF wfK]
  have le: "allocated this \<le> a1" "a1 \<le> a2"
    using changed_le [OF wrapperOrNew_changed [OF T sib0]]
      changed_le [OF wrapperOrNew_changed [OF X sib1]] by simp_all
  have ch: "childNodes (compileStructure this) = map h N"
    unfolding h_def N_def by (rule expandable_children(1) [OF e sib0 T X C])
  from wrapperOrNew_id [OF T sib0] obtain tn where
    tn: "tn \<in> set k1" "nid tn = t" "matches ''DIV'' ''top'' tn" by auto
  have tnK: "tn \<in> set K"
    using wrapperOrNew_lost [OF X sib1 tn(1)] tin tn(2) by auto
  have div: "nodeName tn = ''DIV''" using tn(3) by (simp add: matches_def)
  have kt: "kidsOf t k1 = kids tn" using kidsOf_in [OF sib1 tn(1)] tn(2) by simp
  have tnN: "tn \<in> set N" using tnK tn(2) by (simp add: N_def toTop_def)
  have htn: "h tn \<in> set (map h N)" using tnN by simp
  have sub_htn: "subtree (h tn) = (t, ''DIV'') # forest tk"
    using subtree_setKids_div [of "markTop t x tn" tk] div tn(2) by (simp add: h_def)
  have I_eq: "?I = kids tn @ filter (\<lambda>m. nid m \<noteq> nid tn \<and> toTop t m) K"
    unfolding kt tn(2) by (rule arg_cong [where f = "\<lambda>z. kids tn @ z"], rule filter_cong)
      (auto simp add: toTop_def)
  have wfI: "wellFormedNodes a2 ?I"
    unfolding I_eq by (rule content_input_wf [OF wfK tnK])
  note c = content_lost [OF wfI C, folded RC_def]
  have tk_in: "set (forest tk) \<subseteq> set (forest (map h N))"
    using forest_member [OF htn] by (auto simp add: sub_htn)
  have I_in: "set (forest ?I) \<subseteq> set (forest (map h N)) \<union> set (forest RC)"
    using c(1) tk_in by blast
  have one: "set (subtree k) \<subseteq> set (forest (map h N)) \<union> set (forest RC)" if k: "k \<in> set K" for k
  proof (cases "toTop t k")
    case True
    then have "k \<in> set ?I" using k by simp
    from forest_member [OF this] I_in show ?thesis by blast
  next
    case False
    then have kN: "k \<in> set N" using k by (simp add: N_def)
    show ?thesis
    proof (cases "nid k = t")
      case True
      then have "k = tn" using siblings_same_id [OF sibK k tnK] tn(2) by simp
      moreover have "set (forest (kids tn)) \<subseteq> set (forest ?I)"
        unfolding kt [symmetric] by (simp add: forest_append)
      moreover have "(t, ''DIV'') \<in> set (forest (map h N))"
        using forest_member [OF htn] by (auto simp add: sub_htn)
      ultimately show ?thesis using I_in div tn(2) by (auto simp add: subtree_root [of tn])
    next
      case False
      then have "subtree (h k) = subtree k" by (simp add: h_def)
      moreover have "h k \<in> set (map h N)" using kN by simp
      ultimately show ?thesis using forest_member [of "h k" "map h N"] by auto
    qed
  qed
  have K_in: "set (forest K) \<subseteq> set (forest (map h N)) \<union> set (forest RC)"
    using one by (auto simp add: set_forest [of K])
  have k0: "n \<in> set K \<or> n \<in> set FT \<or> n \<in> set FE" if "n \<in> set ?k0" for n
    using wrapperOrNew_lost [OF T sib0 that] wrapperOrNew_lost [OF X sib1, of n]
    by (auto simp add: FT_def FE_def)
  then have "set ?k0 \<subseteq> set (K @ FT @ FE)" by auto
  from forest_mono [OF this] K_in
  show "set (forest ?k0) \<subseteq> set (forest (childNodes (compileStructure this))) \<union> set (forest R)"
    unfolding ch Req by (auto simp add: forest_append)
    have FTk0: "set FT \<subseteq> set ?k0"
    using firstOfSeveral_member [of _ "''top''" ?k0] by (auto simp add: FT_def)
  have k1_k0: "n \<in> set ?k0 \<or> (nid n = t \<and> classes n = [''top''] \<and> kids n = [])"
    if "n \<in> set k1" for n
    using T that by (cases rule: wrapperOrNew_cases) (auto simp add: removeNode_def)
  have FEk0: "set FE \<subseteq> set ?k0"
  proof
    fix n
    assume "n \<in> set FE"
    then have n: "n \<in> set k1" "matches ''DIV'' ''expandable-content'' n"
      using firstOfSeveral_member [of n "''expandable-content''" k1] by (simp_all add: FE_def)
    then show "n \<in> set ?k0" using k1_k0 [OF n(1)] by (auto simp add: matches_def)
  qed
  have K_k1: "n \<in> set k1 \<or> hasClass ''expandable-content'' n" if "n \<in> set K" for n
    using X that by (cases rule: wrapperOrNew_cases) (auto simp add: removeNode_def hasClass_def)
  have I_k0: "set (forest ?I) \<subseteq> set (forest ?k0)"
  proof -
    have a: "set (forest (kids tn)) \<subseteq> set (forest ?k0)"
      using k1_k0 [OF tn(1)] kids_in_forest [of tn ?k0] by auto
    have "set (filter (toTop t) K) \<subseteq> set ?k0"
    proof
      fix n
      assume "n \<in> set (filter (toTop t) K)"
      then have n: "n \<in> set K" "toTop t n" by simp_all
      then have "n \<in> set k1" using K_k1 [OF n(1)] by (auto simp add: toTop_def)
      from k1_k0 [OF this] n(2) show "n \<in> set ?k0" by (auto simp add: toTop_def)
    qed
    from forest_mono [OF this] a show ?thesis by (simp add: kt forest_append)
  qed
  have RC_I: "set (forest RC) \<subseteq> set (forest ?I)" using forest_mono [OF c(3)] .
  show "set (forest R) \<subseteq> set (forest ?k0)"
    unfolding Req using forest_mono [OF FTk0] forest_mono [OF FEk0] RC_I I_k0
    by (auto simp add: forest_append)
    note dK = wfK [unfolded wellFormedNodes_def, THEN conjunct1]
  have res_sub: "set (forest (map h N)) \<subseteq> insert (t, ''DIV'') (set (forest tk) \<union> set (forest N'))"
  proof -
    have "set (subtree (h k)) \<subseteq> insert (t, ''DIV'') (set (forest tk) \<union> set (forest N'))"
      if k: "k \<in> set N" for k
    proof (cases "nid k = t")
      case True
      then have "k = tn" using siblings_same_id [OF sibK _ tnK, of k] k tn(2) by (simp add: N_def)
      then show ?thesis by (auto simp add: sub_htn)
    next
      case False
      then have "subtree (h k) = subtree k" "k \<in> set N'" using k by (simp_all add: h_def N'_def)
      then show ?thesis using forest_member [of k N'] by auto
    qed
    then show ?thesis by (auto simp add: set_forest [of "map h N"])
  qed
  have tk_sub: "p \<in> set (forest tk) \<Longrightarrow> p \<in> set (forest ?I) \<or> a2 \<le> fst p" for p
    using compileContent_forest [OF wellFormedNodes_siblings [OF wfI] C] .
  have I_K: "set (forest ?I) \<subseteq> set (forest K)"
    using kids_in_forest [OF tnK] forest_mono [of "filter (toTop t) K" K]
    by (auto simp add: kt forest_append)
  have N'_K: "set (forest N') \<subseteq> set (forest K)"
    by (rule forest_mono) (auto simp add: N'_def N_def)
  have tK: "(t, ''DIV'') \<in> set (forest K)"
    using root_in_forest [OF tnK] tn(2) div by simp
  have res_K: "p \<in> set (forest (map h N)) \<Longrightarrow> p \<in> set (forest K) \<or> a2 \<le> fst p" for p
    using res_sub tk_sub [of p] I_K N'_K tK by blast
  have lowT: "\<forall>p \<in> set (forest FT). fst p < allocated this"
    using forest_mono [OF FTk0] wf by (auto simp add: wellFormedNodes_def)
  have lowE: "\<forall>p \<in> set (forest FE). fst p < allocated this"
    using forest_mono [OF FEk0] wf by (auto simp add: wellFormedNodes_def)
  have K_sub: "p \<in> set (forest K) \<Longrightarrow> p \<in> set (forest k1) \<or> a1 \<le> fst p" for p
    using wrapperOrNew_forest [OF X] .
  have dT: "fst ` set (forest FT) \<inter> fst ` set (forest k1) = {}"
    unfolding FT_def using wrapperOrNew_removed [OF T wf] .
  have dE: "fst ` set (forest FE) \<inter> fst ` set (forest K) = {}"
    unfolding FE_def using wrapperOrNew_removed [OF X wf1] .
  have gT: "fst ` set (forest FT) \<inter> fst ` set (forest (map h N)) = {}"
  proof (rule ccontr)
    assume "fst ` set (forest FT) \<inter> fst ` set (forest (map h N)) \<noteq> {}"
    then obtain p q where pq: "p \<in> set (forest FT)" "q \<in> set (forest (map h N))" "fst p = fst q"
      by auto
    have lp: "fst p < allocated this" using lowT pq(1) by simp
    from res_K [OF pq(2)] have "q \<in> set (forest K)" using lp pq(3) le by auto
    from K_sub [OF this] have "q \<in> set (forest k1)" using lp pq(3) le by auto
    then show False using dT pq(1,3) by (metis disjoint_iff image_eqI)
  qed
  have gE: "fst ` set (forest FE) \<inter> fst ` set (forest (map h N)) = {}"
  proof (rule ccontr)
    assume "fst ` set (forest FE) \<inter> fst ` set (forest (map h N)) \<noteq> {}"
    then obtain p q where pq: "p \<in> set (forest FE)" "q \<in> set (forest (map h N))" "fst p = fst q"
      by auto
    have lp: "fst p < allocated this" using lowE pq(1) by simp
    from res_K [OF pq(2)] have "q \<in> set (forest K)" using lp pq(3) le by auto
    then show False using dE pq(1,3) by (metis disjoint_iff image_eqI)
  qed
    have apart1: "fst ` set (forest (filter (toTop t) K)) \<inter> fst ` set (forest N) = {}"
    unfolding N_def by (rule forest_parts_apart [OF dK])
  have dN: "distinct (map fst (forest N))"
    using wellFormedNodes_filter [OF wfK] by (simp add: N_def wellFormedNodes_def)
  have tn_only: "filter (\<lambda>n. \<not> nid n \<noteq> t) N = [tn]"
  proof -
    have "distinct (map nid N)" using sibK by (simp add: N_def siblings_def distinct_map_filter)
    moreover have "tn \<in> set N" by (rule tnN)
    ultimately show ?thesis using tn(2)
    proof (induction N)
      case Nil
      then show ?case by simp
    next
      case (Cons k ks)
      then show ?case by (auto simp add: filter_empty_conv rev_image_eqI)
    qed
  qed
  have apart2: "fst ` set (subtree tn) \<inter> fst ` set (forest N') = {}"
    using forest_parts_apart [OF dN, of "\<lambda>n. \<not> nid n \<noteq> t"] tn_only
    by (simp add: N'_def forest_Cons Int_commute)
  have tnN_sub: "set (subtree tn) \<subseteq> set (forest N)" using tnN by (rule forest_member)
  have N'_N: "set (forest N') \<subseteq> set (forest N)" by (rule forest_mono) (simp add: N'_def)
  have t_below: "t \<notin> fst ` set (forest (kids tn))"
    using root_not_below [OF dK tnK] tn(2) by simp
  have I_apart: "fst ` set (forest ?I) \<inter> (insert t (fst ` set (forest N'))) = {}"
  proof -
    have a: "fst ` set (forest (kids tn)) \<inter> insert t (fst ` set (forest N')) = {}"
      using apart2 t_below by (auto simp add: subtree_root [of tn])
    have "t \<in> fst ` set (forest N)" using tnN_sub tn(2) by (force simp add: subtree_root [of tn])
    then have b: "fst ` set (forest (filter (toTop t) K)) \<inter> insert t (fst ` set (forest N')) = {}"
      using apart1 N'_N by blast
    show ?thesis using a b by (auto simp add: kt forest_append)
  qed
  have gC: "fst ` set (forest RC) \<inter> fst ` set (forest (map h N)) = {}"
  proof (rule ccontr)
    assume "fst ` set (forest RC) \<inter> fst ` set (forest (map h N)) \<noteq> {}"
    then obtain p q where pq: "p \<in> set (forest RC)" "q \<in> set (forest (map h N))" "fst p = fst q"
      by auto
    have pI: "fst p \<in> fst ` set (forest ?I)" using RC_I pq(1) by auto
    from res_sub pq(2) consider "q = (t, ''DIV'')" | "q \<in> set (forest tk)" | "q \<in> set (forest N')"
      by auto
    then show False
    proof cases
      case 1
      then show ?thesis using I_apart pI pq(3) by auto
    next
      case 2
      then show ?thesis using c(2) pq(1,3) by (metis disjoint_iff image_eqI)
    next
      case 3
      then have "fst q \<in> fst ` set (forest N')" by simp
      then show ?thesis using I_apart pI pq(3) by auto
    qed
  qed
  show "fst ` set (forest R) \<inter> fst ` set (forest (childNodes (compileStructure this))) = {}"
    unfolding ch Req using gT gE gC by (auto simp add: forest_append)
qed

text \<open>
  C1, as amended. For a list item with distinct node identities whose top wrapper is
  not itself removed as the first of several \<open>div.expandable-content\<close>: every node
  (element or text) in the subtree of the item before \<open>_compile\<close> is in the subtree
  afterwards or in the subtree of a node that \<open>_compile\<close> removes as the first of several
  duplicates of a wrapper; the nodes of those subtrees were nodes of the item and none
  of them is in the subtree afterwards; and the number of element nodes decreases by
  no more than the element nodes of those subtrees. (The statement is about \<open>_compile\<close>
  up to its closing \<open>util.updateRipple\<close>.)
\<close>

theorem compile_keeps_nodes:
  assumes "wellFormed this" "\<not> topRemoved this"
  shows "set (forest (childNodes this))
           \<subseteq> set (forest (childNodes (compileStructure this))) \<union> set (forest (removedByCompile this))
       \<and> fst ` set (forest (removedByCompile this))
           \<inter> fst ` set (forest (childNodes (compileStructure this))) = {}
       \<and> set (forest (removedByCompile this)) \<subseteq> set (forest (childNodes this))
       \<and> length (elements (childNodes this))
           \<le> length (elements (childNodes (compileStructure this)))
             + length (elements (removedByCompile this))"
proof -
  let ?s = "compileStructure this"
  let ?R = "removedByCompile this"
  note wf = assms(1) [unfolded wellFormed_def]
  have main: "set (forest (childNodes this)) \<subseteq> set (forest (childNodes ?s)) \<union> set (forest ?R)
       \<and> fst ` set (forest ?R) \<inter> fst ` set (forest (childNodes ?s)) = {}
       \<and> set (forest ?R) \<subseteq> set (forest (childNodes this))"
  proof (cases "expandable this")
    case True
    obtain a1 k1 t where T: "wrapperOrNew ''top'' (allocated this) (childNodes this) = (a1, k1, t)"
      by (cases "wrapperOrNew ''top'' (allocated this) (childNodes this)") auto
    obtain a2 K x where X: "wrapperOrNew ''expandable-content'' a1 k1 = (a2, K, x)"
      by (cases "wrapperOrNew ''expandable-content'' a1 k1") auto
    obtain a3 tk where C: "compileContent True a2 (kidsOf t k1 @ filter (toTop t) K) = (a3, tk)"
      by (cases "compileContent True a2 (kidsOf t k1 @ filter (toTop t) K)") auto
    have tin: "t \<notin> nid ` set (firstOfSeveral ''expandable-content'' k1)"
      using assms(2) True by (simp add: topRemoved_def T)
    have R: "?R = firstOfSeveral ''top'' (childNodes this)
                  @ firstOfSeveral ''expandable-content'' k1
                  @ removedFromContent True a2 (kidsOf t k1 @ filter (toTop t) K)"
      by (simp add: removedByCompile_def removedWrappers_def True T X)
    from expandable_lost [OF True wf T X C tin R] show ?thesis by (intro conjI)
  next
    case False
    obtain a' tk' where C: "compileContent False (allocated this) (childNodes this) = (a', tk')"
      by (cases "compileContent False (allocated this) (childNodes this)") auto
    have R: "?R = removedFromContent False (allocated this) (childNodes this)"
      by (simp add: removedByCompile_def False)
    have ch: "childNodes ?s = tk'" by (simp add: compileStructure_plain [OF False C])
    from content_lost [OF wf C] show ?thesis
      unfolding R ch using forest_mono [of "removedFromContent False (allocated this) (childNodes this)"
          "childNodes this"] by (intro conjI) simp_all
  qed
  have "distinct (forest (childNodes this))"
    using wf by (simp add: wellFormedNodes_def distinct_map)
  then have d: "distinct (elements (childNodes this))" by (simp add: elements_def)
  have "set (elements (childNodes this)) \<subseteq> set (elements (childNodes ?s)) \<union> set (elements ?R)"
    using main by (auto simp add: elements_def)
  then have "card (set (elements (childNodes this)))
               \<le> card (set (elements (childNodes ?s)) \<union> set (elements ?R))"
    by (intro card_mono) simp_all
  also have "\<dots> \<le> card (set (elements (childNodes ?s))) + card (set (elements ?R))"
    by (rule card_Un_le)
  also have "\<dots> \<le> length (elements (childNodes ?s)) + length (elements ?R)"
    by (intro add_mono card_length)
  finally have "length (elements (childNodes this))
                  \<le> length (elements (childNodes ?s)) + length (elements ?R)"
    using distinct_card [OF d] by simp
  with main show ?thesis by (intro conjI) simp_all
qed

text \<open>
  An expandable item with two \<open>div.top\<close> and two \<open>div.expandable-content\<close>: the first
  of each is removed, the first \<open>div.top\<close> with the text in it.
\<close>

theorem compile_keeps_nodes_witness:
  "wellFormed (ListItem_constructor [(''expandable'', [])] []
      [Element 0 ''DIV'' [''top''] [] [Text 1 ''a''], Element 2 ''DIV'' [''top''] [] [],
       Element 3 ''DIV'' [''expandable-content''] [] [],
       Element 4 ''DIV'' [''expandable-content''] [] [], Text 5 ''b''] 6)
   \<and> \<not> topRemoved (ListItem_constructor [(''expandable'', [])] []
      [Element 0 ''DIV'' [''top''] [] [Text 1 ''a''], Element 2 ''DIV'' [''top''] [] [],
       Element 3 ''DIV'' [''expandable-content''] [] [],
       Element 4 ''DIV'' [''expandable-content''] [] [], Text 5 ''b''] 6)
   \<and> removedByCompile (ListItem_constructor [(''expandable'', [])] []
      [Element 0 ''DIV'' [''top''] [] [Text 1 ''a''], Element 2 ''DIV'' [''top''] [] [],
       Element 3 ''DIV'' [''expandable-content''] [] [],
       Element 4 ''DIV'' [''expandable-content''] [] [], Text 5 ''b''] 6)
     = [Element 0 ''DIV'' [''top''] [] [Text 1 ''a''], Element 3 ''DIV'' [''expandable-content''] [] []]
   \<and> set (forest
      [Element 0 ''DIV'' [''top''] [] [Text 1 ''a''], Element 2 ''DIV'' [''top''] [] [],
       Element 3 ''DIV'' [''expandable-content''] [] [],
       Element 4 ''DIV'' [''expandable-content''] [] [], Text 5 ''b''])
       \<subseteq> set (forest (childNodes (compileStructure (ListItem_constructor [(''expandable'', [])] []
      [Element 0 ''DIV'' [''top''] [] [Text 1 ''a''], Element 2 ''DIV'' [''top''] [] [],
       Element 3 ''DIV'' [''expandable-content''] [] [],
       Element 4 ''DIV'' [''expandable-content''] [] [], Text 5 ''b''] 6))))
         \<union> set (forest [Element 0 ''DIV'' [''top''] [] [Text 1 ''a''],
                         Element 3 ''DIV'' [''expandable-content''] [] []])"
proof -
  let ?b = "ListItem_constructor [(''expandable'', [])] []
      [Element 0 ''DIV'' [''top''] [] [Text 1 ''a''], Element 2 ''DIV'' [''top''] [] [],
       Element 3 ''DIV'' [''expandable-content''] [] [],
       Element 4 ''DIV'' [''expandable-content''] [] [], Text 5 ''b''] 6"
  have w: "wellFormed ?b" by code_simp
  have n: "\<not> topRemoved ?b" by code_simp
  have r: "removedByCompile ?b
     = [Element 0 ''DIV'' [''top''] [] [Text 1 ''a''], Element 3 ''DIV'' [''expandable-content''] [] []]"
    by code_simp
  have k: "childNodes ?b
      = [Element 0 ''DIV'' [''top''] [] [Text 1 ''a''], Element 2 ''DIV'' [''top''] [] [],
       Element 3 ''DIV'' [''expandable-content''] [] [],
       Element 4 ''DIV'' [''expandable-content''] [] [], Text 5 ''b'']"
    by (simp add: ListItem_constructor_def Let_def)
  from compile_keeps_nodes [OF w n]
  have "set (forest (childNodes ?b))
           \<subseteq> set (forest (childNodes (compileStructure ?b))) \<union> set (forest (removedByCompile ?b))"
    by (rule conjunct1)
  then have "set (forest
      [Element 0 ''DIV'' [''top''] [] [Text 1 ''a''], Element 2 ''DIV'' [''top''] [] [],
       Element 3 ''DIV'' [''expandable-content''] [] [],
       Element 4 ''DIV'' [''expandable-content''] [] [], Text 5 ''b''])
       \<subseteq> set (forest (childNodes (compileStructure ?b)))
         \<union> set (forest [Element 0 ''DIV'' [''top''] [] [Text 1 ''a''],
                         Element 3 ''DIV'' [''expandable-content''] [] []])"
    unfolding r k .
  with w n r show ?thesis by (intro conjI)
qed

text \<open>
  The claim as stated fails with duplicate wrappers: of two \<open>div.center\<close> the first is
  removed with everything in it. The item is
  \<open><ons-list-item><div class="center"><span></span></div><div class="center"></div></ons-list-item>\<close>.
  And when the first of two \<open>div.expandable-content\<close> is a \<open>div.top\<close> as well, the
  top wrapper itself is removed, and with it the \<open>span\<close> that is moved into it, which
  was in no duplicate.
\<close>

theorem compile_keeps_nodes_counterexample:
  "wellFormed (ListItem_constructor [] []
      [Element 0 ''DIV'' [''center''] [] [Element 1 ''SPAN'' [] [] []],
       Element 2 ''DIV'' [''center''] [] []] 3)
   \<and> (1, ''SPAN'') \<in> set (forest
      [Element 0 ''DIV'' [''center''] [] [Element 1 ''SPAN'' [] [] []],
       Element 2 ''DIV'' [''center''] [] []])
   \<and> (1, ''SPAN'') \<notin> set (forest (childNodes (compileStructure (ListItem_constructor [] []
      [Element 0 ''DIV'' [''center''] [] [Element 1 ''SPAN'' [] [] []],
       Element 2 ''DIV'' [''center''] [] []] 3))))
   \<and> length (elements (childNodes (compileStructure (ListItem_constructor [] []
      [Element 0 ''DIV'' [''center''] [] [Element 1 ''SPAN'' [] [] []],
       Element 2 ''DIV'' [''center''] [] []] 3)))) = 1
   \<and> length (elements
      [Element 0 ''DIV'' [''center''] [] [Element 1 ''SPAN'' [] [] []],
       Element 2 ''DIV'' [''center''] [] []]) = 3
   \<and> wellFormed (ListItem_constructor [(''expandable'', [])] []
      [Element 0 ''DIV'' [''top'', ''expandable-content''] [] [],
       Element 1 ''DIV'' [''expandable-content''] [] [], Element 2 ''SPAN'' [] [] []] 3)
   \<and> topRemoved (ListItem_constructor [(''expandable'', [])] []
      [Element 0 ''DIV'' [''top'', ''expandable-content''] [] [],
       Element 1 ''DIV'' [''expandable-content''] [] [], Element 2 ''SPAN'' [] [] []] 3)
   \<and> (2, ''SPAN'') \<notin> set (forest (childNodes (compileStructure
      (ListItem_constructor [(''expandable'', [])] []
      [Element 0 ''DIV'' [''top'', ''expandable-content''] [] [],
       Element 1 ''DIV'' [''expandable-content''] [] [], Element 2 ''SPAN'' [] [] []] 3))))
   \<and> (2, ''SPAN'') \<notin> set (forest (removedByCompile
      (ListItem_constructor [(''expandable'', [])] []
      [Element 0 ''DIV'' [''top'', ''expandable-content''] [] [],
       Element 1 ''DIV'' [''expandable-content''] [] [], Element 2 ''SPAN'' [] [] []] 3)))"
  by code_simp

lemma expandable_stay:
  assumes e: "expandable this" and wf: "wellFormedNodes (allocated this) (childNodes this)"
    and n: "n \<in> set (childNodes this)" "hasClass ''expandable-content'' n \<or> ripple n"
      "n \<notin> set (removedWrappers this)"
  shows "nid n \<in> nid ` set (childNodes (compileStructure this))"
proof -
  note sib0 = wellFormedNodes_siblings [OF wf]
  obtain a1 k1 t where T: "wrapperOrNew ''top'' (allocated this) (childNodes this) = (a1, k1, t)"
    by (cases "wrapperOrNew ''top'' (allocated this) (childNodes this)") auto
  obtain a2 K x where X: "wrapperOrNew ''expandable-content'' a1 k1 = (a2, K, x)"
    by (cases "wrapperOrNew ''expandable-content'' a1 k1") auto
  obtain a3 tk where C: "compileContent True a2 (kidsOf t k1 @ filter (toTop t) K) = (a3, tk)"
    by (cases "compileContent True a2 (kidsOf t k1 @ filter (toTop t) K)") auto
  note sib1 = wellFormedNodes_siblings [OF wrapperOrNew_wf [OF T wf]]
  from n(3) have out: "n \<notin> set (firstOfSeveral ''top'' (childNodes this))"
    "n \<notin> set (firstOfSeveral ''expandable-content'' k1)"
    by (simp_all add: removedWrappers_def T)
  have "n \<in> set k1" using wrapperOrNew_lost [OF T sib0 n(1)] out(1) by simp
  then have "n \<in> set K" using wrapperOrNew_lost [OF X sib1] out(2) by blast
  moreover have "\<not> toTop t n" using n(2) by (auto simp add: toTop_def ripple_def)
  ultimately have m: "n \<in> set (filter (\<lambda>n. \<not> toTop t n) K)" by simp
  define h where "h = (\<lambda>k. if nid k = t then setKids tk (markTop t x k) else markTop t x k)"
  have "nid (h n) = nid n" by (simp add: h_def)
  moreover have "h n \<in> set (map h (filter (\<lambda>n. \<not> toTop t n) K))" using m by (simp only: set_map) (rule imageI)
  ultimately have "nid n \<in> nid ` set (map h (filter (\<lambda>n. \<not> toTop t n) K))"
    by (metis imageI)
  then show ?thesis unfolding expandable_children(1) [OF e sib0 T X C] h_def .
qed



text \<open>
  The single \<open>div\<close> of the example ends up inside a new \<open>div.center\<close> that carries
  \<open>list-item__center\<close>.
\<close>

lemma compile_single_div:
  "childNodes (compileStructure
      (ListItem_constructor [] [] [Element 0 ''DIV'' [] [(''id'', ''x'')] []] 1))
   = [Element 1 ''DIV'' [''center'', ''list-item__center''] []
        [Element 0 ''DIV'' [] [(''id'', ''x'')] []]]"
  by code_simp


section \<open>The sections of the tab compiler\<close>

lemma removeNodes_filter: "removeNodes xs ks = filter (\<lambda>n. nid n \<notin> nid ` set xs) ks"
proof (induction xs arbitrary: ks)
  case Nil
  then show ?case by (simp add: removeNodes_def)
next
  case (Cons x xs)
  have "removeNodes (x # xs) ks = removeNodes xs (removeNode (nid x) ks)"
    by (simp add: removeNodes_def)
  also have "\<dots> = filter (\<lambda>n. nid n \<notin> nid ` set xs) (filter (\<lambda>n. nid n \<noteq> nid x) ks)"
    by (simp add: Cons.IH removeNode_def)
  also have "\<dots> = filter (\<lambda>n. nid n \<notin> nid ` set (x # xs)) ks"
    by (auto intro: filter_cong)
  finally show ?case .
qed

lemma removeNodes_Nil [simp]: "removeNodes [] ks = ks"
  by (simp add: removeNodes_def)

lemma resolveWrapper_cases [consumes 1, case_names Create Absent Remove Rehydrate Keep]:
  assumes "resolveWrapper sel has touched new k front write setRef (this, bk) = (this', bk')"
  obtains (Create) "filter sel bk = []" "has"
      "this' = setRef (Some (new (tabAllocated this))) (this\<lparr>tabAllocated := tabAllocated this + k\<rparr>)"
      "bk' = (if front then new (tabAllocated this) # bk else bk @ [new (tabAllocated this)])"
  | (Absent) "filter sel bk = []" "\<not> has" "this' = setRef None this" "bk' = bk"
  | (Remove) w ws where "filter sel bk = w # ws" "\<not> has" "touched" "this' = setRef None this"
      "bk' = removeNodes ws (removeNode (nid w) bk)"
  | (Rehydrate) w ws where "filter sel bk = w # ws" "\<not> has" "\<not> touched"
      "this' = setRef (Some w) (write w this)" "bk' = removeNodes ws bk"
  | (Keep) w ws where "filter sel bk = w # ws" "has" "this' = setRef (Some w) this"
      "bk' = removeNodes ws bk"
  using assms unfolding resolveWrapper_def
  by (cases "filter sel bk"; cases has; cases touched; simp; blast)

lemma compileIcon_resolve:
  "compileIcon iconProperty (this, bk) =
     resolveWrapper (hasClass ''tabbar__icon'') (hasIcon this) (iconPropertiesTouched this)
       newIconWrapper 2 False (\<lambda>w. Tab_setAttribute ''icon'' (iconValue iconProperty w))
       setIconElement (this, bk)"
  by (cases "filter (hasClass ''tabbar__icon'') bk")
    (simp_all add: compileIcon_def resolveWrapper_def hasIcon_def iconValue_def newIconWrapper_def
      setIconElement_def Let_def queryIcon_def hasTag_def)

lemma compileLabel_resolve:
  "compileLabel (this, bk) =
     resolveWrapper (hasClass ''tabbar__label'') (truthy (Tab_getAttribute ''label'' this))
       (labelPropertyTouched this) (\<lambda>a. Element a ''DIV'' [''tabbar__label''] [] []) 1 False
       (\<lambda>w. Tab_setAttribute ''label'' (textContent w))
       (\<lambda>w t. t\<lparr>labelElement := map_option nid w\<rparr>) (this, bk)"
  by (cases "filter (hasClass ''tabbar__label'') bk")
    (simp_all add: compileLabel_def compileText_def resolveWrapper_def Let_def)

lemma compileBadge_resolve:
  "compileBadge (this, bk) =
     resolveWrapper (hasClass ''tabbar__badge'') (truthy (Tab_getAttribute ''badge'' this))
       (badgePropertyTouched this) (\<lambda>a. Element a ''DIV'' [''tabbar__badge'', ''notification''] [] [])
       1 False (\<lambda>w. Tab_setAttribute ''badge'' (textContent w))
       (\<lambda>w t. t\<lparr>badgeElement := map_option nid w\<rparr>) (this, bk)"
  by (cases "filter (hasClass ''tabbar__badge'') bk")
    (simp_all add: compileBadge_def compileText_def resolveWrapper_def Let_def)

lemma compileRipple_resolve:
  "compileRipple (this, bk) =
     resolveWrapper (hasTag ''ONS-RIPPLE'') (Tab_ripple this) (ripplePropertyTouched this)
       (\<lambda>a. Element a ''ONS-RIPPLE'' [] [] []) 1 True (\<lambda>w. Tab_setRipple) (\<lambda>w t. t) (this, bk)"
  by (cases "filter (hasTag ''ONS-RIPPLE'') bk")
    (simp_all add: compileRipple_def resolveWrapper_def Let_def)


lemma resolveWrapper_member:
  assumes "resolveWrapper sel has touched new k front write setRef (this, bk) = (this', bk')"
    "m \<in> set bk'"
  shows "m \<in> set bk \<or> (has \<and> filter sel bk = [] \<and> m = new (tabAllocated this))"
  using assms(1)
proof (cases rule: resolveWrapper_cases)
  case Create
  then show ?thesis using assms(2) by (auto split: if_splits)
next
  case Absent
  then show ?thesis using assms(2) by simp
next
  case (Remove w ws)
  then show ?thesis using assms(2) by (simp add: removeNodes_filter removeNode_def)
next
  case (Rehydrate w ws)
  then show ?thesis using assms(2) by (simp add: removeNodes_filter)
next
  case (Keep w ws)
  then show ?thesis using assms(2) by (simp add: removeNodes_filter)
qed

lemma filter_ids:
  assumes "filter sel bk = xs" "n \<in> set bk" "\<not> sel n" "distinct (map nid bk)"
  shows "nid n \<notin> nid ` set xs"
proof
  assume "nid n \<in> nid ` set xs"
  then obtain x where x: "x \<in> set xs" "nid x = nid n" by auto
  then have "x \<in> set bk" "sel x" using assms(1) by auto
  then have "x = n" using x(2) assms(2,4) by (auto simp add: distinct_map inj_on_def)
  then show False using \<open>sel x\<close> assms(3) by simp
qed

lemma resolveWrapper_kept:
  assumes "resolveWrapper sel has touched new k front write setRef (this, bk) = (this', bk')"
    "n \<in> set bk" "\<not> sel n" "distinct (map nid bk)"
  shows "n \<in> set bk'"
  using assms(1)
proof (cases rule: resolveWrapper_cases)
  case Create
  then show ?thesis using assms(2) by simp
next
  case Absent
  then show ?thesis using assms(2) by simp
next
  case (Remove w ws)
  from filter_ids [OF Remove(1) assms(2,3,4)] Remove(5) assms(2)
  show ?thesis by (simp add: removeNodes_filter removeNode_def)
next
  case (Rehydrate w ws)
  from filter_ids [OF Rehydrate(1) assms(2,3,4)] Rehydrate(5) assms(2)
  show ?thesis by (simp add: removeNodes_filter)
next
  case (Keep w ws)
  from filter_ids [OF Keep(1) assms(2,3,4)] Keep(4) assms(2)
  show ?thesis by (simp add: removeNodes_filter)
qed

lemma filter_removed:
  assumes "filter sel bk = xs" "distinct (map nid bk)" "\<forall>n. p n \<longrightarrow> \<not> sel n" "set ys \<subseteq> set xs"
  shows "filter p (filter (\<lambda>n. nid n \<notin> nid ` set ys) bk) = filter p bk"
proof -
  have "\<And>n. n \<in> set bk \<Longrightarrow> p n \<Longrightarrow> nid n \<notin> nid ` set ys"
    using filter_ids [OF assms(1) _ _ assms(2)] assms(3,4) by blast
  then show ?thesis by (auto intro: filter_cong)
qed

lemma resolveWrapper_filter:
  assumes "resolveWrapper sel has touched new k front write setRef (this, bk) = (this', bk')"
    "distinct (map nid bk)" "\<And>n. p n \<Longrightarrow> \<not> sel n" "\<not> p (new (tabAllocated this))"
  shows "filter p bk' = filter p bk"
  using assms(1)
proof (cases rule: resolveWrapper_cases)
  case Create
  then show ?thesis using assms(4) by simp
next
  case Absent
  then show ?thesis by simp
next
  case (Remove w ws)
  have "bk' = filter (\<lambda>n. nid n \<notin> nid ` set (w # ws)) bk"
    unfolding Remove(5) removeNodes_filter removeNode_def by (auto intro: filter_cong)
  moreover have "filter p (filter (\<lambda>n. nid n \<notin> nid ` set (w # ws)) bk) = filter p bk"
    by (rule filter_removed [OF Remove(1) assms(2)]) (use assms(3) in auto)
  ultimately show ?thesis by simp
next
  case (Rehydrate w ws)
  have "filter p (filter (\<lambda>n. nid n \<notin> nid ` set ws) bk) = filter p bk"
    by (rule filter_removed [OF Rehydrate(1) assms(2)]) (use assms(3) in auto)
  then show ?thesis by (simp add: Rehydrate(5) removeNodes_filter)
next
  case (Keep w ws)
  have "filter p (filter (\<lambda>n. nid n \<notin> nid ` set ws) bk) = filter p bk"
    by (rule filter_removed [OF Keep(1) assms(2)]) (use assms(3) in auto)
  then show ?thesis by (simp add: Keep(4) removeNodes_filter)
qed

text \<open>What a section leaves of its own wrappers.\<close>

lemma filter_own:
  assumes "filter sel bk = w # ws" "distinct (map nid bk)"
  shows "filter sel (filter (\<lambda>n. nid n \<notin> nid ` set ws) bk) = [w]"
    and "filter sel (filter (\<lambda>n. nid n \<notin> nid ` set (w # ws)) bk) = []"
proof -
  have d: "distinct (map nid (w # ws))"
    using assms distinct_map_filter [of nid bk sel] by simp
  have "filter sel (filter (\<lambda>n. nid n \<notin> nid ` set ws) bk)
      = filter (\<lambda>n. nid n \<notin> nid ` set ws) (filter sel bk)"
    by (simp add: conj_commute)
  also have "\<dots> = [w]" using d by (auto simp add: assms(1) filter_empty_conv)
  finally show "filter sel (filter (\<lambda>n. nid n \<notin> nid ` set ws) bk) = [w]" .
  have "filter sel (filter (\<lambda>n. nid n \<notin> nid ` set (w # ws)) bk)
      = filter (\<lambda>n. nid n \<notin> nid ` set (w # ws)) (filter sel bk)"
    by (simp add: conj_commute)
  also have "\<dots> = []" by (auto simp add: assms(1) filter_empty_conv)
  finally show "filter sel (filter (\<lambda>n. nid n \<notin> nid ` set (w # ws)) bk) = []" .
qed

lemma resolveWrapper_own:
  assumes "resolveWrapper sel has touched new k front write setRef (this, bk) = (this', bk')"
    "distinct (map nid bk)" "sel (new (tabAllocated this))"
  shows "filter sel bk' =
          (case filter sel bk of
             [] \<Rightarrow> if has then [new (tabAllocated this)] else []
           | w # ws \<Rightarrow> if \<not> has \<and> touched then [] else [w])"
  using assms(1)
proof (cases rule: resolveWrapper_cases)
  case Create
  then show ?thesis using assms(3) by simp
next
  case Absent
  then show ?thesis by simp
next
  case (Remove w ws)
  have "bk' = filter (\<lambda>n. nid n \<notin> nid ` set (w # ws)) bk"
    unfolding Remove(5) removeNodes_filter removeNode_def by (auto intro: filter_cong)
  then show ?thesis using filter_own(2) [OF Remove(1) assms(2)] Remove(1,2,3) by simp
next
  case (Rehydrate w ws)
  then show ?thesis using filter_own(1) [OF Rehydrate(1) assms(2)] by (simp add: removeNodes_filter)
next
  case (Keep w ws)
  then show ?thesis using filter_own(1) [OF Keep(1) assms(2)] by (simp add: removeNodes_filter)
qed


lemma Tab_compile_sections:
  "Tab_compile iconProperty this =
     (let (this1, button, bk) = compileChildren this;
          (this2, bk1) = compileSections iconProperty (this1, bk)
      in this2\<lparr>tabChildNodes := onNode button (setKids bk1) (tabChildNodes this2)\<rparr>)"
  by (simp add: Tab_compile_def compileSections_def)

lemma getAttribute_setAttribute:
  "Tab_getAttribute name (Tab_setAttribute name' v this)
     = (if name = name' then Some v else Tab_getAttribute name this)"
proof -
  let ?f = "\<lambda>p. if fst p = name' then (name', v) else p"
  have a1: "name' \<in> fst ` set xs \<Longrightarrow> map_of (map ?f xs) name' = Some v" for xs
    by (induction xs) auto
  have a2: "name \<noteq> name' \<Longrightarrow> map_of (map ?f xs) name = map_of xs name" for xs
    by (induction xs) auto
  have b: "name' \<notin> fst ` set xs \<Longrightarrow> map_of (xs @ [(name', v)]) name
      = (if name = name' then Some v else map_of xs name)" for xs
    by (induction xs) auto
  show ?thesis
  proof (cases "name = name'")
    case True
    then show ?thesis using a1 [of "tabAttributes this"] b [of "tabAttributes this"]
      by (simp add: Tab_getAttribute_def Tab_setAttribute_def)
  next
    case False
    then show ?thesis using a2 [of "tabAttributes this"] b [of "tabAttributes this"]
      by (simp add: Tab_getAttribute_def Tab_setAttribute_def)
  qed
qed

lemma setAttribute_fields [simp]:
  "tabChildNodes (Tab_setAttribute name v this) = tabChildNodes this"
  "tabAllocated (Tab_setAttribute name v this) = tabAllocated this"
  "iconPropertiesTouched (Tab_setAttribute name v this) = iconPropertiesTouched this"
  "labelPropertyTouched (Tab_setAttribute name v this) = labelPropertyTouched this"
  "badgePropertyTouched (Tab_setAttribute name v this) = badgePropertyTouched this"
  "ripplePropertyTouched (Tab_setAttribute name v this) = ripplePropertyTouched this"
  "automaticallyAddedButton (Tab_setAttribute name v this) = automaticallyAddedButton this"
  "inputElement (Tab_setAttribute name v this) = inputElement this"
  "iconElement (Tab_setAttribute name v this) = iconElement this"
  "labelElement (Tab_setAttribute name v this) = labelElement this"
  "badgeElement (Tab_setAttribute name v this) = badgeElement this"
  by (simp_all add: Tab_setAttribute_def)

lemma getAttribute_fields [simp]:
  "Tab_getAttribute name (this\<lparr>tabChildNodes := ks\<rparr>) = Tab_getAttribute name this"
  "Tab_getAttribute name (this\<lparr>tabAllocated := a\<rparr>) = Tab_getAttribute name this"
  "Tab_getAttribute name (this\<lparr>automaticallyAddedButton := b\<rparr>) = Tab_getAttribute name this"
  "Tab_getAttribute name (this\<lparr>inputElement := b\<rparr>) = Tab_getAttribute name this"
  "Tab_getAttribute name (this\<lparr>iconElement := b\<rparr>) = Tab_getAttribute name this"
  "Tab_getAttribute name (this\<lparr>labelElement := b\<rparr>) = Tab_getAttribute name this"
  "Tab_getAttribute name (this\<lparr>badgeElement := b\<rparr>) = Tab_getAttribute name this"
  by (simp_all add: Tab_getAttribute_def)

lemma untouched_trans:
  "untouched a t1 t2 \<Longrightarrow> untouched b t2 t3 \<Longrightarrow> name \<noteq> a \<Longrightarrow> name \<noteq> b
   \<Longrightarrow> Tab_getAttribute name t3 = Tab_getAttribute name t1"
  by (simp add: untouched_def)

lemma compileIcon_untouched:
  assumes "compileIcon iconProperty (this, bk) = (this', bk')"
  shows "untouched ''icon'' this this'"
  using assms unfolding compileIcon_resolve
  by (cases rule: resolveWrapper_cases)
    (simp_all add: untouched_def setIconElement_def getAttribute_setAttribute)

lemma compileLabel_untouched:
  assumes "compileLabel (this, bk) = (this', bk')"
  shows "untouched ''label'' this this'"
  using assms unfolding compileLabel_resolve
  by (cases rule: resolveWrapper_cases) (simp_all add: untouched_def getAttribute_setAttribute)

lemma compileBadge_untouched:
  assumes "compileBadge (this, bk) = (this', bk')"
  shows "untouched ''badge'' this this'"
  using assms unfolding compileBadge_resolve
  by (cases rule: resolveWrapper_cases) (simp_all add: untouched_def getAttribute_setAttribute)

lemma compileRipple_untouched:
  assumes "compileRipple (this, bk) = (this', bk')"
  shows "untouched ''ripple'' this this'"
  using assms unfolding compileRipple_resolve
  by (cases rule: resolveWrapper_cases)
    (simp_all add: untouched_def Tab_setRipple_def getAttribute_setAttribute)

lemma resolveWrapper_siblings:
  assumes "resolveWrapper sel has touched new k front write setRef (this, bk) = (this', bk')"
    "siblings (tabAllocated this) bk"
    "nid (new (tabAllocated this)) = tabAllocated this" "0 < k"
    "\<And>r x. tabAllocated (setRef r x) = tabAllocated x"
    "\<And>w x. tabAllocated (write w x) = tabAllocated x"
  shows "siblings (tabAllocated this') bk'"
  using assms(1)
proof (cases rule: resolveWrapper_cases)
  case Create
  have a: "tabAllocated this' = tabAllocated this + k" using Create(3) assms(5) by simp
  have "siblings (tabAllocated this + k) (new (tabAllocated this) # bk)"
    using assms(2,3,4) by (intro siblings_Cons [of "tabAllocated this"]) simp_all
  then show ?thesis unfolding a Create(4) by (auto simp add: siblings_def)
next
  case Absent
  then show ?thesis using assms(2,5) by simp
next
  case (Remove w ws)
  then show ?thesis using assms(2,5)
    by (simp add: removeNodes_filter removeNode_def siblings_filter)
next
  case (Rehydrate w ws)
  then show ?thesis using assms(2,5,6) by (simp add: removeNodes_filter siblings_filter)
next
  case (Keep w ws)
  then show ?thesis using assms(2,5) by (simp add: removeNodes_filter siblings_filter)
qed

lemma compileIcon_siblings:
  assumes "compileIcon iconProperty (this, bk) = (this', bk')" "siblings (tabAllocated this) bk"
  shows "siblings (tabAllocated this') bk'"
  using assms unfolding compileIcon_resolve
  by (rule resolveWrapper_siblings) (simp_all add: newIconWrapper_def setIconElement_def)

lemma compileLabel_siblings:
  assumes "compileLabel (this, bk) = (this', bk')" "siblings (tabAllocated this) bk"
  shows "siblings (tabAllocated this') bk'"
  using assms unfolding compileLabel_resolve
  by (rule resolveWrapper_siblings) simp_all

lemma compileBadge_siblings:
  assumes "compileBadge (this, bk) = (this', bk')" "siblings (tabAllocated this) bk"
  shows "siblings (tabAllocated this') bk'"
  using assms unfolding compileBadge_resolve
  by (rule resolveWrapper_siblings) simp_all

lemma compileRipple_siblings:
  assumes "compileRipple (this, bk) = (this', bk')" "siblings (tabAllocated this) bk"
  shows "siblings (tabAllocated this') bk'"
  using assms unfolding compileRipple_resolve
  by (rule resolveWrapper_siblings) (simp_all add: Tab_setRipple_def)

lemma compileSections_steps:
  assumes "compileSections iconProperty (this, bk) = (this', bk')"
  obtains t1 k1 t2 k2 t3 k3 where
    "compileIcon iconProperty (this, bk) = (t1, k1)" "compileLabel (t1, k1) = (t2, k2)"
    "compileBadge (t2, k2) = (t3, k3)" "compileRipple (t3, k3) = (this', bk')"
proof -
  obtain t1 k1 where a: "compileIcon iconProperty (this, bk) = (t1, k1)"
    by (cases "compileIcon iconProperty (this, bk)") auto
  obtain t2 k2 where b: "compileLabel (t1, k1) = (t2, k2)"
    by (cases "compileLabel (t1, k1)") auto
  obtain t3 k3 where c: "compileBadge (t2, k2) = (t3, k3)"
    by (cases "compileBadge (t2, k2)") auto
  have "compileRipple (t3, k3) = (this', bk')"
    using assms a b c by (simp add: compileSections_def)
  with a b c show ?thesis by (rule that)
qed

lemma compileSections_fields:
  assumes "compileSections iconProperty (this, bk) = (this', bk')"
  shows "tabChildNodes this' = tabChildNodes this"
    and "automaticallyAddedButton this' = automaticallyAddedButton this"
    and "inputElement this' = inputElement this"
    and "iconPropertiesTouched this' = iconPropertiesTouched this"
    and "tabAllocated this \<le> tabAllocated this'"
    and "Tab_getAttribute ''active-icon'' this' = Tab_getAttribute ''active-icon'' this"
proof -
  from assms obtain t1 k1 t2 k2 t3 k3 where st:
    "compileIcon iconProperty (this, bk) = (t1, k1)" "compileLabel (t1, k1) = (t2, k2)"
    "compileBadge (t2, k2) = (t3, k3)" "compileRipple (t3, k3) = (this', bk')"
    by (rule compileSections_steps)
  note u = compileIcon_untouched [OF st(1)] compileLabel_untouched [OF st(2)]
    compileBadge_untouched [OF st(3)] compileRipple_untouched [OF st(4)]
  show "tabChildNodes this' = tabChildNodes this"
    and "automaticallyAddedButton this' = automaticallyAddedButton this"
    and "inputElement this' = inputElement this"
    and "iconPropertiesTouched this' = iconPropertiesTouched this"
    and "tabAllocated this \<le> tabAllocated this'"
    and "Tab_getAttribute ''active-icon'' this' = Tab_getAttribute ''active-icon'' this"
    using u by (simp_all add: untouched_def)
qed

lemma compileSections_siblings:
  assumes "compileSections iconProperty (this, bk) = (this', bk')" "siblings (tabAllocated this) bk"
  shows "siblings (tabAllocated this') bk'"
proof -
  from assms(1) obtain t1 k1 t2 k2 t3 k3 where st:
    "compileIcon iconProperty (this, bk) = (t1, k1)" "compileLabel (t1, k1) = (t2, k2)"
    "compileBadge (t2, k2) = (t3, k3)" "compileRipple (t3, k3) = (this', bk')"
    by (rule compileSections_steps)
  note s1 = compileIcon_siblings [OF st(1) assms(2)]
  note s2 = compileLabel_siblings [OF st(2) s1]
  note s3 = compileBadge_siblings [OF st(3) s2]
  show ?thesis by (rule compileRipple_siblings [OF st(4) s3])
qed


section \<open>The button and the input of a tab\<close>

lemma compileButton_cases [consumes 1, case_names User Replace Auto Create]:
  assumes "compileButton this = (this1, button)"
  obtains (User) u where
      "find (\<lambda>n. Some (nid n) \<noteq> automaticallyAddedButton this)
         (filter (hasClass ''tabbar__button'') (tabChildNodes this)) = Some u"
      "automaticallyAddedButton this = None" "this1 = this" "button = nid u"
  | (Replace) u x where
      "find (\<lambda>n. Some (nid n) \<noteq> automaticallyAddedButton this)
         (filter (hasClass ''tabbar__button'') (tabChildNodes this)) = Some u"
      "automaticallyAddedButton this = Some x"
      "this1 = this\<lparr>tabChildNodes := removeNode x (tabChildNodes this),
                     automaticallyAddedButton := None\<rparr>"
      "button = nid u"
  | (Auto) x where
      "find (\<lambda>n. Some (nid n) \<noteq> automaticallyAddedButton this)
         (filter (hasClass ''tabbar__button'') (tabChildNodes this)) = None"
      "automaticallyAddedButton this = Some x" "this1 = this" "button = x"
  | (Create)
      "find (\<lambda>n. Some (nid n) \<noteq> automaticallyAddedButton this)
         (filter (hasClass ''tabbar__button'') (tabChildNodes this)) = None"
      "automaticallyAddedButton this = None"
      "this1 = this\<lparr>tabChildNodes := tabChildNodes this
                       @ [Element (tabAllocated this) ''BUTTON'' [''tabbar__button''] [] []],
                     automaticallyAddedButton := Some (tabAllocated this),
                     tabAllocated := Suc (tabAllocated this)\<rparr>"
      "button = tabAllocated this"
proof (cases "find (\<lambda>n. Some (nid n) \<noteq> automaticallyAddedButton this)
         (filter (hasClass ''tabbar__button'') (tabChildNodes this))")
  case None
  show ?thesis
  proof (cases "automaticallyAddedButton this")
    case no: None
    have c: "compileButton this = (this\<lparr>tabChildNodes := tabChildNodes this
                       @ [Element (tabAllocated this) ''BUTTON'' [''tabbar__button''] [] []],
                     automaticallyAddedButton := Some (tabAllocated this),
                     tabAllocated := Suc (tabAllocated this)\<rparr>, tabAllocated this)"
      using None no by (simp add: compileButton_def Let_def)
    note e = assms [unfolded c prod.inject]
    show ?thesis by (rule Create [OF None no e [THEN conjunct1, symmetric] e [THEN conjunct2, symmetric]])
  next
    case (Some x)
    have c: "compileButton this = (this, x)"
      using None Some by (simp add: compileButton_def Let_def)
    note e = assms [unfolded c prod.inject]
    show ?thesis by (rule Auto [OF None Some e [THEN conjunct1, symmetric] e [THEN conjunct2, symmetric]])
  qed
next
  case (Some u)
  show ?thesis
  proof (cases "automaticallyAddedButton this")
    case None
    have c: "compileButton this = (this, nid u)"
      using None Some by (simp add: compileButton_def Let_def)
    note e = assms [unfolded c prod.inject]
    show ?thesis by (rule User [OF Some None e [THEN conjunct1, symmetric] e [THEN conjunct2, symmetric]])
  next
    case some: (Some x)
    have c: "compileButton this = (this\<lparr>tabChildNodes := removeNode x (tabChildNodes this),
                     automaticallyAddedButton := None\<rparr>, nid u)"
      using some Some by (simp add: compileButton_def Let_def)
    note e = assms [unfolded c prod.inject]
    show ?thesis by (rule Replace [OF Some some e [THEN conjunct1, symmetric] e [THEN conjunct2, symmetric]])
  qed
qed

lemma compileInput_cases [consumes 1, case_names Create Keep]:
  assumes "compileInput this = (this1, input)"
  obtains (Create) "filter (hasTag ''INPUT'') (tabChildNodes this) = []"
      "this1 = this\<lparr>tabChildNodes := tabChildNodes this
                       @ [Element (tabAllocated this) ''INPUT'' []
                            [(''type'', ''radio''), (''style'', ''display: none;'')] []],
                     tabAllocated := Suc (tabAllocated this)\<rparr>"
      "input = tabAllocated this"
  | (Keep) i0 further where "filter (hasTag ''INPUT'') (tabChildNodes this) = i0 # further"
      "this1 = this\<lparr>tabChildNodes := removeNodes further (tabChildNodes this)\<rparr>"
      "input = nid i0"
proof (cases "filter (hasTag ''INPUT'') (tabChildNodes this)")
  case Nil
  have c: "compileInput this = (this\<lparr>tabChildNodes := tabChildNodes this
                       @ [Element (tabAllocated this) ''INPUT'' []
                            [(''type'', ''radio''), (''style'', ''display: none;'')] []],
                     tabAllocated := Suc (tabAllocated this)\<rparr>, tabAllocated this)"
    using Nil by (simp add: compileInput_def Let_def)
  note e = assms [unfolded c prod.inject]
  show ?thesis by (rule Create [OF Nil e [THEN conjunct1, symmetric] e [THEN conjunct2, symmetric]])
next
  case (Cons i0 further)
  have c: "compileInput this = (this\<lparr>tabChildNodes := removeNodes further (tabChildNodes this)\<rparr>, nid i0)"
    using Cons by (simp add: compileInput_def Let_def)
  note e = assms [unfolded c prod.inject]
  show ?thesis by (rule Keep [OF Cons e [THEN conjunct1, symmetric] e [THEN conjunct2, symmetric]])
qed

lemma compileChildren_steps:
  assumes "compileChildren this = (this', button, bk)"
  obtains this1 this2 input where
    "compileButton this = (this1, button)" "compileInput this1 = (this2, input)"
    "this' = this2\<lparr>tabChildNodes :=
               filter (\<lambda>n. \<not> (nid n \<noteq> button \<and> nid n \<noteq> input)) (tabChildNodes this2),
             inputElement := Some input\<rparr>"
    "bk = kidsOf button (tabChildNodes this1)
            @ filter (\<lambda>n. nid n \<noteq> button \<and> nid n \<noteq> input) (tabChildNodes this2)"
proof -
  obtain this1 b where a: "compileButton this = (this1, b)"
    by (cases "compileButton this") auto
  obtain this2 input where b: "compileInput this1 = (this2, input)"
    by (cases "compileInput this1") auto
  from assms a b have "b = button" by (simp add: compileChildren_def Let_def)
  with assms a b show ?thesis by (intro that [of this1 this2 input]) (simp_all add: compileChildren_def Let_def)
qed

lemma compileButton_wellFormed:
  assumes "compileButton this = (this1, button)" "Tab_wellFormed this"
  shows "wellFormedNodes (tabAllocated this1) (tabChildNodes this1)"
    and "tabAllocated this \<le> tabAllocated this1"
    and "\<exists>B \<in> set (tabChildNodes this1). nid B = button
           \<and> (hasClass ''tabbar__button'' B \<or> nodeName B = ''BUTTON'')"
    and "filter (hasTag ''INPUT'') (tabChildNodes this1) = filter (hasTag ''INPUT'') (tabChildNodes this)"
    and "tabAttributes this1 = tabAttributes this"
    and "iconPropertiesTouched this1 = iconPropertiesTouched this"
proof -
  note wf = assms(2) [unfolded Tab_wellFormed_def, THEN conjunct1]
  note at = assms(2) [unfolded Tab_wellFormed_def, THEN conjunct2]
  note sib = wellFormedNodes_siblings [OF wf]
  from assms(1) have "wellFormedNodes (tabAllocated this1) (tabChildNodes this1)
     \<and> tabAllocated this \<le> tabAllocated this1
     \<and> (\<exists>B \<in> set (tabChildNodes this1). nid B = button
           \<and> (hasClass ''tabbar__button'' B \<or> nodeName B = ''BUTTON''))
     \<and> filter (hasTag ''INPUT'') (tabChildNodes this1) = filter (hasTag ''INPUT'') (tabChildNodes this)
     \<and> tabAttributes this1 = tabAttributes this
     \<and> iconPropertiesTouched this1 = iconPropertiesTouched this"
  proof (cases rule: compileButton_cases)
    case (User u)
    from User(1) have "u \<in> set (tabChildNodes this) \<and> hasClass ''tabbar__button'' u"
      by (auto simp add: find_Some_iff dest: nth_mem)
    then show ?thesis using User wf by auto
  next
    case (Replace u x)
    from Replace(1) have u: "u \<in> set (filter (hasClass ''tabbar__button'') (tabChildNodes this))"
      "Some (nid u) \<noteq> automaticallyAddedButton this"
      by (auto simp add: find_Some_iff dest: nth_mem)
    then have "u \<in> set (removeNode x (tabChildNodes this))" "hasClass ''tabbar__button'' u"
      using Replace(2) by (auto simp add: removeNode_def)
    moreover obtain b where b: "b \<in> set (tabChildNodes this)" "nid b = x" "nodeName b = ''BUTTON''"
      using at Replace(2) by (auto simp add: buttonAttached_def)
    have "nid n \<noteq> x" if "n \<in> set (tabChildNodes this)" "hasTag ''INPUT'' n" for n
    proof
      assume "nid n = x"
      then have "n = b" using siblings_same_id [OF sib that(1) b(1)] b(2) by simp
      then show False using that(2) b(3) by (simp add: hasTag_def)
    qed
    then have "filter (hasTag ''INPUT'') (removeNode x (tabChildNodes this))
        = filter (hasTag ''INPUT'') (tabChildNodes this)"
      unfolding removeNode_def by (auto intro: filter_cong)
    ultimately show ?thesis
      using Replace wellFormedNodes_filter [OF wf, of "\<lambda>n. nid n \<noteq> x"]
      by (auto simp add: removeNode_def)
  next
    case (Auto x)
    then show ?thesis using wf at by (auto simp add: buttonAttached_def)
  next
    case Create
    have "wellFormedNodes (Suc (tabAllocated this))
        (tabChildNodes this @ [Element (tabAllocated this) ''BUTTON'' [''tabbar__button''] [] []])"
      using wf by (rule wellFormedNodes_snoc) simp_all
    then show ?thesis using Create by (simp add: hasTag_def)
  qed
  then show "wellFormedNodes (tabAllocated this1) (tabChildNodes this1)"
    and "tabAllocated this \<le> tabAllocated this1"
    and "\<exists>B \<in> set (tabChildNodes this1). nid B = button
           \<and> (hasClass ''tabbar__button'' B \<or> nodeName B = ''BUTTON'')"
    and "filter (hasTag ''INPUT'') (tabChildNodes this1) = filter (hasTag ''INPUT'') (tabChildNodes this)"
    and "tabAttributes this1 = tabAttributes this"
    and "iconPropertiesTouched this1 = iconPropertiesTouched this"
    by simp_all
qed


lemma compileButton_flags:
  assumes "compileButton this = (this1, button)"
  shows "labelPropertyTouched this1 = labelPropertyTouched this
       \<and> badgePropertyTouched this1 = badgePropertyTouched this
       \<and> ripplePropertyTouched this1 = ripplePropertyTouched this"
  using assms by (cases rule: compileButton_cases) simp_all

lemma compileInput_facts:
  assumes "compileInput this1 = (this2, input)"
    "wellFormedNodes (tabAllocated this1) (tabChildNodes this1)"
  shows "\<exists>all. wellFormedNodes (tabAllocated this2) all
           \<and> set (tabChildNodes this1) \<subseteq> set all \<and> set (tabChildNodes this2) \<subseteq> set all"
    and "\<exists>I. filter (hasTag ''INPUT'') (tabChildNodes this2) = [I] \<and> nid I = input"
    and "tabAttributes this2 = tabAttributes this1
       \<and> automaticallyAddedButton this2 = automaticallyAddedButton this1
       \<and> iconPropertiesTouched this2 = iconPropertiesTouched this1
       \<and> labelPropertyTouched this2 = labelPropertyTouched this1
       \<and> badgePropertyTouched this2 = badgePropertyTouched this1
       \<and> ripplePropertyTouched this2 = ripplePropertyTouched this1"
    and "distinct (map nid (tabChildNodes this2))"
proof -
  note sib = wellFormedNodes_siblings [OF assms(2)]
  let ?new = "Element (tabAllocated this1) ''INPUT'' []
                [(''type'', ''radio''), (''style'', ''display: none;'')] []"
  from assms(1) have "(\<exists>all. wellFormedNodes (tabAllocated this2) all
           \<and> set (tabChildNodes this1) \<subseteq> set all \<and> set (tabChildNodes this2) \<subseteq> set all)
     \<and> (\<exists>I. filter (hasTag ''INPUT'') (tabChildNodes this2) = [I] \<and> nid I = input)
     \<and> (tabAttributes this2 = tabAttributes this1
       \<and> automaticallyAddedButton this2 = automaticallyAddedButton this1
       \<and> iconPropertiesTouched this2 = iconPropertiesTouched this1
       \<and> labelPropertyTouched this2 = labelPropertyTouched this1
       \<and> badgePropertyTouched this2 = badgePropertyTouched this1
       \<and> ripplePropertyTouched this2 = ripplePropertyTouched this1)
     \<and> distinct (map nid (tabChildNodes this2))"
  proof (cases rule: compileInput_cases)
    case Create
    have w: "wellFormedNodes (Suc (tabAllocated this1)) (tabChildNodes this1 @ [?new])"
      using assms(2) by (rule wellFormedNodes_snoc) simp_all
    then have "\<exists>all. wellFormedNodes (tabAllocated this2) all
           \<and> set (tabChildNodes this1) \<subseteq> set all \<and> set (tabChildNodes this2) \<subseteq> set all"
      using Create by (intro exI [of _ "tabChildNodes this1 @ [?new]"]) auto
    moreover have "distinct (map nid (tabChildNodes this2))"
      using wellFormedNodes_siblings [OF w] Create by (simp add: siblings_def)
    ultimately show ?thesis using Create by (simp add: hasTag_def)
  next
    case (Keep i0 further)
    have "\<exists>all. wellFormedNodes (tabAllocated this2) all
           \<and> set (tabChildNodes this1) \<subseteq> set all \<and> set (tabChildNodes this2) \<subseteq> set all"
      using Keep assms(2) by (intro exI [of _ "tabChildNodes this1"]) (auto simp add: removeNodes_filter)
    moreover have "filter (hasTag ''INPUT'') (tabChildNodes this2) = [i0]"
      using filter_own(1) [OF Keep(1)] sib Keep(2) by (simp add: removeNodes_filter siblings_def)
    moreover have "distinct (map nid (tabChildNodes this2))"
      using sib Keep(2) by (simp add: removeNodes_filter siblings_def distinct_map_filter)
    ultimately show ?thesis using Keep by simp
  qed
  then show "\<exists>all. wellFormedNodes (tabAllocated this2) all
           \<and> set (tabChildNodes this1) \<subseteq> set all \<and> set (tabChildNodes this2) \<subseteq> set all"
    and "\<exists>I. filter (hasTag ''INPUT'') (tabChildNodes this2) = [I] \<and> nid I = input"
    and "tabAttributes this2 = tabAttributes this1
       \<and> automaticallyAddedButton this2 = automaticallyAddedButton this1
       \<and> iconPropertiesTouched this2 = iconPropertiesTouched this1
       \<and> labelPropertyTouched this2 = labelPropertyTouched this1
       \<and> badgePropertyTouched this2 = badgePropertyTouched this1
       \<and> ripplePropertyTouched this2 = ripplePropertyTouched this1"
    and "distinct (map nid (tabChildNodes this2))"
    by blast+
qed

text \<open>
  After the first half of \<open>_compile\<close> the children that will be those of the button have
  distinct identities, and the attributes and the \<open>Touched\<close> fields are as before.
\<close>

lemma compileChildren_facts:
  assumes "compileChildren this = (this', button, bk)" "Tab_wellFormed this"
  shows "siblings (tabAllocated this') bk"
    and "tabAttributes this' = tabAttributes this
       \<and> iconPropertiesTouched this' = iconPropertiesTouched this
       \<and> labelPropertyTouched this' = labelPropertyTouched this
       \<and> badgePropertyTouched this' = badgePropertyTouched this
       \<and> ripplePropertyTouched this' = ripplePropertyTouched this"
    and "distinct (map nid (tabChildNodes this'))"
    and "\<forall>n \<in> set (tabChildNodes this'). nid n = button
           \<longrightarrow> hasClass ''tabbar__button'' n \<or> nodeName n = ''BUTTON''"
    and "\<exists>I. filter (hasTag ''INPUT'') (tabChildNodes this') = [I] \<and> inputElement this' = Some (nid I)"
proof -
  from assms(1) obtain this1 this2 input where st:
    "compileButton this = (this1, button)" "compileInput this1 = (this2, input)"
    "this' = this2\<lparr>tabChildNodes :=
               filter (\<lambda>n. \<not> (nid n \<noteq> button \<and> nid n \<noteq> input)) (tabChildNodes this2),
             inputElement := Some input\<rparr>"
    "bk = kidsOf button (tabChildNodes this1)
            @ filter (\<lambda>n. nid n \<noteq> button \<and> nid n \<noteq> input) (tabChildNodes this2)"
    by (rule compileChildren_steps)
  note b = compileButton_wellFormed [OF st(1) assms(2)]
  note i = compileInput_facts [OF st(2) b(1)]
  from i(1) obtain all where all: "wellFormedNodes (tabAllocated this2) all"
    "set (tabChildNodes this1) \<subseteq> set all" "set (tabChildNodes this2) \<subseteq> set all" by blast
  from b(3) obtain B where B: "B \<in> set (tabChildNodes this1)" "nid B = button"
    "hasClass ''tabbar__button'' B \<or> nodeName B = ''BUTTON''" by blast
  have kb: "kidsOf button (tabChildNodes this1) = kids B"
    using kidsOf_in [OF wellFormedNodes_siblings [OF b(1)] B(1)] B(2) by simp
  let ?ms = "filter (\<lambda>n. nid n \<noteq> button \<and> nid n \<noteq> input) (tabChildNodes this2)"
  have "siblings (tabAllocated this2) (kids B @ ?ms)"
  proof (rule wellFormedNodes_kids_and_others [OF all(1)])
    show "B \<in> set all" using B(1) all(2) by auto
    show "set ?ms \<subseteq> set all" using all(3) by auto
    show "distinct (map nid ?ms)" using i(4) by (simp add: distinct_map_filter)
    show "nid B \<notin> nid ` set ?ms" using B(2) by auto
  qed
  then show "siblings (tabAllocated this') bk" by (simp add: st(3,4) kb)
  show "tabAttributes this' = tabAttributes this
       \<and> iconPropertiesTouched this' = iconPropertiesTouched this
       \<and> labelPropertyTouched this' = labelPropertyTouched this
       \<and> badgePropertyTouched this' = badgePropertyTouched this
       \<and> ripplePropertyTouched this' = ripplePropertyTouched this"
    using i(3) b(5,6) compileButton_flags [OF st(1)] by (simp add: st(3))
  show "distinct (map nid (tabChildNodes this'))"
    using i(4) by (simp add: st(3) distinct_map_filter)
  show "\<forall>n \<in> set (tabChildNodes this'). nid n = button
           \<longrightarrow> hasClass ''tabbar__button'' n \<or> nodeName n = ''BUTTON''"
  proof (intro ballI impI)
    fix n assume n: "n \<in> set (tabChildNodes this')" "nid n = button"
    then have "n \<in> set all" using all(3) by (auto simp add: st(3))
    moreover have "B \<in> set all" using B(1) all(2) by auto
    ultimately have "n = B"
      using siblings_same_id [OF wellFormedNodes_siblings [OF all(1)]] n(2) B(2) by simp
    then show "hasClass ''tabbar__button'' n \<or> nodeName n = ''BUTTON''" using B(3) by simp
  qed
  from i(2) obtain I where I: "filter (hasTag ''INPUT'') (tabChildNodes this2) = [I]" "nid I = input"
    by blast
  have "filter (hasTag ''INPUT'') (tabChildNodes this')
      = filter (\<lambda>n. \<not> (nid n \<noteq> button \<and> nid n \<noteq> input)) (filter (hasTag ''INPUT'') (tabChildNodes this2))"
    by (simp add: st(3) conj_commute)
  also have "\<dots> = [I]" using I by simp
  finally show "\<exists>I. filter (hasTag ''INPUT'') (tabChildNodes this') = [I] \<and> inputElement this' = Some (nid I)"
    using I(2) by (simp add: st(3))
qed


lemma Tab_compile_result:
  assumes "compileChildren this = (this1, button, bk)"
    "compileSections iconProperty (this1, bk) = (this2, bk')"
  shows "Tab_compile iconProperty this
           = this2\<lparr>tabChildNodes := onNode button (setKids bk') (tabChildNodes this1)\<rparr>"
  using assms compileSections_fields(1) [OF assms(2)] by (simp add: Tab_compile_sections)

lemma kids_setKids_element:
  "hasClass c n \<or> nodeName n = ''BUTTON'' \<Longrightarrow> kids (setKids ks n) = ks"
  by (cases n) (auto simp add: hasClass_def)

lemma hasTag_setKids [simp]: "hasTag tag (setKids ks n) = hasTag tag n"
  by (simp add: hasTag_def)

lemma kidsOf_setKids:
  assumes "distinct (map nid ks)" "n \<in> set ks" "nid n = i"
  shows "kidsOf i (onNode i (setKids bk) ks) = kids (setKids bk n)"
  using assms
proof (induction ks)
  case Nil
  then show ?case by simp
next
  case (Cons k ks)
  show ?case
  proof (cases "nid k = i")
    case True
    have "nid k \<notin> nid ` set ks" using Cons.prems(1) by simp
    then have "n = k" using Cons.prems(2,3) True by force
    then show ?thesis using True by (simp add: onNode_Cons kidsOf_def)
  next
    case False
    then have "n \<in> set ks" using Cons.prems by auto
    then have "kidsOf i (onNode i (setKids bk) ks) = kids (setKids bk n)"
      using Cons by simp
    then show ?thesis using False by (simp add: onNode_Cons kidsOf_def)
  qed
qed

text \<open>After \<open>_compile\<close> the children of the button are those that the sections leave.\<close>

lemma Tab_compile_button:
  assumes "Tab_wellFormed this" "compileChildren this = (this1, button, bk)"
    "compileSections iconProperty (this1, bk) = (this2, bk')"
  shows "kidsOf button (tabChildNodes (Tab_compile iconProperty this))
           = (if button \<in> nid ` set (tabChildNodes this1) then bk' else [])"
proof (cases "button \<in> nid ` set (tabChildNodes this1)")
  case True
  then obtain B where B: "B \<in> set (tabChildNodes this1)" "nid B = button" by auto
  note f = compileChildren_facts [OF assms(2,1)]
  have "kids (setKids bk' B) = bk'" using f(4) B by (intro kids_setKids_element) auto
  then show ?thesis
    using kidsOf_setKids [OF f(3) B, of bk'] True by (simp add: Tab_compile_result [OF assms(2,3)])
next
  case False
  have "map nid (onNode button (setKids bk') (tabChildNodes this1)) = map nid (tabChildNodes this1)"
    by (rule map_nid_onNode) simp
  then have "nid ` set (onNode button (setKids bk') (tabChildNodes this1))
      = nid ` set (tabChildNodes this1)"
    by (metis set_map)
  with False have "button \<notin> nid ` set (onNode button (setKids bk') (tabChildNodes this1))"
    by simp
  then show ?thesis
    using False kidsOf_absent by (simp add: Tab_compile_result [OF assms(2,3)])
qed

text \<open>
  The sections LABEL, BADGE and RIPPLE create no node of class \<open>tabbar__icon\<close>, and
  they remove only nodes that match their selectors.
\<close>

lemma later_sections:
  assumes "compileLabel (t1, k1) = (t2, k2)" "compileBadge (t2, k2) = (t3, k3)"
    "compileRipple (t3, k3) = (t4, k4)" "siblings (tabAllocated t1) k1"
  shows "m \<in> set k4 \<Longrightarrow> hasClass ''tabbar__icon'' m \<Longrightarrow> m \<in> set k1"
    and "n \<in> set k1 \<Longrightarrow> \<not> hasClass ''tabbar__label'' n \<Longrightarrow> \<not> hasClass ''tabbar__badge'' n
           \<Longrightarrow> \<not> hasTag ''ONS-RIPPLE'' n \<Longrightarrow> n \<in> set k4"
    and "Tab_getAttribute ''icon'' t4 = Tab_getAttribute ''icon'' t1"
proof -
  note s2 = compileLabel_siblings [OF assms(1,4)]
  note s3 = compileBadge_siblings [OF assms(2) s2]
  note r1 = assms(1) [unfolded compileLabel_resolve]
  note r2 = assms(2) [unfolded compileBadge_resolve]
  note r3 = assms(3) [unfolded compileRipple_resolve]
  show "m \<in> set k1" if "m \<in> set k4" "hasClass ''tabbar__icon'' m"
  proof -
    have "m \<in> set k3" using resolveWrapper_member [OF r3 that(1)] that(2) by (auto simp add: hasClass_def)
    then have "m \<in> set k2" using resolveWrapper_member [OF r2, of m] that(2) by (auto simp add: hasClass_def)
    then show ?thesis using resolveWrapper_member [OF r1, of m] that(2) by (auto simp add: hasClass_def)
  qed
  show "n \<in> set k4" if "n \<in> set k1" "\<not> hasClass ''tabbar__label'' n" "\<not> hasClass ''tabbar__badge'' n"
    "\<not> hasTag ''ONS-RIPPLE'' n"
  proof -
    have "n \<in> set k2" using resolveWrapper_kept [OF r1 that(1,2)] assms(4) by (simp add: siblings_def)
    then have "n \<in> set k3" using resolveWrapper_kept [OF r2 _ that(3)] s2 by (simp add: siblings_def)
    then show ?thesis using resolveWrapper_kept [OF r3 _ that(4)] s3 by (simp add: siblings_def)
  qed
  show "Tab_getAttribute ''icon'' t4 = Tab_getAttribute ''icon'' t1"
    using compileLabel_untouched [OF assms(1)] compileBadge_untouched [OF assms(2)]
      compileRipple_untouched [OF assms(3)] by (simp add: untouched_def)
qed

section \<open>The icon wrapper of a tab without icon attributes\<close>

lemma later_sections_icon:
  assumes "compileLabel (t1, k1) = (t2, k2)" "compileBadge (t2, k2) = (t3, k3)"
    "compileRipple (t3, k3) = (t4, k4)"
  shows "iconElement t4 = iconElement t1"
proof -
  have "iconElement t2 = iconElement t1"
    using assms(1) unfolding compileLabel_resolve
    by (cases rule: resolveWrapper_cases) simp_all
  moreover have "iconElement t3 = iconElement t2"
    using assms(2) unfolding compileBadge_resolve
    by (cases rule: resolveWrapper_cases) simp_all
  moreover have "iconElement t4 = iconElement t3"
    using assms(3) unfolding compileRipple_resolve
    by (cases rule: resolveWrapper_cases) (simp_all add: Tab_setRipple_def)
  ultimately show ?thesis by simp
qed

lemma distinct_singleton:
  assumes "distinct xs" "set xs = {x}"
  shows "xs = [x]"
proof (cases xs)
  case Nil
  then show ?thesis using assms(2) by simp
next
  case (Cons a ys)
  then have "a = x" using assms(2) by auto
  moreover have "ys = []"
  proof (cases ys)
    case Nil
    then show ?thesis .
  next
    case (Cons b zs)
    then have "b = x" using assms(2) \<open>xs = a # ys\<close> by auto
    then show ?thesis using assms(1) \<open>xs = a # ys\<close> Cons \<open>a = x\<close> by simp
  qed
  ultimately show ?thesis using Cons by simp
qed

lemma compileIcon_without_attributes:
  assumes "compileIcon iconProperty (this, bk) = (this', bk')"
    "filter (hasClass ''tabbar__icon'') bk = w # ws" "\<not> hasIcon this" "distinct (map nid bk)"
  shows "iconPropertiesTouched this \<longrightarrow>
           filter (hasClass ''tabbar__icon'') bk' = [] \<and> iconElement this' = None
         \<and> Tab_getAttribute ''icon'' this' = Tab_getAttribute ''icon'' this"
    and "\<not> iconPropertiesTouched this \<longrightarrow>
           filter (hasClass ''tabbar__icon'') bk' = [w] \<and> w \<in> set bk'
         \<and> iconElement this' = map_option nid (queryIcon w)
         \<and> Tab_getAttribute ''icon'' this' = Some (iconValue iconProperty w)"
proof -
  note r = assms(1) [unfolded compileIcon_resolve]
  have own: "filter (hasClass ''tabbar__icon'') bk'
      = (if iconPropertiesTouched this then [] else [w])"
    using resolveWrapper_own [OF r assms(4)] assms(2,3)
    by (simp add: newIconWrapper_def hasClass_def)
  from r have "(iconPropertiesTouched this \<longrightarrow> iconElement this' = None
         \<and> Tab_getAttribute ''icon'' this' = Tab_getAttribute ''icon'' this)
     \<and> (\<not> iconPropertiesTouched this \<longrightarrow> iconElement this' = map_option nid (queryIcon w)
         \<and> Tab_getAttribute ''icon'' this' = Some (iconValue iconProperty w))"
    by (cases rule: resolveWrapper_cases)
      (simp_all add: assms(2,3) setIconElement_def getAttribute_setAttribute)
  moreover have "w \<in> set bk'" if "\<not> iconPropertiesTouched this"
  proof -
    have "w \<in> set (filter (hasClass ''tabbar__icon'') bk')" using own that by simp
    then show ?thesis by simp
  qed
  ultimately show "iconPropertiesTouched this \<longrightarrow>
           filter (hasClass ''tabbar__icon'') bk' = [] \<and> iconElement this' = None
         \<and> Tab_getAttribute ''icon'' this' = Tab_getAttribute ''icon'' this"
    and "\<not> iconPropertiesTouched this \<longrightarrow>
           filter (hasClass ''tabbar__icon'') bk' = [w] \<and> w \<in> set bk'
         \<and> iconElement this' = map_option nid (queryIcon w)
         \<and> Tab_getAttribute ''icon'' this' = Some (iconValue iconProperty w)"
    using own by simp_all
qed





section \<open>The inputs of a tab\<close>

lemma resolveWrapper_forest:
  assumes "resolveWrapper sel has touched new k front write setRef (this, bk) = (this', bk')"
    "p \<in> set (forest bk')"
    "\<forall>q \<in> set (subtree (new (tabAllocated this))). tabAllocated this \<le> fst q"
  shows "p \<in> set (forest bk) \<or> tabAllocated this \<le> fst p"
proof -
  from assms(2) obtain m where m: "m \<in> set bk'" "p \<in> set (subtree m)"
    by (auto simp add: set_forest)
  from resolveWrapper_member [OF assms(1) m(1)] show ?thesis
  proof
    assume "m \<in> set bk"
    then show ?thesis using m(2) forest_member [of m bk] by auto
  next
    assume "has \<and> filter sel bk = [] \<and> m = new (tabAllocated this)"
    then show ?thesis using m(2) assms(3) by auto
  qed
qed

lemma compileSections_forest:
  assumes "compileSections iconProperty (this, bk) = (this', bk')" "p \<in> set (forest bk')"
  shows "p \<in> set (forest bk) \<or> tabAllocated this \<le> fst p"
proof -
  from assms(1) obtain t1 k1 t2 k2 t3 k3 where st:
    "compileIcon iconProperty (this, bk) = (t1, k1)" "compileLabel (t1, k1) = (t2, k2)"
    "compileBadge (t2, k2) = (t3, k3)" "compileRipple (t3, k3) = (this', bk')"
    by (rule compileSections_steps)
  have le: "tabAllocated this \<le> tabAllocated t1" "tabAllocated t1 \<le> tabAllocated t2"
    "tabAllocated t2 \<le> tabAllocated t3"
    using compileIcon_untouched [OF st(1)] compileLabel_untouched [OF st(2)]
      compileBadge_untouched [OF st(3)] by (simp_all add: untouched_def)
  have "p \<in> set (forest k3) \<or> tabAllocated t3 \<le> fst p"
    by (rule resolveWrapper_forest [OF st(4) [unfolded compileRipple_resolve] assms(2)]) simp
  moreover have "p \<in> set (forest k2) \<or> tabAllocated t2 \<le> fst p" if "p \<in> set (forest k3)"
    by (rule resolveWrapper_forest [OF st(3) [unfolded compileBadge_resolve] that]) simp
  moreover have "p \<in> set (forest k1) \<or> tabAllocated t1 \<le> fst p" if "p \<in> set (forest k2)"
    by (rule resolveWrapper_forest [OF st(2) [unfolded compileLabel_resolve] that]) simp
  moreover have "p \<in> set (forest bk) \<or> tabAllocated this \<le> fst p" if "p \<in> set (forest k1)"
    by (rule resolveWrapper_forest [OF st(1) [unfolded compileIcon_resolve] that])
      (simp add: newIconWrapper_def)
  ultimately show ?thesis using le by fastforce
qed


lemma removed_all_gone:
  assumes "distinct (map fst (forest ks))" "x \<in> set ks" "x \<in> set xs"
  shows "nid x \<notin> fst ` set (forest (removeNodes xs ks))"
proof
  assume "nid x \<in> fst ` set (forest (removeNodes xs ks))"
  then obtain p where p: "p \<in> set (forest (removeNodes xs ks))" "fst p = nid x" by auto
  then obtain m where m: "m \<in> set ks" "nid m \<notin> nid ` set xs" "p \<in> set (subtree m)"
    by (auto simp add: set_forest removeNodes_filter)
  have ne: "nid m \<noteq> nid x" using m(2) assms(3) by auto
  from m(3) have "p = (nid m, nodeName m) \<or> p \<in> set (forest (kids m))"
    by (simp add: subtree_root [of m])
  then show False
  proof
    assume "p = (nid m, nodeName m)"
    then show False using p(2) ne by simp
  next
    assume "p \<in> set (forest (kids m))"
    then have "nid x \<in> fst ` set (forest (kids m))" using p(2) by force
    then show False using kids_apart [OF assms(1) m(1) assms(2)] ne by simp
  qed
qed

text \<open>
  Of the \<open>input\<close> children of a tab the first stays and is \<open>_inputElement\<close>, and the
  further ones are removed: they are nowhere under the tab after \<open>_compile\<close>.
\<close>

lemma tab_first_input:
  assumes wf: "Tab_wellFormed this"
    and f: "filter (hasTag ''INPUT'') (tabChildNodes this) = i0 # further"
  shows "inputElement (Tab_compile iconProperty this) = Some (nid i0)"
    and "map nid (filter (hasTag ''INPUT'') (tabChildNodes (Tab_compile iconProperty this))) = [nid i0]"
    and "x \<in> set further \<Longrightarrow> nid x \<notin> fst ` set (forest (tabChildNodes (Tab_compile iconProperty this)))"
proof -
  let ?R = "Tab_compile iconProperty this"
  obtain this3 button bk where C: "compileChildren this = (this3, button, bk)"
    by (cases "compileChildren this") auto
  from C obtain this1 this2 input where st:
    "compileButton this = (this1, button)" "compileInput this1 = (this2, input)"
    "this3 = this2\<lparr>tabChildNodes :=
               filter (\<lambda>n. \<not> (nid n \<noteq> button \<and> nid n \<noteq> input)) (tabChildNodes this2),
             inputElement := Some input\<rparr>"
    "bk = kidsOf button (tabChildNodes this1)
            @ filter (\<lambda>n. nid n \<noteq> button \<and> nid n \<noteq> input) (tabChildNodes this2)"
    by (rule compileChildren_steps)
  note b = compileButton_wellFormed [OF st(1) wf]
  note sib1 = wellFormedNodes_siblings [OF b(1)]
  have d1: "distinct (map nid (tabChildNodes this1))" using sib1 by (simp add: siblings_def)
  have f1: "filter (hasTag ''INPUT'') (tabChildNodes this1) = i0 # further" using b(4) f by simp
  from st(2) have "this2 = this1\<lparr>tabChildNodes := removeNodes further (tabChildNodes this1)\<rparr>
      \<and> input = nid i0"
    by (cases rule: compileInput_cases) (simp_all add: f1)
  then have k: "tabChildNodes this2 = removeNodes further (tabChildNodes this1)" "input = nid i0"
    "tabAllocated this2 = tabAllocated this1" by simp_all
  let ?c2 = "removeNodes further (tabChildNodes this1)"
  let ?keep = "\<lambda>n. \<not> (nid n \<noteq> button \<and> nid n \<noteq> input)"
  have c3: "tabChildNodes this3 = filter ?keep ?c2" "inputElement this3 = Some (nid i0)"
    "tabAllocated this3 = tabAllocated this1"
    using k by (simp_all add: st(3))
  obtain this4 bk' where S: "compileSections iconProperty (this3, bk) = (this4, bk')"
    by (cases "compileSections iconProperty (this3, bk)") auto
  note R = Tab_compile_result [OF C S]
  show "inputElement ?R = Some (nid i0)"
    using compileSections_fields(3) [OF S] c3(2) by (simp add: R)
  have "filter (hasTag ''INPUT'') ?c2 = [i0]"
    using filter_own(1) [OF f1 d1] by (simp add: removeNodes_filter)
  then have "filter (hasTag ''INPUT'') (filter ?keep ?c2) = [i0]"
    using k(2) filter_filter [of ?keep "hasTag ''INPUT''" ?c2]
    by (simp add: conj_commute)
  then have "filter (hasTag ''INPUT'') (tabChildNodes ?R) = onNode button (setKids bk') [i0]"
    by (simp add: R c3(1) filter_onNode)
  then show "map nid (filter (hasTag ''INPUT'') (tabChildNodes ?R)) = [nid i0]"
    by (simp add: onNode_def)
  show "nid x \<notin> fst ` set (forest (tabChildNodes ?R))" if x: "x \<in> set further"
  proof
    assume "nid x \<in> fst ` set (forest (tabChildNodes ?R))"
    then obtain p where p: "p \<in> set (forest (tabChildNodes ?R))" "fst p = nid x" by auto
    have "x \<in> set (filter (hasTag ''INPUT'') (tabChildNodes this1))" using x f1 by simp
    then have xin: "x \<in> set (tabChildNodes this1)" by simp
    have lt: "nid x < tabAllocated this1" using sib1 xin by (auto simp add: siblings_def)
    have gone: "nid x \<notin> fst ` set (forest ?c2)"
      using b(1) xin x by (intro removed_all_gone) (simp_all add: wellFormedNodes_def)
    have sub: "set ?c2 \<subseteq> set (tabChildNodes this1)" by (auto simp add: removeNodes_filter)
    from p(1) obtain g where g: "g \<in> set (tabChildNodes ?R)" "p \<in> set (subtree g)"
      by (auto simp add: set_forest)
    from g(1) obtain n where n: "n \<in> set ?c2"
      "g = (if nid n = button then setKids bk' n else n)"
      by (auto simp add: R c3(1) set_onNode)
    have "p \<in> set (forest ?c2)"
    proof (cases "nid n = button")
      case False
      then show ?thesis using n g(2) forest_member [OF n(1)] by auto
    next
      case True
      then have "p \<in> insert (nid n, nodeName n) (set (forest bk') \<union> set (forest (kids n)))"
        using g(2) n(2) subtree_setKids_sub [of bk' n] by auto
      moreover have "(nid n, nodeName n) \<in> set (forest ?c2)" using n(1) by (rule root_in_forest)
      moreover have kn: "set (forest (kids n)) \<subseteq> set (forest ?c2)" using n(1) by (rule kids_in_forest)
      moreover have "p \<in> set (forest ?c2)" if "p \<in> set (forest bk')"
      proof -
        from compileSections_forest [OF S that] lt p(2) c3(3)
        have "p \<in> set (forest bk)" by auto
        moreover have "kidsOf button (tabChildNodes this1) = kids n"
          using kidsOf_in [OF sib1, of n] n(1) sub True by auto
        moreover have "set (forest (filter (\<lambda>n. nid n \<noteq> button \<and> nid n \<noteq> input) ?c2))
            \<subseteq> set (forest ?c2)"
          by (rule forest_mono) auto
        ultimately show ?thesis using kn by (auto simp add: st(4) k(1) forest_append)
      qed
      ultimately show ?thesis by auto
    qed
    then show False using gone p(2) by force
  qed
qed


section \<open>Duplicate wrappers and inputs\<close>





section \<open>Compiling a tab twice\<close>

lemma setAttribute_settled:
  assumes "attrSettled name v this"
  shows "Tab_setAttribute name v this = this"
proof -
  have "map (\<lambda>p. if fst p = name then (name, v) else p) (tabAttributes this) = tabAttributes this"
    using assms unfolding attrSettled_def by (intro map_idI) (auto simp add: prod_eq_iff)
  then show ?thesis using assms by (simp add: Tab_setAttribute_def attrSettled_def)
qed

lemma keys_rewritten:
  "fst ` set (map (\<lambda>p. if fst p = other then (other, v') else p) xs) = fst ` set xs"
proof -
  have "map fst (map (\<lambda>p. if fst p = other then (other, v') else p) xs) = map fst xs"
    by (induction xs) auto
  then have "set (map fst (map (\<lambda>p. if fst p = other then (other, v') else p) xs))
      = set (map fst xs)" by simp
  then show ?thesis by (simp only: set_map)
qed

lemma attrSettled_set: "attrSettled name v (Tab_setAttribute name v this)"
proof (cases "name \<in> fst ` set (tabAttributes this)")
  case True
  let ?f = "\<lambda>p. if fst p = name then (name, v) else p"
  have "name \<in> fst ` set (map ?f (tabAttributes this))"
    using True by (simp only: keys_rewritten)
  moreover have "\<forall>q \<in> set (map ?f (tabAttributes this)). fst q = name \<longrightarrow> snd q = v"
    by auto
  ultimately show ?thesis using True by (simp add: attrSettled_def Tab_setAttribute_def)
next
  case False
  then show ?thesis by (auto simp add: attrSettled_def Tab_setAttribute_def)
qed

lemma attrSettled_other:
  assumes "name \<noteq> other" "attrSettled name v this"
  shows "attrSettled name v (Tab_setAttribute other v' this)"
proof (cases "other \<in> fst ` set (tabAttributes this)")
  case True
  let ?f = "\<lambda>p. if fst p = other then (other, v') else p"
  have "name \<in> fst ` set (map ?f (tabAttributes this))"
    using assms(2) by (simp only: keys_rewritten) (simp add: attrSettled_def)
  moreover have "\<forall>q \<in> set (map ?f (tabAttributes this)). fst q = name \<longrightarrow> snd q = v"
    using assms by (auto simp add: attrSettled_def)
  ultimately show ?thesis using True by (simp add: attrSettled_def Tab_setAttribute_def)
next
  case False
  then show ?thesis using assms by (auto simp add: attrSettled_def Tab_setAttribute_def)
qed

lemma attrSettled_fields [simp]:
  "attrSettled name v (this\<lparr>tabChildNodes := ks\<rparr>) = attrSettled name v this"
  "attrSettled name v (this\<lparr>tabAllocated := a\<rparr>) = attrSettled name v this"
  "attrSettled name v (this\<lparr>iconElement := b\<rparr>) = attrSettled name v this"
  "attrSettled name v (this\<lparr>labelElement := b\<rparr>) = attrSettled name v this"
  "attrSettled name v (this\<lparr>badgeElement := b\<rparr>) = attrSettled name v this"
  by (simp_all add: attrSettled_def)

lemma compileIcon_framed:
  assumes "compileIcon iconProperty (this, bk) = (this', bk')"
  shows "framed ''icon'' this this'"
proof -
  note u = compileIcon_untouched [OF assms]
  from assms [unfolded compileIcon_resolve]
  have "(''icon'' \<noteq> ''icon'' \<longrightarrow> iconElement this' = iconElement this)
   \<and> (''icon'' \<noteq> ''label'' \<longrightarrow> labelElement this' = labelElement this)
   \<and> (''icon'' \<noteq> ''badge'' \<longrightarrow> badgeElement this' = badgeElement this)
   \<and> (\<forall>name v. name \<noteq> ''icon'' \<longrightarrow> attrSettled name v this \<longrightarrow> attrSettled name v this')"
    by (cases rule: resolveWrapper_cases) (simp_all add: setIconElement_def attrSettled_other)
  with u show ?thesis by (simp add: framed_def)
qed

lemma compileLabel_framed:
  assumes "compileLabel (this, bk) = (this', bk')"
  shows "framed ''label'' this this'"
proof -
  note u = compileLabel_untouched [OF assms]
  from assms [unfolded compileLabel_resolve]
  have "(''label'' \<noteq> ''icon'' \<longrightarrow> iconElement this' = iconElement this)
   \<and> (''label'' \<noteq> ''label'' \<longrightarrow> labelElement this' = labelElement this)
   \<and> (''label'' \<noteq> ''badge'' \<longrightarrow> badgeElement this' = badgeElement this)
   \<and> (\<forall>name v. name \<noteq> ''label'' \<longrightarrow> attrSettled name v this \<longrightarrow> attrSettled name v this')"
    by (cases rule: resolveWrapper_cases) (simp_all add: attrSettled_other)
  with u show ?thesis by (simp add: framed_def)
qed

lemma compileBadge_framed:
  assumes "compileBadge (this, bk) = (this', bk')"
  shows "framed ''badge'' this this'"
proof -
  note u = compileBadge_untouched [OF assms]
  from assms [unfolded compileBadge_resolve]
  have "(''badge'' \<noteq> ''icon'' \<longrightarrow> iconElement this' = iconElement this)
   \<and> (''badge'' \<noteq> ''label'' \<longrightarrow> labelElement this' = labelElement this)
   \<and> (''badge'' \<noteq> ''badge'' \<longrightarrow> badgeElement this' = badgeElement this)
   \<and> (\<forall>name v. name \<noteq> ''badge'' \<longrightarrow> attrSettled name v this \<longrightarrow> attrSettled name v this')"
    by (cases rule: resolveWrapper_cases) (simp_all add: attrSettled_other)
  with u show ?thesis by (simp add: framed_def)
qed

lemma compileRipple_framed:
  assumes "compileRipple (this, bk) = (this', bk')"
  shows "framed ''ripple'' this this'"
proof -
  note u = compileRipple_untouched [OF assms]
  from assms [unfolded compileRipple_resolve]
  have "(''ripple'' \<noteq> ''icon'' \<longrightarrow> iconElement this' = iconElement this)
   \<and> (''ripple'' \<noteq> ''label'' \<longrightarrow> labelElement this' = labelElement this)
   \<and> (''ripple'' \<noteq> ''badge'' \<longrightarrow> badgeElement this' = badgeElement this)
   \<and> (\<forall>name v. name \<noteq> ''ripple'' \<longrightarrow> attrSettled name v this \<longrightarrow> attrSettled name v this')"
    by (cases rule: resolveWrapper_cases) (simp_all add: Tab_setRipple_def attrSettled_other)
  with u show ?thesis by (simp add: framed_def)
qed


lemma resolveWrapper_filter_local:
  assumes "resolveWrapper sel has touched new k front write setRef (this, bk) = (this', bk')"
    "distinct (map nid bk)" "\<forall>n \<in> set bk. p n \<longrightarrow> \<not> sel n" "\<not> p (new (tabAllocated this))"
  shows "filter p bk' = filter p bk"
proof -
  let ?q = "\<lambda>n. p n \<and> \<not> sel n"
  have "filter ?q bk' = filter ?q bk"
    by (rule resolveWrapper_filter [OF assms(1,2)]) (use assms(4) in auto)
  moreover have "filter ?q bk = filter p bk" using assms(3) by (auto intro: filter_cong)
  moreover have "filter ?q bk' = filter p bk'"
  proof (rule filter_cong [OF refl])
    fix n assume "n \<in> set bk'"
    from resolveWrapper_member [OF assms(1) this] show "?q n = p n"
      using assms(3,4) by auto
  qed
  ultimately show ?thesis by simp
qed

lemma resolveWrapper_exclusive:
  assumes "resolveWrapper sel has touched new k front write setRef (this, bk) = (this', bk')"
    "\<forall>n \<in> set bk. exclusive n" "exclusive (new (tabAllocated this))"
  shows "\<forall>n \<in> set bk'. exclusive n"
proof
  fix n assume "n \<in> set bk'"
  from resolveWrapper_member [OF assms(1) this] show "exclusive n" using assms(2,3) by auto
qed

lemma settledAt_kept:
  assumes "settledAt sel has touched ref refOf written bk" "filter sel bk' = filter sel bk"
    "\<And>w. written w \<Longrightarrow> written' w"
  shows "settledAt sel has touched ref refOf written' bk'"
proof (cases "filter sel bk")
  case Nil
  then show ?thesis using assms(1,2) by (simp add: settledAt_def)
next
  case (Cons w ws)
  show ?thesis
  proof (cases ws)
    case Nil
    then show ?thesis using assms Cons by (auto simp add: settledAt_def)
  next
    case (Cons a list)
    then show ?thesis using assms(1) \<open>filter sel bk = w # ws\<close> by (simp add: settledAt_def)
  qed
qed

lemma iconSettled_kept:
  assumes "iconSettled iconProperty (this, bk)" "framed own this this'"
    "own \<noteq> ''icon''" "own \<noteq> ''active-icon''"
    "filter (hasClass ''tabbar__icon'') bk' = filter (hasClass ''tabbar__icon'') bk"
  shows "iconSettled iconProperty (this', bk')"
proof -
  have "hasIcon this' = hasIcon this" "iconPropertiesTouched this' = iconPropertiesTouched this"
    "iconElement this' = iconElement this"
    using assms(2,3,4) by (simp_all add: framed_def untouched_def hasIcon_def)
  moreover have "attrSettled ''icon'' v this \<Longrightarrow> attrSettled ''icon'' v this'" for v
    using assms(2,3) by (simp add: framed_def)
  ultimately show ?thesis
    using settledAt_kept [OF assms(1) [unfolded iconSettled_def prod.case] assms(5)]
    by (simp add: iconSettled_def)
qed

lemma labelSettled_kept:
  assumes "labelSettled (this, bk)" "framed own this this'" "own \<noteq> ''label''"
    "filter (hasClass ''tabbar__label'') bk' = filter (hasClass ''tabbar__label'') bk"
  shows "labelSettled (this', bk')"
proof -
  have "Tab_getAttribute ''label'' this' = Tab_getAttribute ''label'' this"
    "labelPropertyTouched this' = labelPropertyTouched this"
    "labelElement this' = labelElement this"
    using assms(2,3) by (simp_all add: framed_def untouched_def)
  moreover have "attrSettled ''label'' v this \<Longrightarrow> attrSettled ''label'' v this'" for v
    using assms(2,3) by (simp add: framed_def)
  ultimately show ?thesis
    using settledAt_kept [OF assms(1) [unfolded labelSettled_def prod.case] assms(4)]
    by (simp add: labelSettled_def)
qed

lemma badgeSettled_kept:
  assumes "badgeSettled (this, bk)" "framed own this this'" "own \<noteq> ''badge''"
    "filter (hasClass ''tabbar__badge'') bk' = filter (hasClass ''tabbar__badge'') bk"
  shows "badgeSettled (this', bk')"
proof -
  have "Tab_getAttribute ''badge'' this' = Tab_getAttribute ''badge'' this"
    "badgePropertyTouched this' = badgePropertyTouched this"
    "badgeElement this' = badgeElement this"
    using assms(2,3) by (simp_all add: framed_def untouched_def)
  moreover have "attrSettled ''badge'' v this \<Longrightarrow> attrSettled ''badge'' v this'" for v
    using assms(2,3) by (simp add: framed_def)
  ultimately show ?thesis
    using settledAt_kept [OF assms(1) [unfolded badgeSettled_def prod.case] assms(4)]
    by (simp add: badgeSettled_def)
qed


lemma field_fixed:
  "iconElement this = v \<Longrightarrow> this\<lparr>iconElement := v\<rparr> = this"
  "labelElement this = v \<Longrightarrow> this\<lparr>labelElement := v\<rparr> = this"
  "badgeElement this = v \<Longrightarrow> this\<lparr>badgeElement := v\<rparr> = this"
  by auto

text \<open>A section is settled on what it returns, and returns what it is settled on.\<close>

lemma compileIcon_settles:
  assumes "compileIcon iconProperty (this, bk) = (this', bk')" "distinct (map nid bk)"
  shows "iconSettled iconProperty (this', bk')"
proof -
  note r = assms(1) [unfolded compileIcon_resolve]
  have "hasClass ''tabbar__icon'' (newIconWrapper (tabAllocated this))"
    by (simp add: newIconWrapper_def hasClass_def)
  note own = resolveWrapper_own [OF r assms(2) this]
  from r show ?thesis
  proof (cases rule: resolveWrapper_cases)
    case Create
    then show ?thesis using own
      by (simp add: iconSettled_def settledAt_def setIconElement_def hasIcon_def)
  next
    case Absent
    then show ?thesis using own
      by (simp add: iconSettled_def settledAt_def setIconElement_def hasIcon_def)
  next
    case (Remove w ws)
    then show ?thesis using own
      by (simp add: iconSettled_def settledAt_def setIconElement_def hasIcon_def)
  next
    case (Rehydrate w ws)
    then show ?thesis using own
      by (simp add: iconSettled_def settledAt_def setIconElement_def attrSettled_set)
  next
    case (Keep w ws)
    then show ?thesis using own
      by (simp add: iconSettled_def settledAt_def setIconElement_def hasIcon_def)
  qed
qed

lemma compileLabel_settles:
  assumes "compileLabel (this, bk) = (this', bk')" "distinct (map nid bk)"
  shows "labelSettled (this', bk')"
proof -
  note r = assms(1) [unfolded compileLabel_resolve]
  have "hasClass ''tabbar__label'' (Element (tabAllocated this) ''DIV'' [''tabbar__label''] [] [])"
    by (simp add: hasClass_def)
  note own = resolveWrapper_own [OF r assms(2) this]
  from r show ?thesis
  proof (cases rule: resolveWrapper_cases)
    case Create
    then show ?thesis using own by (simp add: labelSettled_def settledAt_def)
  next
    case Absent
    then show ?thesis using own by (simp add: labelSettled_def settledAt_def)
  next
    case (Remove w ws)
    then show ?thesis using own by (simp add: labelSettled_def settledAt_def)
  next
    case (Rehydrate w ws)
    then show ?thesis using own by (simp add: labelSettled_def settledAt_def attrSettled_set)
  next
    case (Keep w ws)
    then show ?thesis using own by (simp add: labelSettled_def settledAt_def)
  qed
qed

lemma compileBadge_settles:
  assumes "compileBadge (this, bk) = (this', bk')" "distinct (map nid bk)"
  shows "badgeSettled (this', bk')"
proof -
  note r = assms(1) [unfolded compileBadge_resolve]
  have "hasClass ''tabbar__badge''
      (Element (tabAllocated this) ''DIV'' [''tabbar__badge'', ''notification''] [] [])"
    by (simp add: hasClass_def)
  note own = resolveWrapper_own [OF r assms(2) this]
  from r show ?thesis
  proof (cases rule: resolveWrapper_cases)
    case Create
    then show ?thesis using own by (simp add: badgeSettled_def settledAt_def)
  next
    case Absent
    then show ?thesis using own by (simp add: badgeSettled_def settledAt_def)
  next
    case (Remove w ws)
    then show ?thesis using own by (simp add: badgeSettled_def settledAt_def)
  next
    case (Rehydrate w ws)
    then show ?thesis using own by (simp add: badgeSettled_def settledAt_def attrSettled_set)
  next
    case (Keep w ws)
    then show ?thesis using own by (simp add: badgeSettled_def settledAt_def)
  qed
qed

lemma compileRipple_settles:
  assumes "compileRipple (this, bk) = (this', bk')" "distinct (map nid bk)"
  shows "rippleSettled (this', bk')"
proof -
  note r = assms(1) [unfolded compileRipple_resolve]
  have "hasTag ''ONS-RIPPLE'' (Element (tabAllocated this) ''ONS-RIPPLE'' [] [] [])"
    by (simp add: hasTag_def)
  note own = resolveWrapper_own [OF r assms(2) this]
  from r show ?thesis
  proof (cases rule: resolveWrapper_cases)
    case Create
    then show ?thesis using own
      by (simp add: rippleSettled_def settledAt_def Tab_ripple_def)
  next
    case Absent
    then show ?thesis using own by (simp add: rippleSettled_def settledAt_def)
  next
    case (Remove w ws)
    then show ?thesis using own by (simp add: rippleSettled_def settledAt_def)
  next
    case (Rehydrate w ws)
    then show ?thesis using own
      by (simp add: rippleSettled_def settledAt_def Tab_setRipple_def attrSettled_set)
  next
    case (Keep w ws)
    then show ?thesis using own by (simp add: rippleSettled_def settledAt_def)
  qed
qed


lemma settledAt_cases [consumes 1, case_names Without Has Written]:
  assumes "settledAt sel has touched ref refOf written bk"
  obtains (Without) "filter sel bk = []" "\<not> has" "ref = None"
  | (Has) w where "filter sel bk = [w]" "has" "ref = refOf w"
  | (Written) w where "filter sel bk = [w]" "\<not> has" "\<not> touched" "written w" "ref = refOf w"
proof (cases "filter sel bk")
  case Nil
  then show ?thesis using assms Without by (simp add: settledAt_def)
next
  case (Cons w ws)
  show ?thesis
  proof (cases ws)
    case Nil
    then show ?thesis using assms Cons Has [of w] Written [of w]
      by (cases has) (simp_all add: settledAt_def)
  next
    case (Cons a list)
    then show ?thesis using assms \<open>filter sel bk = w # ws\<close> by (simp add: settledAt_def)
  qed
qed

lemma compileIcon_fixed:
  assumes "iconSettled iconProperty (this, bk)"
  shows "compileIcon iconProperty (this, bk) = (this, bk)"
  using assms [unfolded iconSettled_def prod.case]
proof (cases rule: settledAt_cases)
  case Without
  then show ?thesis
    by (simp add: compileIcon_resolve resolveWrapper_def setIconElement_def field_fixed)
next
  case (Has w)
  then show ?thesis
    by (simp add: compileIcon_resolve resolveWrapper_def setIconElement_def field_fixed)
next
  case (Written w)
  then show ?thesis
    by (simp add: compileIcon_resolve resolveWrapper_def setIconElement_def field_fixed
        setAttribute_settled)
qed

lemma compileLabel_fixed:
  assumes "labelSettled (this, bk)"
  shows "compileLabel (this, bk) = (this, bk)"
  using assms [unfolded labelSettled_def prod.case]
proof (cases rule: settledAt_cases)
  case Without
  then show ?thesis by (simp add: compileLabel_resolve resolveWrapper_def field_fixed)
next
  case (Has w)
  then show ?thesis by (simp add: compileLabel_resolve resolveWrapper_def field_fixed)
next
  case (Written w)
  then show ?thesis
    by (simp add: compileLabel_resolve resolveWrapper_def field_fixed setAttribute_settled)
qed

lemma compileBadge_fixed:
  assumes "badgeSettled (this, bk)"
  shows "compileBadge (this, bk) = (this, bk)"
  using assms [unfolded badgeSettled_def prod.case]
proof (cases rule: settledAt_cases)
  case Without
  then show ?thesis by (simp add: compileBadge_resolve resolveWrapper_def field_fixed)
next
  case (Has w)
  then show ?thesis by (simp add: compileBadge_resolve resolveWrapper_def field_fixed)
next
  case (Written w)
  then show ?thesis
    by (simp add: compileBadge_resolve resolveWrapper_def field_fixed setAttribute_settled)
qed

lemma compileRipple_fixed:
  assumes "rippleSettled (this, bk)"
  shows "compileRipple (this, bk) = (this, bk)"
  using assms [unfolded rippleSettled_def prod.case]
proof (cases rule: settledAt_cases)
  case Without
  then show ?thesis by (simp add: compileRipple_resolve resolveWrapper_def)
next
  case (Has w)
  then show ?thesis by (simp add: compileRipple_resolve resolveWrapper_def)
next
  case (Written w)
  then show ?thesis
    by (simp add: compileRipple_resolve resolveWrapper_def Tab_setRipple_def setAttribute_settled)
qed


text \<open>
  When no child of the button matches two selectors, the four sections do not meet:
  each is settled after the last of them.
\<close>

lemma compileSections_settled:
  assumes "compileSections iconProperty (this, bk) = (this', bk')"
    "siblings (tabAllocated this) bk" "\<forall>n \<in> set bk. exclusive n"
  shows "iconSettled iconProperty (this', bk')" and "labelSettled (this', bk')"
    and "badgeSettled (this', bk')" and "rippleSettled (this', bk')"
proof -
  from assms(1) obtain t1 k1 t2 k2 t3 k3 where st:
    "compileIcon iconProperty (this, bk) = (t1, k1)" "compileLabel (t1, k1) = (t2, k2)"
    "compileBadge (t2, k2) = (t3, k3)" "compileRipple (t3, k3) = (this', bk')"
    by (rule compileSections_steps)
  note s1 = compileIcon_siblings [OF st(1) assms(2)]
  note s2 = compileLabel_siblings [OF st(2) s1]
  note s3 = compileBadge_siblings [OF st(3) s2]
  have d: "distinct (map nid bk)" "distinct (map nid k1)" "distinct (map nid k2)"
    "distinct (map nid k3)"
    using assms(2) s1 s2 s3 by (simp_all add: siblings_def)
  note rI = st(1) [unfolded compileIcon_resolve]
  note rL = st(2) [unfolded compileLabel_resolve]
  note rB = st(3) [unfolded compileBadge_resolve]
  note rR = st(4) [unfolded compileRipple_resolve]
  have e1: "\<forall>n \<in> set k1. exclusive n"
    by (rule resolveWrapper_exclusive [OF rI assms(3)])
      (simp add: exclusive_def newIconWrapper_def hasClass_def hasTag_def)
  have e2: "\<forall>n \<in> set k2. exclusive n"
    by (rule resolveWrapper_exclusive [OF rL e1]) (simp add: exclusive_def hasClass_def hasTag_def)
  have e3: "\<forall>n \<in> set k3. exclusive n"
    by (rule resolveWrapper_exclusive [OF rB e2]) (simp add: exclusive_def hasClass_def hasTag_def)
  have iL: "filter (hasClass ''tabbar__icon'') k2 = filter (hasClass ''tabbar__icon'') k1"
    by (rule resolveWrapper_filter_local [OF rL d(2)])
      (use e1 in \<open>auto simp add: exclusive_def hasClass_def\<close>)
  have iB: "filter (hasClass ''tabbar__icon'') k3 = filter (hasClass ''tabbar__icon'') k2"
    by (rule resolveWrapper_filter_local [OF rB d(3)])
      (use e2 in \<open>auto simp add: exclusive_def hasClass_def\<close>)
  have iR: "filter (hasClass ''tabbar__icon'') bk' = filter (hasClass ''tabbar__icon'') k3"
    by (rule resolveWrapper_filter_local [OF rR d(4)])
      (use e3 in \<open>auto simp add: exclusive_def hasClass_def\<close>)
  have lB: "filter (hasClass ''tabbar__label'') k3 = filter (hasClass ''tabbar__label'') k2"
    by (rule resolveWrapper_filter_local [OF rB d(3)])
      (use e2 in \<open>auto simp add: exclusive_def hasClass_def\<close>)
  have lR: "filter (hasClass ''tabbar__label'') bk' = filter (hasClass ''tabbar__label'') k3"
    by (rule resolveWrapper_filter_local [OF rR d(4)])
      (use e3 in \<open>auto simp add: exclusive_def hasClass_def\<close>)
  have bR: "filter (hasClass ''tabbar__badge'') bk' = filter (hasClass ''tabbar__badge'') k3"
    by (rule resolveWrapper_filter_local [OF rR d(4)])
      (use e3 in \<open>auto simp add: exclusive_def hasClass_def\<close>)
  note fL = compileLabel_framed [OF st(2)]
  note fB = compileBadge_framed [OF st(3)]
  note fR = compileRipple_framed [OF st(4)]
  have "iconSettled iconProperty (t1, k1)" by (rule compileIcon_settles [OF st(1) d(1)])
  then have "iconSettled iconProperty (t2, k2)" by (rule iconSettled_kept [OF _ fL _ _ iL]) simp_all
  then have "iconSettled iconProperty (t3, k3)" by (rule iconSettled_kept [OF _ fB _ _ iB]) simp_all
  then show "iconSettled iconProperty (this', bk')"
    by (rule iconSettled_kept [OF _ fR _ _ iR]) simp_all
  have "labelSettled (t2, k2)" by (rule compileLabel_settles [OF st(2) d(2)])
  then have "labelSettled (t3, k3)" by (rule labelSettled_kept [OF _ fB _ lB]) simp
  then show "labelSettled (this', bk')" by (rule labelSettled_kept [OF _ fR _ lR]) simp
  have "badgeSettled (t3, k3)" by (rule compileBadge_settles [OF st(3) d(3)])
  then show "badgeSettled (this', bk')" by (rule badgeSettled_kept [OF _ fR _ bR]) simp
  show "rippleSettled (this', bk')" by (rule compileRipple_settles [OF st(4) d(4)])
qed

text \<open>
  The first half of \<open>_compile\<close> on an unambiguous tab leaves the button and the input
  as the only children of the tab, and no node that matches two selectors among the
  children of the button.
\<close>

lemma compileButton_unambiguous:
  assumes "compileButton this = (this1, button)" "Tab_wellFormed this" "unambiguous this"
  shows "\<exists>B. B \<in> set (tabChildNodes this1) \<and> nid B = button \<and> \<not> hasTag ''INPUT'' B
           \<and> (automaticallyAddedButton this1 = Some button
                \<or> automaticallyAddedButton this1 = None \<and> hasClass ''tabbar__button'' B)
           \<and> (\<forall>n \<in> set (tabChildNodes this1). n \<in> set (tabChildNodes this) \<or> n = B)
           \<and> (B \<in> set (tabChildNodes this) \<or> kids B = [])"
  using assms(1)
proof (cases rule: compileButton_cases)
  case (User u)
  from User(1) have u: "u \<in> set (tabChildNodes this)" "hasClass ''tabbar__button'' u"
    by (auto simp add: find_Some_iff dest: nth_mem)
  then have "\<not> hasTag ''INPUT'' u" using assms(3) by (auto simp add: unambiguous_def)
  then show ?thesis using u User by (intro exI [of _ u]) simp
next
  case (Replace u x)
  from Replace(1) have u: "u \<in> set (filter (hasClass ''tabbar__button'') (tabChildNodes this))"
    "Some (nid u) \<noteq> automaticallyAddedButton this"
    by (auto simp add: find_Some_iff dest: nth_mem)
  then have u': "u \<in> set (tabChildNodes this)" "hasClass ''tabbar__button'' u" "nid u \<noteq> x"
    using Replace(2) by auto
  then have "\<not> hasTag ''INPUT'' u" using assms(3) by (auto simp add: unambiguous_def)
  then show ?thesis using u' Replace by (intro exI [of _ u]) (auto simp add: removeNode_def)
next
  case (Auto x)
  then obtain b where b: "b \<in> set (tabChildNodes this)" "nid b = x" "nodeName b = ''BUTTON''"
    using assms(2) by (auto simp add: Tab_wellFormed_def buttonAttached_def)
  then show ?thesis using Auto by (intro exI [of _ b]) (simp add: hasTag_def)
next
  case Create
  then show ?thesis
    by (intro exI [of _ "Element (tabAllocated this) ''BUTTON'' [''tabbar__button''] [] []"])
      (auto simp add: hasTag_def)
qed


lemma compileChildren_unambiguous:
  assumes "compileChildren this = (this', button, bk)" "Tab_wellFormed this" "unambiguous this"
  shows "\<forall>n \<in> set bk. exclusive n"
    and "\<exists>B I. B \<in> set (tabChildNodes this') \<and> I \<in> set (tabChildNodes this')
           \<and> nid B = button \<and> \<not> hasTag ''INPUT'' B
           \<and> hasTag ''INPUT'' I \<and> \<not> hasClass ''tabbar__button'' I
           \<and> inputElement this' = Some (nid I)
           \<and> (\<forall>n \<in> set (tabChildNodes this'). n = B \<or> n = I)
           \<and> (automaticallyAddedButton this' = Some button
                \<or> automaticallyAddedButton this' = None \<and> hasClass ''tabbar__button'' B)"
proof -
  from assms(1) obtain this1 this2 input where st:
    "compileButton this = (this1, button)" "compileInput this1 = (this2, input)"
    "this' = this2\<lparr>tabChildNodes :=
               filter (\<lambda>n. \<not> (nid n \<noteq> button \<and> nid n \<noteq> input)) (tabChildNodes this2),
             inputElement := Some input\<rparr>"
    "bk = kidsOf button (tabChildNodes this1)
            @ filter (\<lambda>n. nid n \<noteq> button \<and> nid n \<noteq> input) (tabChildNodes this2)"
    by (rule compileChildren_steps)
  note b = compileButton_wellFormed [OF st(1) assms(2)]
  note sib1 = wellFormedNodes_siblings [OF b(1)]
  note i = compileInput_facts [OF st(2) b(1)]
  from compileButton_unambiguous [OF st(1) assms(2,3)] obtain B where
    B: "B \<in> set (tabChildNodes this1)" "nid B = button" "\<not> hasTag ''INPUT'' B"
      "automaticallyAddedButton this1 = Some button
         \<or> automaticallyAddedButton this1 = None \<and> hasClass ''tabbar__button'' B"
      "\<forall>n \<in> set (tabChildNodes this1). n \<in> set (tabChildNodes this) \<or> n = B"
      "B \<in> set (tabChildNodes this) \<or> kids B = []"
    by blast
  have un: "\<not> hasClass ''tabbar__button'' n \<or> \<not> hasTag ''INPUT'' n" "exclusive n"
    "\<forall>m \<in> set (kids n). exclusive m" if "n \<in> set (tabChildNodes this)" for n
    using assms(3) that by (auto simp add: unambiguous_def)
  from st(2) have "\<exists>I. I \<in> set (tabChildNodes this2) \<and> nid I = input \<and> hasTag ''INPUT'' I
      \<and> \<not> hasClass ''tabbar__button'' I \<and> B \<in> set (tabChildNodes this2)
      \<and> (\<forall>n \<in> set (tabChildNodes this2). n \<in> set (tabChildNodes this) \<or> n = B \<or> n = I)"
  proof (cases rule: compileInput_cases)
    case Create
    then show ?thesis using B(1,5)
      by (intro exI [of _ "Element (tabAllocated this1) ''INPUT'' []
            [(''type'', ''radio''), (''style'', ''display: none;'')] []"])
        (auto simp add: hasTag_def hasClass_def)
  next
    case (Keep i0 further)
    have i0: "i0 \<in> set (tabChildNodes this1)" "hasTag ''INPUT'' i0"
      using filter_in [OF Keep(1)] by simp_all
    have d1: "distinct (map nid (tabChildNodes this1))" using sib1 by (simp add: siblings_def)
    have "i0 \<noteq> B" using i0(2) B(3) by auto
    then have "i0 \<in> set (tabChildNodes this)" using B(5) i0(1) by auto
    then have nb: "\<not> hasClass ''tabbar__button'' i0" using un(1) i0(2) by auto
    have "filter (hasTag ''INPUT'') (tabChildNodes this2) = [i0]"
      using filter_own(1) [OF Keep(1) d1] Keep(2) by (simp add: removeNodes_filter)
    then have "i0 \<in> set (filter (hasTag ''INPUT'') (tabChildNodes this2))" by simp
    then have in2: "i0 \<in> set (tabChildNodes this2)" by simp
    have "nid B \<notin> nid ` set further"
      by (rule filter_ids [OF Keep(1) B(1) B(3) d1, THEN contrapos_nn]) auto
    then have "B \<in> set (tabChildNodes this2)"
      using B(1) Keep(2) by (simp add: removeNodes_filter)
    moreover have "\<forall>n \<in> set (tabChildNodes this2). n \<in> set (tabChildNodes this) \<or> n = B \<or> n = i0"
      using B(5) Keep(2) by (auto simp add: removeNodes_filter)
    ultimately show ?thesis using in2 i0(2) nb Keep(3) by (intro exI [of _ i0]) simp
  qed
  then obtain I where I: "I \<in> set (tabChildNodes this2)" "nid I = input" "hasTag ''INPUT'' I"
    "\<not> hasClass ''tabbar__button'' I" "B \<in> set (tabChildNodes this2)"
    "\<forall>n \<in> set (tabChildNodes this2). n \<in> set (tabChildNodes this) \<or> n = B \<or> n = I"
    by blast
  have same: "n = m" if "n \<in> set (tabChildNodes this2)" "m \<in> set (tabChildNodes this2)"
    "nid n = nid m" for n m
    using i(4) that by (auto simp add: distinct_map inj_on_def)
  have kb: "kidsOf button (tabChildNodes this1) = kids B"
    using kidsOf_in [OF sib1 B(1)] B(2) by simp
  show "\<forall>n \<in> set bk. exclusive n"
  proof
    fix n assume "n \<in> set bk"
    then consider "n \<in> set (kids B)"
      | "n \<in> set (tabChildNodes this2)" "nid n \<noteq> button" "nid n \<noteq> input"
      by (auto simp add: st(4) kb)
    then show "exclusive n"
    proof cases
      case 1
      then show ?thesis using B(6) un(3) by auto
    next
      case 2
      then have "n \<in> set (tabChildNodes this)" using I(6) B(2) I(2) by auto
      then show ?thesis by (rule un(2))
    qed
  qed
  have "\<forall>n \<in> set (tabChildNodes this'). n = B \<or> n = I"
  proof
    fix n assume "n \<in> set (tabChildNodes this')"
    then have n: "n \<in> set (tabChildNodes this2)" "nid n = button \<or> nid n = input"
      by (auto simp add: st(3))
    from n(2) show "n = B \<or> n = I"
      using same [OF n(1) I(5)] same [OF n(1) I(1)] B(2) I(2) by auto
  qed
  moreover have "B \<in> set (tabChildNodes this')" "I \<in> set (tabChildNodes this')"
    using I(1,2,5) B(2) by (simp_all add: st(3))
  moreover have "automaticallyAddedButton this' = automaticallyAddedButton this1"
    using i(3) by (simp add: st(3))
  ultimately show "\<exists>B I. B \<in> set (tabChildNodes this') \<and> I \<in> set (tabChildNodes this')
           \<and> nid B = button \<and> \<not> hasTag ''INPUT'' B
           \<and> hasTag ''INPUT'' I \<and> \<not> hasClass ''tabbar__button'' I
           \<and> inputElement this' = Some (nid I)
           \<and> (\<forall>n \<in> set (tabChildNodes this'). n = B \<or> n = I)
           \<and> (automaticallyAddedButton this' = Some button
                \<or> automaticallyAddedButton this' = None \<and> hasClass ''tabbar__button'' B)"
    using B(2,3,4) I(2,3,4) by (intro exI [of _ B] exI [of _ I]) (simp add: st(3))
qed


lemma onNode_idem:
  assumes "\<And>n. nid (f n) = nid n" "\<And>n. f (f n) = f n"
  shows "onNode i f (onNode i f ks) = onNode i f ks"
  by (induction ks) (simp_all add: onNode_Cons assms)

text \<open>On a compiled tab the first half of \<open>_compile\<close> finds everything in place.\<close>

lemma compileChildren_again:
  assumes "compileChildren this = (this1, button, bk)" "Tab_wellFormed this" "unambiguous this"
    "compileSections iconProperty (this1, bk) = (this2, bk')"
  shows "compileChildren (Tab_compile iconProperty this) = (Tab_compile iconProperty this, button, bk')"
proof -
  let ?R = "Tab_compile iconProperty this"
  let ?f = "setKids bk'"
  let ?c = "tabChildNodes this1"
  note R = Tab_compile_result [OF assms(1,4)]
  note fs = compileSections_fields [OF assms(4)]
  note cf = compileChildren_facts [OF assms(1,2)]
  from compileChildren_unambiguous(2) [OF assms(1,2,3)] obtain B I where
    BI: "B \<in> set ?c" "I \<in> set ?c" "nid B = button" "\<not> hasTag ''INPUT'' B"
      "hasTag ''INPUT'' I" "\<not> hasClass ''tabbar__button'' I" "inputElement this1 = Some (nid I)"
      "\<forall>n \<in> set ?c. n = B \<or> n = I"
      "automaticallyAddedButton this1 = Some button
         \<or> automaticallyAddedButton this1 = None \<and> hasClass ''tabbar__button'' B"
    by blast
  have ne: "nid I \<noteq> button"
  proof
    assume "nid I = button"
    then have "I = B" using cf(3) BI(1,2,3) by (auto simp add: distinct_map inj_on_def)
    then show False using BI(4,5) by simp
  qed
  have kids: "tabChildNodes ?R = onNode button ?f ?c" by (simp add: R)
  have auto': "automaticallyAddedButton ?R = automaticallyAddedButton this1"
    and inp: "inputElement ?R = Some (nid I)"
    using fs(2,3) BI(7) by (simp_all add: R)
  have mem: "n = ?f B \<or> n = I" if "n \<in> set (tabChildNodes ?R)" for n
    using that BI(3,8) ne by (auto simp add: kids set_onNode)
  have fb: "?f B \<in> set (tabChildNodes ?R)" using BI(1,3) by (force simp add: kids set_onNode)
  have dR: "distinct (map nid (tabChildNodes ?R))"
    using cf(3) map_nid_onNode [of ?f button ?c] by (simp add: kids)
  let ?buttons = "filter (hasClass ''tabbar__button'') (tabChildNodes ?R)"
  have cb: "compileButton ?R = (?R, button)"
  proof (cases "automaticallyAddedButton this1")
    case (Some x)
    with BI(9) have x: "x = button" by simp
    have "Some (nid n) = automaticallyAddedButton ?R" if "n \<in> set ?buttons" for n
    proof -
      from that have n: "n \<in> set (tabChildNodes ?R)" "hasClass ''tabbar__button'' n" by simp_all
      from mem [OF n(1)] n(2) BI(6) have "n = ?f B" by auto
      then show ?thesis by (simp add: auto' Some x BI(3))
    qed
    then have "\<not> (\<exists>n. n \<in> set ?buttons \<and> Some (nid n) \<noteq> automaticallyAddedButton ?R)"
      by blast
    then have "find (\<lambda>n. Some (nid n) \<noteq> automaticallyAddedButton ?R) ?buttons = None"
      unfolding find_None_iff by blast
    then show ?thesis using Some x by (simp add: compileButton_def Let_def auto')
  next
    case None
    with BI(9) have hb: "hasClass ''tabbar__button'' B" by simp
    have "set ?buttons = {?f B}" using mem fb hb BI(6) by auto
    moreover have "distinct ?buttons" using dR by (simp add: distinct_map)
    ultimately have "?buttons = [?f B]" by (rule distinct_singleton [rotated])
    then have "find (\<lambda>n. Some (nid n) \<noteq> automaticallyAddedButton ?R) ?buttons = Some (?f B)"
      by (simp add: auto' None)
    then show ?thesis using None BI(3) by (simp add: compileButton_def Let_def auto')
  qed
  have "set (filter (hasTag ''INPUT'') (tabChildNodes ?R)) = {I}"
  proof (intro equalityI subsetI)
    fix n assume "n \<in> set (filter (hasTag ''INPUT'') (tabChildNodes ?R))"
    then have "n \<in> set (tabChildNodes ?R)" "hasTag ''INPUT'' n" by simp_all
    then show "n \<in> {I}" using mem [of n] BI(4) by auto
  next
    fix n assume "n \<in> {I}"
    then show "n \<in> set (filter (hasTag ''INPUT'') (tabChildNodes ?R))"
      using BI(2,5) ne by (force simp add: kids set_onNode)
  qed
  moreover have "distinct (filter (hasTag ''INPUT'') (tabChildNodes ?R))"
    using dR by (simp add: distinct_map)
  ultimately have fi: "filter (hasTag ''INPUT'') (tabChildNodes ?R) = [I]"
    by (rule distinct_singleton [rotated])
  have ci: "compileInput ?R = (?R, nid I)" by (simp add: compileInput_def fi)
  have all: "\<not> (nid n \<noteq> button \<and> nid n \<noteq> nid I)" if "n \<in> set (tabChildNodes ?R)" for n
    using mem [OF that] BI(3) by auto
  have keep: "filter (\<lambda>n. nid n = button \<or> nid n = nid I) (tabChildNodes ?R) = tabChildNodes ?R"
    using all by (simp add: filter_id_conv)
  have move: "filter (\<lambda>n. nid n \<noteq> button \<and> nid n \<noteq> nid I) (tabChildNodes ?R) = []"
    using all by (simp add: filter_empty_conv)
  have "button \<in> nid ` set ?c" using BI(1,3) by auto
  then have kb: "kidsOf button (tabChildNodes ?R) = bk'"
    using Tab_compile_button [OF assms(2,1,4)] by simp
  have "?R\<lparr>inputElement := Some (nid I)\<rparr> = ?R" using inp by auto
  then show ?thesis
    by (simp add: compileChildren_def cb ci keep move kb)
qed


lemma settled_children [simp]:
  "iconSettled iconProperty (this\<lparr>tabChildNodes := ks\<rparr>, bk) = iconSettled iconProperty (this, bk)"
  "labelSettled (this\<lparr>tabChildNodes := ks\<rparr>, bk) = labelSettled (this, bk)"
  "badgeSettled (this\<lparr>tabChildNodes := ks\<rparr>, bk) = badgeSettled (this, bk)"
  "rippleSettled (this\<lparr>tabChildNodes := ks\<rparr>, bk) = rippleSettled (this, bk)"
  by (simp_all add: iconSettled_def labelSettled_def badgeSettled_def rippleSettled_def
      hasIcon_def Tab_ripple_def)

lemma Tab_compile_twice:
  assumes "Tab_wellFormed this" "unambiguous this"
  shows "Tab_compile iconProperty (Tab_compile iconProperty this) = Tab_compile iconProperty this"
proof -
  let ?R = "Tab_compile iconProperty this"
  obtain this1 button bk where C: "compileChildren this = (this1, button, bk)"
    by (cases "compileChildren this") auto
  obtain this2 bk' where S: "compileSections iconProperty (this1, bk) = (this2, bk')"
    by (cases "compileSections iconProperty (this1, bk)") auto
  note R = Tab_compile_result [OF C S]
  note cf = compileChildren_facts [OF C assms(1)]
  note ex = compileChildren_unambiguous(1) [OF C assms]
  note st = compileSections_settled [OF S cf(1) ex]
  have "iconSettled iconProperty (?R, bk')" "labelSettled (?R, bk')" "badgeSettled (?R, bk')"
    "rippleSettled (?R, bk')"
    using st by (simp_all add: R)
  then have "compileSections iconProperty (?R, bk') = (?R, bk')"
    by (simp add: compileSections_def compileIcon_fixed compileLabel_fixed compileBadge_fixed
        compileRipple_fixed)
  from Tab_compile_result [OF compileChildren_again [OF C assms S] this]
  have "Tab_compile iconProperty ?R
      = ?R\<lparr>tabChildNodes := onNode button (setKids bk') (tabChildNodes ?R)\<rparr>" .
  also have "tabChildNodes ?R = onNode button (setKids bk') (tabChildNodes this1)"
    by (simp add: R)
  also have "onNode button (setKids bk') (onNode button (setKids bk') (tabChildNodes this1))
      = tabChildNodes ?R"
    by (simp add: R onNode_idem setKids_idem)
  finally show ?thesis by simp
qed

section \<open>Compiling twice\<close>




end
